(* ===== verification/Lease_Prelude.thy ===== *)
theory Lease_Prelude
  imports Main "HOL-Library.Word"
begin

text \<open>
  What the component theories share: the widths and time types of the Go code, signed
  arithmetic on durations, and the collections the component proofs draw on.

  A Go \<^verbatim>\<open>time.Duration\<close> is an \<^verbatim>\<open>int64\<close> count of nanoseconds: a \<open>64 word\<close> read with
  \<open>sint\<close>, so that subtraction wraps as it does in Go. A Go \<^verbatim>\<open>time.Time\<close> is an instant;
  it is modelled as the integer number of nanoseconds since Go's zero time, so that
  \<^verbatim>\<open>IsZero\<close> is \<open>t = 0\<close>, \<^verbatim>\<open>Before\<close> is \<open><\<close> and \<^verbatim>\<open>After\<close> is \<open>>\<close>.
\<close>

named_theorems lease_defs \<open>definitions of operations, unfolded by the component proofs\<close>
named_theorems lease_laws \<open>interface laws of the backends\<close>

section \<open>Widths and time\<close>

type_synonym duration = "64 word"
type_synonym uint32 = "32 word"
type_synonym uint64 = "64 word"
type_synonym instant = int

definition time_Add :: "instant \<Rightarrow> duration \<Rightarrow> instant" where
  "time_Add t d = t + sint d"

definition duration_Milliseconds :: "duration \<Rightarrow> int" where
  "duration_Milliseconds d = sgn (sint d) * (\<bar>sint d\<bar> div 1000000)"

definition time_IsZero :: "instant \<Rightarrow> bool" where
  "time_IsZero t \<longleftrightarrow> t = 0"

abbreviation (input) Nanosecond :: duration where "Nanosecond \<equiv> 1"
abbreviation (input) Millisecond :: duration where "Millisecond \<equiv> 1000000"
abbreviation (input) Second :: duration where "Second \<equiv> 1000000000"
abbreviation (input) Minute :: duration where "Minute \<equiv> 60000000000"
abbreviation (input) Hour :: duration where "Hour \<equiv> 3600000000000"

section \<open>Signed 64-bit arithmetic\<close>

lemma sint64_range: "- (2 ^ 63) \<le> sint (x :: 64 word)" "sint (x :: 64 word) < 2 ^ 63"
  using sint_ge [of x] sint_lt [of x] by simp_all

lemma signed_take_bit64_id:
  "- (2 ^ 63) \<le> i \<Longrightarrow> i < 2 ^ 63 \<Longrightarrow> signed_take_bit 63 (i :: int) = i"
  by (simp add: signed_take_bit_int_eq_self)

lemma sint64_sub:
  assumes "- (2 ^ 63) \<le> sint a - sint b" and "sint a - sint b < 2 ^ 63"
  shows "sint ((a :: 64 word) - b) = sint a - sint b"
proof -
  have "sint (a - b) = signed_take_bit 63 (sint a - sint b)"
    by (simp add: sint_word_ariths)
  also have "\<dots> = sint a - sint b"
    using assms by (rule signed_take_bit64_id)
  finally show ?thesis .
qed

lemma sint64_sub_nonneg:
  "0 \<le> sint a \<Longrightarrow> 0 \<le> sint b \<Longrightarrow> sint ((a :: 64 word) - b) = sint a - sint b"
  using sint64_range [of a] sint64_range [of b] by (intro sint64_sub) simp_all

lemma sint64_add:
  assumes "- (2 ^ 63) \<le> sint a + sint b" and "sint a + sint b < 2 ^ 63"
  shows "sint ((a :: 64 word) + b) = sint a + sint b"
proof -
  have "sint (a + b) = signed_take_bit 63 (sint a + sint b)"
    by (simp add: sint_word_ariths)
  also have "\<dots> = sint a + sint b"
    using assms by (rule signed_take_bit64_id)
  finally show ?thesis .
qed

lemma sint64_eq_0_iff [simp]: "sint (x :: 64 word) = 0 \<longleftrightarrow> x = 0"
  by (rule signed_eq_0_iff)

lemma sint64_1: "sint (1 :: 64 word) = 1"
  by simp

lemma sint64_pos: "0 < sint (x :: 64 word) \<longleftrightarrow> 0 \<le> sint x \<and> x \<noteq> 0"
  using sint64_eq_0_iff [of x] by linarith

section \<open>Unsigned successors\<close>

lemma unat_succ:
  "(w :: 'a::len word) \<noteq> - 1 \<Longrightarrow> unat (w + 1) = Suc (unat w)"
  using unatSuc [of w] by (simp add: add.commute add_eq_0_iff)

end
