(* ===== verification/Lease_Errors.thy ===== *)
theory Lease_Errors
  imports Lease_Prelude
begin

text \<open>
  The error values of the program: the sentinels of \<^verbatim>\<open>errors.go\<close>, the ways the code wraps
  and joins them, \<^verbatim>\<open>errors.Is\<close> over the wrapping tree, and the redacting \<^verbatim>\<open>Classified\<close>
  error of \<^verbatim>\<open>internal/failure\<close>. A Go \<^verbatim>\<open>error\<close> that may be nil is a \<open>gerror option\<close>.
\<close>

section \<open>The error tree\<close>

datatype sentinel =
    ErrContended | ErrTimeout | ErrCanceled | ErrLost | ErrStaleOwner
  | ErrBackendUnavailable | ErrInvalidState | ErrAmbiguousOutcome

datatype ctx_error = Canceled | DeadlineExceeded

text \<open>
  \<open>Fmt p e s\<close> is \<^verbatim>\<open>fmt.Errorf\<close> with one \<^verbatim>\<open>%w\<close> verb between the literal texts \<open>p\<close> and
  \<open>s\<close>; \<open>Joined\<close> is the value \<^verbatim>\<open>errors.Join\<close> builds; \<open>Classified\<close> is the struct of
  \<^verbatim>\<open>internal/failure\<close> (operation, classification, cause). \<open>Opaque\<close> is an error of other
  code: its text and the errors it unwraps to. \<open>ErrNoRows\<close> is the sentinel of the
  PostgreSQL driver that the code compares with.
\<close>

datatype gerror =
    Sentinel sentinel
  | CtxError ctx_error
  | ErrNoRows
  | Opaque string "gerror list"
  | Fmt string gerror string
  | Joined "gerror list"
  | Classified string gerror gerror

type_synonym 'a result = "gerror + 'a"

fun errors_Is :: "gerror \<Rightarrow> gerror \<Rightarrow> bool" where
  "errors_Is (Sentinel s) t \<longleftrightarrow> t = Sentinel s"
| "errors_Is (CtxError c) t \<longleftrightarrow> t = CtxError c"
| "errors_Is ErrNoRows t \<longleftrightarrow> t = ErrNoRows"
| "errors_Is (Opaque m es) t \<longleftrightarrow> list_ex (\<lambda>e. errors_Is e t) es"
| "errors_Is (Fmt p e s) t \<longleftrightarrow> errors_Is e t"
| "errors_Is (Joined es) t \<longleftrightarrow> list_ex (\<lambda>e. errors_Is e t) es"
| "errors_Is (Classified op c e) t \<longleftrightarrow> errors_Is c t \<or> errors_Is e t"

definition err_is :: "gerror option \<Rightarrow> gerror \<Rightarrow> bool" where
  "err_is err t = (case err of None \<Rightarrow> False | Some e \<Rightarrow> errors_Is e t)"

definition errors_Join :: "gerror option list \<Rightarrow> gerror option" where
  "errors_Join errs =
     (let es = map the (filter (\<lambda>e. e \<noteq> None) errs)
      in if es = [] then None else Some (Joined es))"

definition Wrap :: "gerror \<Rightarrow> string \<Rightarrow> gerror" where
  "Wrap err operation = Fmt (''lease '' @ operation @ '': '') err ''''"

definition errorIs :: "gerror \<Rightarrow> gerror \<Rightarrow> bool" where
  "errorIs err target = errors_Is err target"

definition failure_Wrap :: "gerror \<Rightarrow> gerror \<Rightarrow> string \<Rightarrow> gerror" where
  "failure_Wrap classification cause operation = Classified operation classification cause"

section \<open>Rendering\<close>

fun sentinel_text :: "sentinel \<Rightarrow> string" where
  "sentinel_text ErrContended = ''lease: contended''"
| "sentinel_text ErrTimeout = ''lease: timeout''"
| "sentinel_text ErrCanceled = ''lease: canceled''"
| "sentinel_text ErrLost = ''lease: lost''"
| "sentinel_text ErrStaleOwner = ''lease: stale owner''"
| "sentinel_text ErrBackendUnavailable = ''lease: backend unavailable''"
| "sentinel_text ErrInvalidState = ''lease: invalid state''"
| "sentinel_text ErrAmbiguousOutcome = ''lease: ambiguous outcome''"

fun ctx_error_text :: "ctx_error \<Rightarrow> string" where
  "ctx_error_text Canceled = ''context canceled''"
| "ctx_error_text DeadlineExceeded = ''context deadline exceeded''"

fun join_lines :: "string list \<Rightarrow> string" where
  "join_lines [] = ''''"
| "join_lines [l] = l"
| "join_lines (l # ls) = l @ [CHR 0x0A] @ join_lines ls"

fun error_text :: "gerror \<Rightarrow> string" where
  "error_text (Sentinel s) = sentinel_text s"
| "error_text (CtxError c) = ctx_error_text c"
| "error_text ErrNoRows = ''no rows in result set''"
| "error_text (Opaque m es) = m"
| "error_text (Fmt p e s) = p @ error_text e @ s"
| "error_text (Joined es) = join_lines (map error_text es)"
| "error_text (Classified op c e) = ''lease '' @ op @ '': '' @ error_text c"

section \<open>Lemmas the components share\<close>

lemma errors_Is_Wrap [simp]: "errors_Is (Wrap e op) t = errors_Is e t"
  by (simp add: Wrap_def)

lemma errors_Is_failure_Wrap [simp]:
  "errors_Is (failure_Wrap c e op) t \<longleftrightarrow> errors_Is c t \<or> errors_Is e t"
  by (simp add: failure_Wrap_def)

lemma err_is_simps [simp]: "err_is None t = False" "err_is (Some e) t = errors_Is e t"
  by (simp_all add: err_is_def)

lemma errors_Join_None [simp]: "errors_Join errs = None \<longleftrightarrow> (\<forall>e \<in> set errs. e = None)"
  by (auto simp: errors_Join_def Let_def filter_empty_conv)

lemma err_is_Join [simp]:
  "err_is (errors_Join errs) t \<longleftrightarrow> (\<exists>e \<in> set errs. err_is e t)"
  by (auto simp: errors_Join_def Let_def filter_empty_conv list_ex_iff err_is_def
        split: option.splits)

section \<open>Fixed texts\<close>

definition all_sentinels :: "sentinel list" where
  "all_sentinels = [ErrContended, ErrTimeout, ErrCanceled, ErrLost, ErrStaleOwner, ErrBackendUnavailable,
     ErrInvalidState, ErrAmbiguousOutcome]"

text \<open>An error whose text consists of one of the given labels and the text of a sentinel.\<close>

definition classified_text :: "string list \<Rightarrow> gerror \<Rightarrow> bool" where
  "classified_text operations err \<longleftrightarrow>
     list_ex (\<lambda>operation. list_ex (\<lambda>x. error_text err = ''lease '' @ operation @ '': '' @ sentinel_text x) all_sentinels) operations"

lemma all_sentinels_complete [simp]: "x \<in> set all_sentinels"
  by (cases x) (simp_all add: all_sentinels_def)

lemma classified_text_Wrap [intro]: "operation \<in> set operations \<Longrightarrow> classified_text operations (Wrap (Sentinel x) operation)"
  unfolding classified_text_def list_ex_iff by (intro bexI [of _ operation] bexI [of _ x]) (simp_all add: Wrap_def)

lemma classified_text_failure [intro]:
  "operation \<in> set operations \<Longrightarrow> classified_text operations (failure_Wrap (Sentinel x) cause operation)"
  unfolding classified_text_def list_ex_iff by (intro bexI [of _ operation] bexI [of _ x]) (simp_all add: failure_Wrap_def)

end
