(* ===== verification/Lease_Policy.thy ===== *)
theory Lease_Policy
  imports Lease_Errors
begin

text \<open>
  \<^verbatim>\<open>policy.go\<close>: acquisition and renewal policies. Durations keep their 64-bit width, so that
  the subtraction \<^verbatim>\<open>TTL - SafetyMargin\<close> wraps as in Go; the theorems state what the
  constructor accepts in unbounded integers, with no wrap-around left.
\<close>

section \<open>Bounds\<close>

definition MaxTTL :: duration where "MaxTTL = 24 * Hour"
definition MaxWait :: duration where "MaxWait = Hour"
definition MaxAttempts :: uint32 where "MaxAttempts = 10000"
definition MaxOperationTimeout :: duration where "MaxOperationTimeout = Minute"

type_synonym FailureBehavior = "8 word"

definition FailureFailClosed :: FailureBehavior where "FailureFailClosed = 1"

definition duration_min :: "duration \<Rightarrow> duration \<Rightarrow> duration" where
  "duration_min a b = (if b <s a then b else a)"

definition duration_max :: "duration \<Rightarrow> duration \<Rightarrow> duration" where
  "duration_max a b = (if a <s b then b else a)"

section \<open>Options and policies\<close>

record PolicyOptions =
  opt_TTL :: duration
  opt_Wait :: duration
  opt_Retry :: duration
  opt_Jitter :: duration
  opt_RenewEvery :: duration
  opt_SafetyMargin :: duration
  opt_MaxAttempts :: uint32
  opt_OperationTimeout :: duration
  opt_FailureBehavior :: FailureBehavior

record Policy =
  TTL :: duration
  Wait :: duration
  Retry :: duration
  Jitter :: duration
  RenewEvery :: duration
  SafetyMargin :: duration
  policy_MaxAttempts :: uint32
  OperationTimeout :: duration
  policy_FailureBehavior :: FailureBehavior

definition with_defaults :: "PolicyOptions \<Rightarrow> PolicyOptions" where
  "with_defaults options =
     (let options1 = (if opt_OperationTimeout options = 0
            then options\<lparr>opt_OperationTimeout := duration_min (opt_TTL options) (30 * Second)\<rparr>
            else options)
      in if opt_FailureBehavior options1 = 0
         then options1\<lparr>opt_FailureBehavior := FailureFailClosed\<rparr> else options1)"

text \<open>The rejected options, after the defaults: the renewal test and the big disjunction.\<close>

definition invalid_options :: "PolicyOptions \<Rightarrow> bool" where
  "invalid_options options =
     (let remainingTTL = opt_TTL options - opt_SafetyMargin options;
          invalidRenewal0 = opt_RenewEvery options <s 0;
          invalidRenewal = (if opt_RenewEvery options \<noteq> 0
            then invalidRenewal0 \<or> remainingTTL <=s opt_RenewEvery options
            else invalidRenewal0)
      in opt_TTL options <s Nanosecond \<or> MaxTTL <s opt_TTL options \<or>
         opt_Wait options <s 0 \<or> MaxWait <s opt_Wait options \<or>
         opt_Retry options <s 0 \<or> MaxWait <s opt_Retry options \<or>
         opt_Jitter options <s 0 \<or> opt_SafetyMargin options <s 0 \<or>
         remainingTTL <s Nanosecond \<or> opt_Retry options <s opt_Jitter options \<or>
         invalidRenewal \<or>
         opt_MaxAttempts options = 0 \<or> opt_MaxAttempts options > MaxAttempts \<or>
         opt_OperationTimeout options <s Nanosecond \<or>
         MaxOperationTimeout <s opt_OperationTimeout options \<or>
         opt_FailureBehavior options \<noteq> FailureFailClosed \<or>
         (0 <s opt_Wait options \<and> opt_Retry options = 0))"

definition policy_of :: "PolicyOptions \<Rightarrow> Policy" where
  "policy_of options = \<lparr>TTL = opt_TTL options, Wait = opt_Wait options, Retry = opt_Retry options,
     Jitter = opt_Jitter options, RenewEvery = opt_RenewEvery options,
     SafetyMargin = opt_SafetyMargin options,
     policy_MaxAttempts = opt_MaxAttempts options,
     OperationTimeout = opt_OperationTimeout options,
     policy_FailureBehavior = opt_FailureBehavior options\<rparr>"

definition NewPolicy :: "PolicyOptions \<Rightarrow> Policy result" where
  "NewPolicy options0 =
     (let options = with_defaults options0
      in if invalid_options options
         then Inl (Fmt '''' (Sentinel ErrInvalidState) '': invalid policy'')
         else Inr (policy_of options))"

section \<open>The accepted policies, in unbounded integers\<close>

lemma sint_MaxTTL [simp]: "sint MaxTTL = 86400000000000"
  by (simp add: MaxTTL_def)

lemma sint_MaxWait [simp]: "sint MaxWait = 3600000000000"
  by (simp add: MaxWait_def)

lemma sint_MaxOperationTimeout [simp]: "sint MaxOperationTimeout = 60000000000"
  by (simp add: MaxOperationTimeout_def)

definition wf_Policy :: "Policy \<Rightarrow> bool" where
  "wf_Policy p \<longleftrightarrow>
     1 \<le> sint (TTL p) \<and> sint (TTL p) \<le> 86400000000000 \<and>
     0 \<le> sint (Wait p) \<and> sint (Wait p) \<le> 3600000000000 \<and>
     0 \<le> sint (Retry p) \<and> sint (Retry p) \<le> 3600000000000 \<and>
     (0 < sint (Wait p) \<longrightarrow> 0 < sint (Retry p)) \<and>
     0 \<le> sint (Jitter p) \<and> sint (Jitter p) \<le> sint (Retry p) \<and>
     0 \<le> sint (SafetyMargin p) \<and> sint (SafetyMargin p) < sint (TTL p) \<and>
     0 \<le> sint (RenewEvery p) \<and>
     (RenewEvery p \<noteq> 0 \<longrightarrow> sint (RenewEvery p) < sint (TTL p) - sint (SafetyMargin p)) \<and>
     1 \<le> unat (policy_MaxAttempts p) \<and> unat (policy_MaxAttempts p) \<le> 10000 \<and>
     1 \<le> sint (OperationTimeout p) \<and> sint (OperationTimeout p) \<le> 60000000000 \<and>
     policy_FailureBehavior p = FailureFailClosed"

lemma remainingTTL_exact:
  "0 \<le> sint (a :: duration) \<Longrightarrow> 0 \<le> sint b \<Longrightarrow> sint (a - b) = sint a - sint b"
  by (rule sint64_sub_nonneg)

lemma MaxAttempts_bounds:
  "n \<noteq> 0 \<and> \<not> n > MaxAttempts \<longleftrightarrow> 1 \<le> unat n \<and> unat n \<le> 10000"
  by (auto simp: MaxAttempts_def word_le_nat_alt not_less Suc_le_eq unat_gt_0)

text \<open>
  The guard of \<^verbatim>\<open>NewPolicy\<close> in unbounded integers, for the two durations whose
  difference it takes.
\<close>

lemma renewal_guard:
  assumes "1 \<le> sint ttl" and "0 \<le> sint margin"
  shows "(if renew \<noteq> 0 then renew <s 0 \<or> ttl - margin <=s renew else renew <s (0 :: duration)) \<longleftrightarrow>
     \<not> (0 \<le> sint renew \<and> (renew \<noteq> 0 \<longrightarrow> sint renew < sint ttl - sint margin))"
  using assms sint64_sub_nonneg [of ttl margin] by (auto simp: word_sless_alt word_sle_eq)

lemma margin_guard:
  assumes "1 \<le> sint ttl" and "0 \<le> sint margin"
  shows "ttl - margin <s (1 :: duration) \<longleftrightarrow> \<not> sint margin < sint ttl"
  using assms sint64_sub_nonneg [of ttl margin] by (auto simp: word_sless_alt)

lemma wait_guard:
  assumes "0 \<le> sint retry"
  shows "(0 <s wait \<and> retry = (0 :: duration)) \<longleftrightarrow> \<not> (0 < sint wait \<longrightarrow> 0 < sint retry)"
  using assms sint64_pos [of retry] by (auto simp: word_sless_alt)

lemma invalid_options_iff: "invalid_options q \<longleftrightarrow> \<not> wf_Policy (policy_of q)"
proof (cases "1 \<le> sint (opt_TTL q) \<and> 0 \<le> sint (opt_SafetyMargin q) \<and> 0 \<le> sint (opt_Retry q)")
  case True
  then have t: "1 \<le> sint (opt_TTL q)" and m: "0 \<le> sint (opt_SafetyMargin q)"
    and r: "0 \<le> sint (opt_Retry q)" by simp_all
  show ?thesis
    unfolding invalid_options_def Let_def renewal_guard [OF t m] margin_guard [OF t m]
      wait_guard [OF r] policy_of_def wf_Policy_def Policy.simps
    using t m r MaxAttempts_bounds [of "opt_MaxAttempts q"]
    by (simp only: word_sless_alt linorder_not_less [symmetric] sint_MaxTTL sint_MaxWait
        sint_MaxOperationTimeout signed_0 sint64_1 not_not) satx
next
  case False
  then show ?thesis
    unfolding invalid_options_def Let_def policy_of_def wf_Policy_def Policy.simps
      word_sless_alt by (simp only: not_le signed_0 sint64_1 de_Morgan_conj) auto
qed

text \<open>
  C39: \<^verbatim>\<open>NewPolicy\<close> accepts exactly the options whose durations satisfy the documented
  relations in unbounded arithmetic, with the defaults filled in: the wrapping 64-bit
  subtraction never lets an out-of-range margin through.
\<close>

theorem NewPolicy_exact:
  "NewPolicy options = Inr p \<longleftrightarrow> p = policy_of (with_defaults options) \<and> wf_Policy p"
  by (auto simp: NewPolicy_def Let_def invalid_options_iff)

lemma wf_Policy_budget:
  "wf_Policy p \<Longrightarrow> sint (TTL p - SafetyMargin p) = sint (TTL p) - sint (SafetyMargin p)"
  by (rule remainingTTL_exact) (simp_all add: wf_Policy_def)

lemma wf_Policy_delay:
  "wf_Policy p \<Longrightarrow> 0 \<le> sint j \<Longrightarrow> sint j \<le> sint (Jitter p) \<Longrightarrow>
   sint (Retry p + j) = sint (Retry p) + sint j"
  by (rule sint64_add) (simp_all add: wf_Policy_def)

end
