(* ===== verification/Lease_Key.thy ===== *)
theory Lease_Key
  imports Lease_Errors
begin

text \<open>
  \<^verbatim>\<open>key.go\<close>: validated lease keys, and the part of Go's \<^verbatim>\<open>unicode/utf8\<close> and \<^verbatim>\<open>strings\<close>
  packages it calls. A Go string is a byte sequence: a \<open>string\<close> whose characters are
  read as bytes with \<open>of_char\<close>.
\<close>

section \<open>UTF-8 validity, as unicode/utf8.ValidString decides it\<close>

definition in_range :: "nat \<Rightarrow> nat \<Rightarrow> nat \<Rightarrow> bool" where
  "in_range lo hi b \<longleftrightarrow> lo \<le> b \<and> b \<le> hi"

text \<open>
  The accepted range of the second byte after a multi-byte lead byte, and the number of
  further continuation bytes; \<open>None\<close> for a byte that cannot start a sequence.
\<close>

definition lead_byte :: "nat \<Rightarrow> (nat \<times> nat \<times> nat) option" where
  "lead_byte b =
     (if in_range 0xC2 0xDF b then Some (0x80, 0xBF, 0)
      else if b = 0xE0 then Some (0xA0, 0xBF, 1)
      else if in_range 0xE1 0xEC b \<or> in_range 0xEE 0xEF b then Some (0x80, 0xBF, 1)
      else if b = 0xED then Some (0x80, 0x9F, 1)
      else if b = 0xF0 then Some (0x90, 0xBF, 2)
      else if in_range 0xF1 0xF3 b then Some (0x80, 0xBF, 2)
      else if b = 0xF4 then Some (0x80, 0x8F, 2)
      else None)"

fun valid_utf8 :: "nat list \<Rightarrow> bool" where
  "valid_utf8 [] \<longleftrightarrow> True"
| "valid_utf8 (b # bs) \<longleftrightarrow>
     (if b < 0x80 then valid_utf8 bs
      else (case lead_byte b of
          None \<Rightarrow> False
        | Some (lo, hi, n) \<Rightarrow>
            (case bs of
               [] \<Rightarrow> False
             | c # cs \<Rightarrow>
                 in_range lo hi c \<and> n \<le> length cs \<and>
                 list_all (in_range 0x80 0xBF) (take n cs) \<and> valid_utf8 (drop n cs))))"

definition bytes_of :: "string \<Rightarrow> nat list" where
  "bytes_of s = map of_char s"

definition utf8_ValidString :: "string \<Rightarrow> bool" where
  "utf8_ValidString s = valid_utf8 (bytes_of s)"

section \<open>Keys\<close>

record Key =
  key_value :: string

abbreviation key_String :: "Key \<Rightarrow> string" where
  "key_String \<equiv> key_value"

definition zero_Key :: Key where
  "zero_Key = \<lparr>key_value = ''''\<rparr>"

definition MaxKeyBytes :: nat where
  "MaxKeyBytes = 256"

definition strings_ContainsAny :: "string \<Rightarrow> char list \<Rightarrow> bool" where
  "strings_ContainsAny s chars = list_ex (\<lambda>c. c \<in> set chars) s"

definition validSegment :: "string \<Rightarrow> bool" where
  "validSegment segment \<longleftrightarrow>
     segment \<noteq> '''' \<and> utf8_ValidString segment \<and>
     \<not> strings_ContainsAny segment [CHR 0x00, CHR 0x0D, CHR 0x0A]"

definition NewKey :: "string \<Rightarrow> string \<Rightarrow> Key result" where
  "NewKey namespace name =
     (let v = namespace @ ''/'' @ name
      in if \<not> validSegment namespace \<or> \<not> validSegment name \<or> length v > MaxKeyBytes
         then Inl (Fmt '''' (Sentinel ErrInvalidState) '': invalid key'')
         else Inr \<lparr>key_value = v\<rparr>)"

text \<open>\<^verbatim>\<open>strings.Cut\<close> with a one-byte separator: the parts around its first occurrence.\<close>

fun strings_Cut :: "string \<Rightarrow> char \<Rightarrow> string \<times> string \<times> bool" where
  "strings_Cut [] sep = ([], [], False)"
| "strings_Cut (c # cs) sep =
     (if c = sep then ([], cs, True)
      else (case strings_Cut cs sep of (before, after, found) \<Rightarrow> (c # before, after, found)))"

definition ParseKey :: "string \<Rightarrow> Key result" where
  "ParseKey v =
     (case strings_Cut v (CHR ''/'') of
        (namespace, name, found) \<Rightarrow>
          if \<not> found then Inl (Fmt '''' (Sentinel ErrInvalidState) '': invalid key'')
          else NewKey namespace name)"

section \<open>Splitting at an ASCII byte\<close>

lemma lead_byte_bounds:
  "lead_byte b = Some (lo, hi, n) \<Longrightarrow> 0x80 \<le> b \<and> 0x80 \<le> lo \<and> hi \<le> 0xBF"
  by (auto simp: lead_byte_def in_range_def split: if_splits)

text \<open>An ASCII byte never lies inside a multi-byte sequence, so validity splits around it.\<close>

lemma valid_utf8_split:
  "b < 0x80 \<Longrightarrow> valid_utf8 (xs @ b # ys) \<longleftrightarrow> valid_utf8 xs \<and> valid_utf8 ys"
proof (induction xs rule: valid_utf8.induct)
  case 1
  then show ?case by simp
next
  case (2 x xs)
  show ?case
  proof (cases "x < 0x80")
    case True
    with 2 show ?thesis by simp
  next
    case False
    show ?thesis
    proof (cases "lead_byte x")
      case None
      with False show ?thesis by simp
    next
      case (Some l)
      obtain lo hi n where l: "l = (lo, hi, n)" by (cases l)
      with Some have lo: "0x80 \<le> lo" using lead_byte_bounds by blast
      show ?thesis
      proof (cases xs)
        case Nil
        with False Some l lo \<open>b < 0x80\<close> show ?thesis by (simp add: in_range_def)
      next
        case (Cons c cs)
        show ?thesis
        proof (cases "n \<le> length cs")
          case True
          with 2(2) [OF False Some l [symmetric] refl Cons] False Some l Cons \<open>b < 0x80\<close>
          show ?thesis by (auto simp: in_range_def)
        next
          case n: False
          then have "b \<in> set (take n (cs @ b # ys))"
            by (cases "n - length cs") auto
          with \<open>b < 0x80\<close> have "\<not> list_all (in_range 0x80 0xBF) (take n (cs @ b # ys))"
            unfolding list_all_iff in_range_def by (metis linorder_not_less)
          with n False Some l Cons show ?thesis by (simp del: take_append)
        qed
      qed
    qed
  qed
qed

lemma utf8_ValidString_split:
  "utf8_ValidString (xs @ ''/'' @ ys) \<longleftrightarrow> utf8_ValidString xs \<and> utf8_ValidString ys"
  by (simp add: utf8_ValidString_def bytes_of_def valid_utf8_split)

lemma strings_ContainsAny_append [simp]:
  "strings_ContainsAny (xs @ ys) cs \<longleftrightarrow> strings_ContainsAny xs cs \<or> strings_ContainsAny ys cs"
  by (simp add: strings_ContainsAny_def)

lemma validSegment_split:
  "xs \<noteq> [] \<Longrightarrow> ys \<noteq> [] \<Longrightarrow>
   validSegment (xs @ ''/'' @ ys) \<longleftrightarrow> validSegment xs \<and> validSegment ys"
  using utf8_ValidString_split [of xs ys]
  by (auto simp: validSegment_def strings_ContainsAny_def)

section \<open>What Cut returns\<close>

lemma strings_Cut_found:
  "strings_Cut s c = (a, b, True) \<Longrightarrow> s = a @ [c] @ b \<and> c \<notin> set a"
  by (induction s c arbitrary: a rule: strings_Cut.induct) (auto split: if_splits prod.splits)

lemma strings_Cut_append:
  "strings_Cut (a @ c # b) c =
     (case strings_Cut a c of
        (x, y, True) \<Rightarrow> (x, y @ c # b, True)
      | (x, y, False) \<Rightarrow> (a, b, True))"
  by (induction a c rule: strings_Cut.induct) (auto split: prod.splits bool.splits)

lemma strings_Cut_not_found: "strings_Cut s c = (a, b, False) \<Longrightarrow> a = s \<and> b = [] \<and> c \<notin> set s"
  by (induction s c arbitrary: a rule: strings_Cut.induct) (auto split: if_splits prod.splits)

section \<open>Properties of keys\<close>

definition wf_Key :: "Key \<Rightarrow> bool" where
  "wf_Key k \<longleftrightarrow>
     validSegment (key_String k) \<and> length (key_String k) \<le> MaxKeyBytes \<and>
     CHR ''/'' \<in> set (butlast (tl (key_String k)))"

lemma NewKey_Inr:
  "NewKey ns nm = Inr k \<longleftrightarrow>
     validSegment ns \<and> validSegment nm \<and> length ns + length nm < MaxKeyBytes \<and>
     key_String k = ns @ ''/'' @ nm"
  by (cases k) (auto simp: NewKey_def Let_def)

lemma ParseKey_preserves_bytes: "ParseKey v = Inr k \<Longrightarrow> key_String k = v"
  by (auto simp: ParseKey_def NewKey_Inr dest!: strings_Cut_found split: prod.splits if_splits)

lemma NewKey_wf:
  assumes "NewKey ns nm = Inr k"
  shows "wf_Key k"
proof -
  from assms have ns: "validSegment ns" and nm: "validSegment nm"
    and len: "length ns + length nm < MaxKeyBytes" and k: "key_String k = ns @ ''/'' @ nm"
    by (simp_all add: NewKey_Inr)
  from ns nm have ne: "ns \<noteq> []" "nm \<noteq> []" by (auto simp: validSegment_def)
  have "butlast (tl (key_String k)) = tl ns @ ''/'' @ butlast nm"
    using ne k by (cases ns) (simp_all add: butlast_append)
  with ns nm len k validSegment_split [OF ne] show ?thesis
    by (simp add: wf_Key_def)
qed

lemma ParseKey_wf: "ParseKey v = Inr k \<Longrightarrow> wf_Key k"
  by (auto simp: ParseKey_def intro: NewKey_wf split: prod.splits if_splits)



end
