(* ===== verification/Lease_Record.thy ===== *)
theory Lease_Record
  imports Lease_Key Lease_Policy
begin

text \<open>\<^verbatim>\<open>record.go\<close> and \<^verbatim>\<open>backend.go\<close>: lease records, fencing tokens and the backend interface.\<close>

section \<open>Records\<close>

type_synonym Token = uint64

record Record =
  rec_Key :: Key
  rec_Owner :: string
  rec_Token :: Token
  rec_AcquiredAt :: instant
  rec_ExpiresAt :: instant

definition zero_Record :: Record where
  "zero_Record = \<lparr>rec_Key = zero_Key, rec_Owner = '''', rec_Token = 0,
     rec_AcquiredAt = 0, rec_ExpiresAt = 0\<rparr>"

definition SafeDeadline :: "Record \<Rightarrow> duration \<Rightarrow> instant" where
  "SafeDeadline record0 margin = time_Add (rec_ExpiresAt record0) (- margin)"

definition UsableAt :: "Record \<Rightarrow> instant \<Rightarrow> duration \<Rightarrow> bool" where
  "UsableAt record0 now margin \<longleftrightarrow> now < SafeDeadline record0 margin"

end
