(* ===== verification/Lease_Backend.thy ===== *)
theory Lease_Backend
  imports Lease_Record
begin

text \<open>
  \<^verbatim>\<open>backend.go\<close>: the interface every backend implements, the abstract per-key state machine
  of \<^verbatim>\<open>docs/state-machine.md\<close>, and the contract between the two as the locale
  \<open>lease_backend\<close>. The consequences of the contract over whole call sequences (increasing
  fences, protection of a successor, exclusion until expiry) are proved once here and
  reach each backend through its interpretation.
\<close>

section \<open>The interface\<close>

text \<open>
  The Go interface \<^verbatim>\<open>Backend\<close> as a record of operations. \<open>'s\<close> is the state the backend
  owns; \<open>'e\<close> is what one call meets outside that state: the caller's context, the
  readings of the backend's clock and, for a remote backend, the fate of the exchange.
\<close>

record ('e, 's) Backend =
  be_TryAcquire :: "'e \<Rightarrow> Key \<Rightarrow> string \<Rightarrow> duration \<Rightarrow> 's \<Rightarrow> Record result \<times> 's"
  be_Renew :: "'e \<Rightarrow> Record \<Rightarrow> duration \<Rightarrow> 's \<Rightarrow> Record result \<times> 's"
  be_Validate :: "'e \<Rightarrow> Record \<Rightarrow> 's \<Rightarrow> Record result \<times> 's"
  be_Release :: "'e \<Rightarrow> Record \<Rightarrow> 's \<Rightarrow> gerror option \<times> 's"

datatype call =
    CallAcquire Key string duration
  | CallRenew Record duration
  | CallValidate Record
  | CallRelease Record

datatype reply = Got Record | Done | Failed gerror

fun reply_of :: "Record result \<Rightarrow> reply" where
  "reply_of (Inl err) = Failed err"
| "reply_of (Inr r) = Got r"

fun reply_of_error :: "gerror option \<Rightarrow> reply" where
  "reply_of_error None = Done"
| "reply_of_error (Some err) = Failed err"

lemma reply_of_inv [simp]:
  "reply_of x = Got r \<longleftrightarrow> x = Inr r" "reply_of x = Failed err \<longleftrightarrow> x = Inl err" "reply_of x \<noteq> Done"
  "reply_of_error y = Done \<longleftrightarrow> y = None" "reply_of_error y = Failed err \<longleftrightarrow> y = Some err" "reply_of_error y \<noteq> Got r"
  by (cases x; simp; fail)+ (cases y; simp; fail)+

lemma map_prod_eq: "map_prod f id p = (a, b) \<longleftrightarrow> (\<exists>x. p = (x, b) \<and> f x = a)"
  by (cases p) auto

fun call_key :: "call \<Rightarrow> Key" where
  "call_key (CallAcquire k ow ttl) = k"
| "call_key (CallRenew r ttl) = rec_Key r"
| "call_key (CallValidate r) = rec_Key r"
| "call_key (CallRelease r) = rec_Key r"

fun backend_call :: "('e, 's) Backend \<Rightarrow> 'e \<Rightarrow> call \<Rightarrow> 's \<Rightarrow> reply \<times> 's" where
  "backend_call B e (CallAcquire k ow ttl) s = map_prod reply_of id (be_TryAcquire B e k ow ttl s)"
| "backend_call B e (CallRenew r ttl) s = map_prod reply_of id (be_Renew B e r ttl s)"
| "backend_call B e (CallValidate r) s = map_prod reply_of id (be_Validate B e r s)"
| "backend_call B e (CallRelease r) s = map_prod reply_of_error id (be_Release B e r s)"

text \<open>
  What happens to one exchange with a remote backend: the request is lost, the reply is
  lost after the request took effect, or both arrive. Errors of the transport and of the
  remote server do not contain this program's sentinels.
\<close>

datatype fate = Delivered | LostRequest gerror | LostReply gerror

definition foreign_error :: "gerror \<Rightarrow> bool" where
  "foreign_error err \<longleftrightarrow> (\<forall>x. \<not> errors_Is err (Sentinel x))"

lemma foreign_Opaque [simp]: "foreign_error (Opaque m [])"
  by (simp add: foreign_error_def)

text \<open>A sequence of calls by any number of clients, in the order the backend serves them.\<close>

fun backend_run :: "('e, 's) Backend \<Rightarrow> ('e \<times> call) list \<Rightarrow> 's \<Rightarrow> ('e \<times> call \<times> reply) list \<times> 's" where
  "backend_run B [] s = ([], s)"
| "backend_run B ((e, c) # cs) s =
     (case backend_call B e c s of
        (rep, s1) \<Rightarrow> (case backend_run B cs s1 of (tr, s2) \<Rightarrow> ((e, c, rep) # tr, s2)))"

text \<open>The fences handed out for the keys that satisfy \<open>P\<close>, in order.\<close>

fun acquired_tokens :: "(Key \<Rightarrow> bool) \<Rightarrow> ('e \<times> call \<times> reply) list \<Rightarrow> nat list" where
  "acquired_tokens P [] = []"
| "acquired_tokens P ((e, CallAcquire k ow ttl, Got r) # tr) =
     (if P k then unat (rec_Token r) # acquired_tokens P tr else acquired_tokens P tr)"
| "acquired_tokens P (_ # tr) = acquired_tokens P tr"

lemma acquired_tokens_skip:
  "\<not> (\<exists>k ow ttl r. c = CallAcquire k ow ttl \<and> rep = Got r \<and> P k) \<Longrightarrow>
   acquired_tokens P ((e, c, rep) # tr) = acquired_tokens P tr"
  by (cases c; cases rep) simp_all

section \<open>The abstract state machine of one identity\<close>

text \<open>
  \<^verbatim>\<open>docs/state-machine.md\<close>, "Authoritative backend and successor". A view is the retained
  fence history and, for every instant, the owner and token that hold the lease then if
  nothing else happens: \<^verbatim>\<open>vacant(F)\<close> is \<open>(F, \<lambda>_. None)\<close> and \<^verbatim>\<open>owned(F, O, T, E)\<close> maps the
  instants before \<open>E\<close> to \<open>(O, T)\<close>. A step starts at \<open>t0\<close> and ends at \<open>t1\<close> on the backend's
  clock. An acquisition that does not install an owner may still use up fences.
\<close>

type_synonym holder = "string \<times> Token"
type_synonym view = "nat \<times> (instant \<Rightarrow> holder option)"

definition only_holder :: "holder \<Rightarrow> (instant \<Rightarrow> holder option) \<Rightarrow> bool" where
  "only_holder h L \<longleftrightarrow> (\<forall>t. L t = None \<or> L t = Some h)"

inductive spec_step :: "instant \<Rightarrow> instant \<Rightarrow> call \<Rightarrow> view \<Rightarrow> view \<Rightarrow> bool" where
  unchanged: "spec_step t0 t1 c v v"
| burn: "F \<le> F' \<Longrightarrow> spec_step t0 t1 (CallAcquire k ow ttl) (F, L) (F', L)"
| install: "L t1 = None \<Longrightarrow> F < unat tok \<Longrightarrow> only_holder (ow, tok) L' \<Longrightarrow>
     spec_step t0 t1 (CallAcquire k ow ttl) (F, L) (unat tok, L')"
| extend: "L t0 = Some (rec_Owner r, rec_Token r) \<Longrightarrow>
     only_holder (rec_Owner r, rec_Token r) L' \<Longrightarrow>
     spec_step t0 t1 (CallRenew r ttl) (F, L) (F, L')"
| vacate: "only_holder (rec_Owner r, rec_Token r) L \<Longrightarrow>
     spec_step t0 t1 (CallRelease r) (F, L) (F, \<lambda>_. None)"

inductive_cases spec_acquireE: "spec_step t0 t1 (CallAcquire k ow ttl) v v'"
inductive_cases spec_renewE: "spec_step t0 t1 (CallRenew r ttl) v v'"
inductive_cases spec_validateE: "spec_step t0 t1 (CallValidate r) v v'"
inductive_cases spec_releaseE: "spec_step t0 t1 (CallRelease r) v v'"

lemma spec_step_fence_mono: "spec_step t0 t1 c v v' \<Longrightarrow> fst v \<le> fst v'"
  by (induction rule: spec_step.induct) auto

text \<open>
  Every holder's token is at least \<open>n\<close>. Once a fence \<open>n\<close> has been reached, this is kept
  for ever: nothing reinstates an older owner.
\<close>

definition holders_from :: "nat \<Rightarrow> view \<Rightarrow> bool" where
  "holders_from n v \<longleftrightarrow> n \<le> fst v \<and> (\<forall>t ow tok. snd v t = Some (ow, tok) \<longrightarrow> n \<le> unat tok)"

lemma holders_fromD: "holders_from n v \<Longrightarrow> snd v t = Some (ow, tok) \<Longrightarrow> n \<le> unat tok"
  by (auto simp: holders_from_def)

text \<open>The calls by which a holder itself changes how long it holds the lease.\<close>

fun call_by :: "holder \<Rightarrow> call \<Rightarrow> bool" where
  "call_by h (CallRenew r ttl) \<longleftrightarrow> h = (rec_Owner r, rec_Token r)"
| "call_by h (CallRelease r) \<longleftrightarrow> h = (rec_Owner r, rec_Token r)"
| "call_by h _ \<longleftrightarrow> False"

lemma only_holderD: "only_holder h L \<Longrightarrow> L t = Some h' \<Longrightarrow> h' = h"
  by (metis only_holder_def option.distinct(1) option.inject)

lemma spec_step_holders_from:
  "spec_step t0 t1 c v v' \<Longrightarrow> holders_from n v \<Longrightarrow> holders_from n v'"
proof (induction rule: spec_step.induct)
  case (install L t1 F tok ow L' t0 k ttl)
  then show ?case by (auto simp: holders_from_def dest!: only_holderD)
next
  case (extend L t0 r L' t1 ttl F)
  then show ?case by (auto simp: holders_from_def dest!: only_holderD)
qed (auto simp: holders_from_def)

section \<open>The contract\<close>

text \<open>
  What a backend promises. \<open>ident\<close> is the identity the backend derives from a key (two
  keys with the same identity share one lease), \<open>live s t i\<close> the holder of identity \<open>i\<close> at
  instant \<open>t\<close> in state \<open>s\<close>, and \<open>fence s i\<close> the retained fence. \<open>begins\<close> and \<open>ends\<close> bound
  the clock readings a call makes; \<open>env_ok\<close> collects what the call's environment must
  satisfy.
\<close>

locale lease_safety =
  fixes B :: "('e, 's) Backend"
    and invar :: "'s \<Rightarrow> bool"
    and ident :: "Key \<Rightarrow> 'i"
    and live :: "'s \<Rightarrow> instant \<Rightarrow> 'i \<Rightarrow> holder option"
    and fence :: "'s \<Rightarrow> 'i \<Rightarrow> nat"
    and begins :: "'e \<Rightarrow> instant"
    and ends :: "'e \<Rightarrow> instant"
    and env_ok :: "'e \<Rightarrow> bool"
  assumes begins_ends: "env_ok e \<Longrightarrow> begins e \<le> ends e"
    and invar_call: "env_ok e \<Longrightarrow> invar s \<Longrightarrow> backend_call B e c s = (rep, s') \<Longrightarrow> invar s'"
    and simulates: "env_ok e \<Longrightarrow> invar s \<Longrightarrow> backend_call B e c s = (rep, s') \<Longrightarrow>
      spec_step (begins e) (ends e) c
        (fence s (ident (call_key c)), \<lambda>t. live s t (ident (call_key c)))
        (fence s' (ident (call_key c)), \<lambda>t. live s' t (ident (call_key c)))"
    and frame: "env_ok e \<Longrightarrow> invar s \<Longrightarrow> backend_call B e c s = (rep, s') \<Longrightarrow>
      i \<noteq> ident (call_key c) \<Longrightarrow> fence s' i = fence s i \<and> live s' t i = live s t i"
    and live_fence: "invar s \<Longrightarrow> live s t i = Some (ow, tok) \<Longrightarrow> unat tok \<le> fence s i"
    and live_expires: "invar s \<Longrightarrow> live s t' i = Some h \<Longrightarrow> t \<le> t' \<Longrightarrow> live s t i = Some h"
    and acquire_got: "env_ok e \<Longrightarrow> invar s \<Longrightarrow>
      backend_call B e (CallAcquire k ow ttl) s = (Got r, s') \<Longrightarrow>
      rec_Key r = k \<and> rec_Owner r = ow \<and> rec_AcquiredAt r < rec_ExpiresAt r \<and>
      fence s (ident k) < unat (rec_Token r) \<and> fence s' (ident k) = unat (rec_Token r) \<and>
      live s (ends e) (ident k) = None \<and>
      (\<forall>t < rec_ExpiresAt r. live s' t (ident k) = Some (ow, rec_Token r))"
    and acquire_failed: "env_ok e \<Longrightarrow> invar s \<Longrightarrow>
      backend_call B e (CallAcquire k ow ttl) s = (Failed err, s') \<Longrightarrow>
      \<not> errors_Is err (Sentinel ErrAmbiguousOutcome) \<Longrightarrow> live s' t i = live s t i"
    and renew_got: "env_ok e \<Longrightarrow> invar s \<Longrightarrow>
      backend_call B e (CallRenew r ttl) s = (Got r', s') \<Longrightarrow>
      live s (begins e) (ident (rec_Key r)) = Some (rec_Owner r, rec_Token r) \<and>
      rec_Key r' = rec_Key r \<and> rec_Owner r' = rec_Owner r \<and> rec_Token r' = rec_Token r \<and>
      (\<forall>t < rec_ExpiresAt r'. live s' t (ident (rec_Key r)) = Some (rec_Owner r, rec_Token r))"
begin

lemma fence_mono:
  "env_ok e \<Longrightarrow> invar s \<Longrightarrow> backend_call B e c s = (rep, s') \<Longrightarrow> fence s i \<le> fence s' i"
  using spec_step_fence_mono [OF simulates, of e s c rep s'] frame [of e s c rep s' i]
  by (cases "i = ident (call_key c)") simp_all

text \<open>Induction over a run, with the invariant and the environment condition carried along.\<close>

lemma run_induct [consumes 3, case_names Nil Cons]:
  assumes "backend_run B cs s = (tr, s')" and "invar s" and "\<forall>(e, c) \<in> set cs. env_ok e"
    and "\<And>s. invar s \<Longrightarrow> P s [] s"
    and "\<And>e c rep s s1 tr s'. env_ok e \<Longrightarrow> invar s \<Longrightarrow> backend_call B e c s = (rep, s1) \<Longrightarrow>
      invar s1 \<Longrightarrow> P s1 tr s' \<Longrightarrow> P s ((e, c, rep) # tr) s'"
  shows "P s tr s'"
  using assms(1-3)
proof (induction cs arbitrary: s tr)
  case Nil
  then show ?case using assms(4) by simp
next
  case (Cons ec cs)
  obtain e c where ec: "ec = (e, c)" by (cases ec)
  obtain rep s1 where step: "backend_call B e c s = (rep, s1)" by fastforce
  obtain tr1 where rest: "backend_run B cs s1 = (tr1, s')" and tr: "tr = (e, c, rep) # tr1"
    using Cons.prems(1) ec step by (auto split: prod.splits)
  have ok: "env_ok e" using Cons.prems(3) ec by simp
  have inv1: "invar s1" using invar_call [OF ok Cons.prems(2) step] .
  have "P s1 tr1 s'" using Cons.IH [OF rest inv1] Cons.prems(3) by simp
  then show ?case unfolding tr using assms(5) [OF ok Cons.prems(2) step inv1] by blast
qed

lemma run_invar:
  "backend_run B cs s = (tr, s') \<Longrightarrow> invar s \<Longrightarrow> \<forall>(e, c) \<in> set cs. env_ok e \<Longrightarrow> invar s'"
  by (induction rule: run_induct) auto

lemma run_fence_mono:
  "backend_run B cs s = (tr, s') \<Longrightarrow> invar s \<Longrightarrow> \<forall>(e, c) \<in> set cs. env_ok e \<Longrightarrow> fence s i \<le> fence s' i"
proof (induction rule: run_induct)
  case (Cons e c rep s s1 tr s')
  then show ?case using fence_mono [OF Cons(1-3), of i] by simp
qed simp

text \<open>
  Fences: within any sequence of calls the tokens handed out for one identity are
  strictly increasing, and all above the fence the sequence started from.
\<close>

lemma run_tokens_increase:
  "backend_run B cs s = (tr, s') \<Longrightarrow> invar s \<Longrightarrow> \<forall>(e, c) \<in> set cs. env_ok e \<Longrightarrow>
   sorted_wrt (<) (fence s i # acquired_tokens (\<lambda>k. ident k = i) tr)"
proof (induction rule: run_induct)
  case (Nil s)
  then show ?case by simp
next
  case (Cons e c rep s s1 tr s')
  have mono: "fence s i \<le> fence s1 i" using fence_mono [OF Cons(1-3)] .
  show ?case
  proof (cases "\<exists>k ow ttl r. c = CallAcquire k ow ttl \<and> rep = Got r \<and> ident k = i")
    case True
    then obtain k ow ttl r where c: "c = CallAcquire k ow ttl" and rep: "rep = Got r" and i: "ident k = i"
      by blast
    have "fence s i < unat (rec_Token r)" "fence s1 i = unat (rec_Token r)"
      using acquire_got [OF Cons(1,2) Cons(3) [unfolded c rep]] i by auto
    with Cons.IH c rep i show ?thesis by auto
  next
    case False
    then have "acquired_tokens (\<lambda>k. ident k = i) ((e, c, rep) # tr) = acquired_tokens (\<lambda>k. ident k = i) tr"
      by (rule acquired_tokens_skip)
    with Cons.IH mono show ?thesis by fastforce
  qed
qed

text \<open>
  Successor protection: once the fence of an identity is beyond the token of \<open>r\<close> and no
  holder older than that fence is left, \<open>r\<close> is never renewed or validated again and its
  release changes nothing, however the calls are interleaved.
\<close>

lemma call_holders_from:
  assumes "env_ok e" "invar s" "backend_call B e c s = (rep, s1)"
    and "holders_from n (fence s i, \<lambda>t. live s t i)"
  shows "holders_from n (fence s1 i, \<lambda>t. live s1 t i)"
proof (cases "i = ident (call_key c)")
  case True
  with assms(4) spec_step_holders_from [OF simulates [OF assms(1-3)]] show ?thesis by simp
next
  case False
  with assms(4) frame [OF assms(1-3), of i] show ?thesis by simp
qed

lemma run_holders_from:
  "backend_run B cs s = (tr, s') \<Longrightarrow> invar s \<Longrightarrow> \<forall>(e, c) \<in> set cs. env_ok e \<Longrightarrow>
   holders_from n (fence s i, \<lambda>t. live s t i) \<longrightarrow> holders_from n (fence s' i, \<lambda>t. live s' t i)"
proof (induction rule: run_induct)
  case (Nil s)
  then show ?case by simp
next
  case (Cons e c rep s s1 tr s')
  with call_holders_from [OF Cons(1-3), of n i] show ?case by blast
qed

lemma acquired_holders_from:
  assumes "env_ok e" "invar s" "backend_call B e (CallAcquire k ow ttl) s = (Got r, s1)"
  shows "holders_from (unat (rec_Token r)) (fence s1 (ident k), \<lambda>t. live s1 t (ident k))"
proof -
  note got = acquire_got [OF assms]
  have kept: "live s1 (rec_ExpiresAt r - 1) (ident k) = Some (ow, rec_Token r)"
    using got by simp
  have "\<not> unat (rec_Token r) \<le> fence s (ident k)" using got by simp
  then have fresh: "live s (rec_ExpiresAt r - 1) (ident k) \<noteq> Some (ow, rec_Token r)"
    using live_fence [OF assms(2)] by blast
  have "spec_step (begins e) (ends e) (CallAcquire k ow ttl)
      (fence s (ident k), \<lambda>t. live s t (ident k)) (fence s1 (ident k), \<lambda>t. live s1 t (ident k))"
    using simulates [OF assms] by simp
  then have "only_holder (ow, rec_Token r) (\<lambda>t. live s1 t (ident k))"
  proof (rule spec_acquireE, goal_cases)
    case 1
    with fresh kept show ?case by (metis prod.inject)
  next
    case (2 F F' L)
    with fresh kept show ?case by (metis prod.inject)
  next
    case (3 L F tok L')
    with got have "tok = rec_Token r" by (metis prod.inject unat_arith_simps(3))
    with 3 show ?case by simp
  qed
  with got show ?thesis by (auto simp: holders_from_def dest!: only_holderD)
qed

lemma older_not_live:
  assumes "holders_from n (fence s (ident (rec_Key r)), \<lambda>t. live s t (ident (rec_Key r)))"
    and "unat (rec_Token r) < n"
  shows "live s t (ident (rec_Key r)) \<noteq> Some (rec_Owner r, rec_Token r)"
  using holders_fromD [OF assms(1), of t "rec_Owner r" "rec_Token r"] assms(2) by auto

lemma stale_renew_refused:
  assumes "holders_from n (fence s (ident (rec_Key r)), \<lambda>t. live s t (ident (rec_Key r)))"
    and "unat (rec_Token r) < n" and "env_ok e" and "invar s"
  shows "backend_call B e (CallRenew r ttl) s \<noteq> (Got r', s')"
  using renew_got [OF assms(3,4), of r ttl r' s'] older_not_live [OF assms(1,2), of "begins e"]
  by blast

lemma stale_release_harmless:
  assumes from_n: "holders_from n (fence s (ident (rec_Key r)), \<lambda>t. live s t (ident (rec_Key r)))"
    and older: "unat (rec_Token r) < n" and "env_ok e" and "invar s"
    and step: "backend_call B e (CallRelease r) s = (rep, s')"
  shows "live s' t i = live s t i \<and> fence s' i = fence s i"
proof (cases "i = ident (rec_Key r)")
  case True
  note none = older_not_live [OF from_n older]
  from simulates [OF assms(3,4) step]
  have "(fence s' i, \<lambda>t. live s' t i) = (fence s i, \<lambda>t. live s t i)"
  proof (rule spec_releaseE, goal_cases)
    case 1
    with True show ?case by simp
  next
    case (2 L F)
    then have "live s t i = None" for t
      using none [of t] True by (metis only_holder_def prod.inject call_key.simps(4))
    with 2 True show ?case by auto
  qed
  then show ?thesis by (metis prod.inject)
next
  case False
  with frame [OF assms(3,4) step, of i t] show ?thesis by simp
qed

text \<open>
  Exclusion: while every call ends before \<open>E\<close>, a holder whose lease lasts until \<open>E\<close> keeps
  it, and no acquisition succeeds, unless that holder itself renews or releases.
\<close>

lemma call_keeps_holder:
  assumes "env_ok e" "invar s" and step: "backend_call B e c s = (rep, s1)"
    and held: "\<forall>t < E. live s t i = Some h" and "ends e < E"
    and foreign: "\<not> call_by h c \<or> ident (call_key c) \<noteq> i"
  shows "\<forall>t < E. live s1 t i = Some h"
    and "ident (call_key c) = i \<Longrightarrow> c = CallAcquire k ow ttl \<Longrightarrow> rep \<noteq> Got r"
proof -
  have at: "live s (begins e) i = Some h" "live s (ends e) i = Some h" "live s (E - 1) i = Some h"
    using held \<open>ends e < E\<close> begins_ends [OF assms(1)] by auto
  show "\<forall>t < E. live s1 t i = Some h"
  proof (cases "ident (call_key c) = i")
    case True
    with foreign have "\<not> call_by h c" by simp
    from simulates [OF assms(1-3)] have "(\<lambda>t. live s1 t i) = (\<lambda>t. live s t i)"
      unfolding True using at \<open>\<not> call_by h c\<close>
      by cases (auto simp: fun_eq_iff dest: only_holderD)
    with held show ?thesis by metis
  next
    case False
    with held frame [OF assms(1-3), of i] show ?thesis by metis
  qed
  show "rep \<noteq> Got r" if "ident (call_key c) = i" "c = CallAcquire k ow ttl"
    using acquire_got [OF assms(1,2), of k ow ttl r s1] step at that by auto
qed

lemma run_exclusive:
  "backend_run B cs s = (tr, s') \<Longrightarrow> invar s \<Longrightarrow> \<forall>(e, c) \<in> set cs. env_ok e \<Longrightarrow>
   (\<forall>t < E. live s t i = Some h) \<longrightarrow>
   (\<forall>(e, c, rep) \<in> set tr. ends e < E \<and> \<not> (call_by h c \<and> ident (call_key c) = i)) \<longrightarrow>
   (\<forall>t < E. live s' t i = Some h) \<and> acquired_tokens (\<lambda>k. ident k = i) tr = []"
proof (induction rule: run_induct)
  case (Nil s)
  then show ?case by simp
next
  case (Cons e c rep s s1 tr s')
  show ?case
  proof (intro impI)
    assume held: "\<forall>t < E. live s t i = Some h"
      and calls: "\<forall>(e', c', rep') \<in> set ((e, c, rep) # tr).
        ends e' < E \<and> \<not> (call_by h c' \<and> ident (call_key c') = i)"
    have now: "ends e < E" "\<not> call_by h c \<or> ident (call_key c) \<noteq> i" using calls by auto
    note keep = call_keeps_holder [OF Cons(1-3) held now]
    have "\<not> (\<exists>k ow ttl r. c = CallAcquire k ow ttl \<and> rep = Got r \<and> ident k = i)"
      using keep(2) by fastforce
    then have "acquired_tokens (\<lambda>k. ident k = i) ((e, c, rep) # tr) = acquired_tokens (\<lambda>k. ident k = i) tr"
      by (rule acquired_tokens_skip)
    with Cons.IH keep(1) calls
    show "(\<forall>t < E. live s' t i = Some h) \<and> acquired_tokens (\<lambda>k. ident k = i) ((e, c, rep) # tr) = []"
      by simp
  qed
qed

lemma holders_after:
  assumes "env_ok e1" "invar s" "backend_call B e1 (CallAcquire k ow ttl) s = (Got r2, s1)"
    and "backend_run B cs s1 = (tr, s2)" "\<forall>(e, c) \<in> set cs. env_ok e"
    and "ident (rec_Key r1) = ident k"
  shows "holders_from (unat (rec_Token r2))
    (fence s2 (ident (rec_Key r1)), \<lambda>t. live s2 t (ident (rec_Key r1)))"
  using run_holders_from [OF assms(4) invar_call [OF assms(1-3)] assms(5)]
    acquired_holders_from [OF assms(1-3)] assms(6) by simp

text \<open>The two guarantees from a successful acquisition on, in the form the backends state them.\<close>

lemma successor_kept:
  assumes "env_ok e1" "invar s" and got: "backend_call B e1 (CallAcquire k ow ttl) s = (Got r2, s1)"
    and run: "backend_run B cs s1 = (tr, s2)" "\<forall>(e, c) \<in> set cs. env_ok e"
    and same: "ident (rec_Key r1) = ident k" and older: "unat (rec_Token r1) < unat (rec_Token r2)"
    and "env_ok e"
  shows "fst (be_Renew B e r1 ttl' s2) \<noteq> Inr r' \<and>
    live (snd (be_Release B e r1 s2)) t i = live s2 t i \<and>
    fence (snd (be_Release B e r1 s2)) i = fence s2 i"
proof -
  have inv2: "invar s2" using run_invar [OF run(1) invar_call [OF assms(1-3)] run(2)] .
  note facts = holders_after [OF assms(1-6)] older \<open>env_ok e\<close> inv2
  have "fst (be_Renew B e r1 ttl' s2) \<noteq> Inr r'"
    using stale_renew_refused [OF facts, of ttl' r' "snd (be_Renew B e r1 ttl' s2)"]
    by (auto simp: map_prod_eq prod_eq_iff)
  moreover have "live (snd (be_Release B e r1 s2)) t i = live s2 t i \<and>
      fence (snd (be_Release B e r1 s2)) i = fence s2 i"
    using stale_release_harmless [OF facts, of "reply_of_error (fst (be_Release B e r1 s2))"
        "snd (be_Release B e r1 s2)" t i]
    by (simp add: map_prod_def prod.case_eq_if)
  ultimately show ?thesis by blast
qed

lemma exclusive_until_expiry:
  assumes "env_ok e1" "invar s" and got: "backend_call B e1 (CallAcquire k ow ttl) s = (Got r, s1)"
    and run: "backend_run B cs s1 = (tr, s2)" "\<forall>(e, c) \<in> set cs. env_ok e"
    and calls: "\<forall>(e, c, rep) \<in> set tr. ends e < rec_ExpiresAt r \<and>
      \<not> (call_by (ow, rec_Token r) c \<and> ident (call_key c) = ident k)"
  shows "acquired_tokens (\<lambda>k'. ident k' = ident k) tr = [] \<and>
    (\<forall>t < rec_ExpiresAt r. live s2 t (ident k) = Some (ow, rec_Token r))"
proof -
  have inv1: "invar s1" using invar_call [OF assms(1-3)] .
  have "\<forall>t < rec_ExpiresAt r. live s1 t (ident k) = Some (ow, rec_Token r)"
    using acquire_got [OF assms(1-3)] by simp
  then show ?thesis using run_exclusive [OF run(1) inv1 run(2)] calls by blast
qed

end

text \<open>
  The full contract adds what the replies of a backend say about its state when no other
  statement overlaps the call.
\<close>

locale lease_backend = lease_safety +
  assumes acquire_contended: "env_ok e \<Longrightarrow> invar s \<Longrightarrow>
      backend_call B e (CallAcquire k ow ttl) s = (Failed err, s') \<Longrightarrow>
      errors_Is err (Sentinel ErrContended) \<Longrightarrow> live s (begins e) (ident k) \<noteq> None"
    and validate_got: "env_ok e \<Longrightarrow> invar s \<Longrightarrow>
      backend_call B e (CallValidate r) s = (Got r', s') \<Longrightarrow>
      live s (begins e) (ident (rec_Key r)) = Some (rec_Owner r, rec_Token r) \<and>
      rec_Key r' = rec_Key r \<and> rec_Owner r' = rec_Owner r \<and> rec_Token r' = rec_Token r"
    and refused_stale: "env_ok e \<Longrightarrow> invar s \<Longrightarrow>
      backend_call B e c s = (Failed err, s') \<Longrightarrow> errors_Is err (Sentinel ErrStaleOwner) \<Longrightarrow>
      c = CallRenew r ttl \<or> c = CallValidate r \<Longrightarrow>
      live s (ends e) (ident (rec_Key r)) \<noteq> Some (rec_Owner r, rec_Token r)"
    and release_done: "env_ok e \<Longrightarrow> invar s \<Longrightarrow>
      backend_call B e (CallRelease r) s = (Done, s') \<Longrightarrow> ends e \<le> t \<Longrightarrow>
      live s' t (ident (rec_Key r)) \<noteq> Some (rec_Owner r, rec_Token r)"
begin

lemma stale_validate_refused:
  assumes "holders_from n (fence s (ident (rec_Key r)), \<lambda>t. live s t (ident (rec_Key r)))"
    and "unat (rec_Token r) < n" and "env_ok e" and "invar s"
  shows "backend_call B e (CallValidate r) s \<noteq> (Got r', s')"
  using validate_got [OF assms(3,4), of r r' s'] older_not_live [OF assms(1,2), of "begins e"]
  by blast

lemma successor_protected:
  assumes "env_ok e1" "invar s" and got: "backend_call B e1 (CallAcquire k ow ttl) s = (Got r2, s1)"
    and run: "backend_run B cs s1 = (tr, s2)" "\<forall>(e, c) \<in> set cs. env_ok e"
    and same: "ident (rec_Key r1) = ident k" and older: "unat (rec_Token r1) < unat (rec_Token r2)"
    and "env_ok e"
  shows "fst (be_Renew B e r1 ttl' s2) \<noteq> Inr r' \<and> fst (be_Validate B e r1 s2) \<noteq> Inr r' \<and>
    live (snd (be_Release B e r1 s2)) t i = live s2 t i \<and>
    fence (snd (be_Release B e r1 s2)) i = fence s2 i"
proof -
  have inv2: "invar s2" using run_invar [OF run(1) invar_call [OF assms(1-3)] run(2)] .
  have "fst (be_Validate B e r1 s2) \<noteq> Inr r'"
    using stale_validate_refused [OF holders_after [OF assms(1-6)] older \<open>env_ok e\<close> inv2, of r'
        "snd (be_Validate B e r1 s2)"]
    by (auto simp: map_prod_eq prod_eq_iff)
  with successor_kept [OF assms] show ?thesis by blast
qed

end

text \<open>
  The progress contract adds what a backend does for a call that meets no obstacle: the
  exchange is delivered under a usable context and overlaps no other (\<open>calm\<close>), the input is
  accepted (\<open>input_ok\<close>), and there is room for as many further acquisitions of the key
  (\<open>room\<close>). A lease granted by such a call lasts at least until \<open>lasts\<close> and is over at
  \<open>gone\<close>. \<open>settled s t i\<close> says that the times stored for an identity are consistent with a
  call at \<open>t\<close>, which a clock that runs backwards can spoil.
\<close>

locale lease_progress = lease_backend +
  fixes calm :: "'a \<Rightarrow> bool"
    and input_ok :: "Key \<Rightarrow> string \<Rightarrow> Token \<Rightarrow> duration \<Rightarrow> bool"
    and room :: "nat \<Rightarrow> 'b \<Rightarrow> Key \<Rightarrow> bool"
    and settled :: "'b \<Rightarrow> instant \<Rightarrow> 'c \<Rightarrow> bool"
    and lasts :: "'a \<Rightarrow> duration \<Rightarrow> instant"
    and gone :: "'a \<Rightarrow> duration \<Rightarrow> instant"
  assumes calm_ok: "calm e \<Longrightarrow> env_ok e"
    and input_token: "invar s \<Longrightarrow> input_ok k ow 1 ttl \<Longrightarrow> 0 < unat tok \<Longrightarrow> unat tok \<le> fence s (ident k) \<Longrightarrow>
      input_ok k ow tok ttl"
    and settled_mono: "settled s t i \<Longrightarrow> t \<le> t' \<Longrightarrow> settled s t' i"
    and acquire_vacant: "calm e \<Longrightarrow> invar s \<Longrightarrow> input_ok k ow 1 ttl \<Longrightarrow> room (Suc n) s k \<Longrightarrow>
      live s (begins e) (ident k) = None \<Longrightarrow>
      \<exists>r s'. be_TryAcquire B e k ow ttl s = (Inr r, s') \<and> room n s' k \<and> settled s' (ends e) (ident k) \<and>
        (\<forall>t < lasts e ttl. live s' t (ident k) = Some (ow, rec_Token r)) \<and>
        (\<forall>t \<ge> gone e ttl. live s' t (ident k) = None)"
    and acquire_held: "calm e \<Longrightarrow> invar s \<Longrightarrow> input_ok k ow 1 ttl \<Longrightarrow> room (Suc n) s k \<Longrightarrow>
      live s (ends e) (ident k) \<noteq> None \<Longrightarrow>
      \<exists>err s'. be_TryAcquire B e k ow ttl s = (Inl err, s') \<and> errors_Is err (Sentinel ErrContended) \<and>
        room n s' k \<and> (\<forall>t i. live s' t i = live s t i) \<and> (\<forall>t i. settled s' t i = settled s t i)"
    and renew_live: "calm e \<Longrightarrow> invar s \<Longrightarrow> input_ok (rec_Key r) (rec_Owner r) (rec_Token r) ttl \<Longrightarrow>
      live s (ends e) (ident (rec_Key r)) = Some (rec_Owner r, rec_Token r) \<Longrightarrow>
      settled s (begins e) (ident (rec_Key r)) \<Longrightarrow>
      \<exists>r' s'. be_Renew B e r ttl s = (Inr r', s') \<and> settled s' (ends e) (ident (rec_Key r)) \<and>
        (\<forall>n. room n s (rec_Key r) \<longrightarrow> room n s' (rec_Key r)) \<and>
        (\<forall>t < lasts e ttl. live s' t (ident (rec_Key r)) = Some (rec_Owner r, rec_Token r)) \<and>
        (\<forall>t \<ge> gone e ttl. live s' t (ident (rec_Key r)) = None)"
    and renew_lost: "calm e \<Longrightarrow> invar s \<Longrightarrow> input_ok (rec_Key r) (rec_Owner r) (rec_Token r) ttl \<Longrightarrow>
      live s (begins e) (ident (rec_Key r)) \<noteq> Some (rec_Owner r, rec_Token r) \<Longrightarrow>
      \<exists>err. be_Renew B e r ttl s = (Inl err, s) \<and> errors_Is err (Sentinel ErrStaleOwner)"
    and validate_live: "calm e \<Longrightarrow> invar s \<Longrightarrow> input_ok (rec_Key r) (rec_Owner r) (rec_Token r) Millisecond \<Longrightarrow>
      live s (ends e) (ident (rec_Key r)) = Some (rec_Owner r, rec_Token r) \<Longrightarrow>
      settled s (begins e) (ident (rec_Key r)) \<Longrightarrow> \<exists>r'. be_Validate B e r s = (Inr r', s)"
    and validate_lost: "calm e \<Longrightarrow> invar s \<Longrightarrow> input_ok (rec_Key r) (rec_Owner r) (rec_Token r) Millisecond \<Longrightarrow>
      live s (begins e) (ident (rec_Key r)) \<noteq> Some (rec_Owner r, rec_Token r) \<Longrightarrow>
      \<exists>err. be_Validate B e r s = (Inl err, s) \<and> errors_Is err (Sentinel ErrStaleOwner)"
    and release_live: "calm e \<Longrightarrow> invar s \<Longrightarrow> input_ok (rec_Key r) (rec_Owner r) (rec_Token r) Millisecond \<Longrightarrow>
      live s (ends e) (ident (rec_Key r)) = Some (rec_Owner r, rec_Token r) \<Longrightarrow>
      \<exists>s'. be_Release B e r s = (None, s')"
    and release_lost: "calm e \<Longrightarrow> invar s \<Longrightarrow> input_ok (rec_Key r) (rec_Owner r) (rec_Token r) Millisecond \<Longrightarrow>
      live s (ends e) (ident (rec_Key r)) = Some h \<Longrightarrow> h \<noteq> (rec_Owner r, rec_Token r) \<Longrightarrow>
      \<exists>err. be_Release B e r s = (Some err, s) \<and> errors_Is err (Sentinel ErrStaleOwner)"
    and release_again: "calm e \<Longrightarrow> calm e' \<Longrightarrow> ends e \<le> begins e' \<Longrightarrow> invar s \<Longrightarrow>
      be_Release B e r s = (None, s') \<Longrightarrow> be_Release B e' r s' = (None, s')"

end
