(* ===== verification/Lease_Handle.thy ===== *)
theory Lease_Handle
  imports Lease_Policy Lease_Backend
begin

text \<open>
  \<^verbatim>\<open>handle.go\<close>: the local admission view of an acquired lease. Every critical section of the
  handle's mutex is one function on the handle; a remote operation is a reservation, a
  backend call outside the lock, and a completion. The step relation \<open>handle_step\<close> lets
  any number of goroutines interleave these sections with arbitrary clock readings and
  arbitrary responses.
\<close>

section \<open>State\<close>

datatype State = StateActive | StateExpired | StateLost | StateUncertain | StateReleased

fun State_String :: "State \<Rightarrow> string" where
  "State_String StateActive = ''active''"
| "State_String StateExpired = ''expired''"
| "State_String StateLost = ''lost''"
| "State_String StateUncertain = ''uncertain''"
| "State_String StateReleased = ''released''"

text \<open>One reading of the injected clock and one of the process's own clock.\<close>

record clocks =
  clk_now :: instant
  clk_wall :: instant

record Handle =
  h_policy :: Policy
  h_record :: Record
  h_deadline :: instant
  h_wallDeadline :: instant
  h_state :: State
  h_busy :: bool
  h_managed :: bool

definition policy_budget :: "Policy \<Rightarrow> duration" where
  "policy_budget policy = TTL policy - SafetyMargin policy"

definition newHandleAt :: "Policy \<Rightarrow> Record \<Rightarrow> instant \<Rightarrow> instant \<Rightarrow> Handle" where
  "newHandleAt policy record0 started wallStarted =
     (let budget = policy_budget policy
      in \<lparr>h_policy = policy, h_record = record0, h_deadline = time_Add started budget,
          h_wallDeadline = time_Add wallStarted budget, h_state = StateActive,
          h_busy = False, h_managed = False\<rparr>)"

definition newHandle :: "Policy \<Rightarrow> Record \<Rightarrow> clocks \<Rightarrow> Handle" where
  "newHandle policy record0 c = newHandleAt policy record0 (clk_now c) (clk_wall c)"

section \<open>Critical sections\<close>

definition expireLocked :: "clocks \<Rightarrow> Handle \<Rightarrow> Handle" where
  "expireLocked c h =
     (if h_state h = StateActive \<and> (\<not> clk_now c < h_deadline h \<or> \<not> clk_wall c < h_wallDeadline h)
      then h\<lparr>h_state := StateExpired\<rparr> else h)"

definition handle_State :: "clocks \<Rightarrow> Handle \<Rightarrow> State \<times> Handle" where
  "handle_State c h = (let h1 = expireLocked c h in (h_state h1, h1))"

definition requireActiveLocked :: "clocks \<Rightarrow> Handle \<Rightarrow> gerror option \<times> Handle" where
  "requireActiveLocked c h =
     (let h1 = expireLocked c h
      in if h_state h1 = StateExpired then (Some (Wrap (Sentinel ErrLost) ''deadline''), h1)
         else if h_state h1 \<noteq> StateActive then (Some (Wrap (Sentinel ErrInvalidState) ''handle''), h1)
         else (None, h1))"

definition beginActiveOperation :: "clocks \<Rightarrow> Handle \<Rightarrow> Record result \<times> Handle" where
  "beginActiveOperation c h =
     (case requireActiveLocked c h of
        (Some err, h1) \<Rightarrow> (Inl err, h1)
      | (None, h1) \<Rightarrow>
          if h_busy h1 then (Inl (Wrap (Sentinel ErrInvalidState) ''handle operation''), h1)
          else (Inr (h_record h1), h1\<lparr>h_busy := True\<rparr>))"

definition failLocked :: "gerror \<Rightarrow> Handle \<Rightarrow> Handle" where
  "failLocked err h =
     (if h_state h \<noteq> StateActive then h
      else if errors_Is err (Sentinel ErrStaleOwner) \<or> errors_Is err (Sentinel ErrLost)
      then h\<lparr>h_state := StateLost\<rparr>
      else h\<lparr>h_state := StateUncertain\<rparr>)"

definition finishActiveOperation ::
  "clocks \<Rightarrow> Record \<Rightarrow> gerror option \<Rightarrow> instant \<Rightarrow> instant \<Rightarrow> Handle \<Rightarrow> gerror option \<times> Handle" where
  "finishActiveOperation c record0 err deadline wallDeadline h =
     (let h1 = expireLocked c (h\<lparr>h_busy := False\<rparr>)
      in case err of
           Some e \<Rightarrow> (Some e, failLocked e h1)
         | None \<Rightarrow>
             if h_state h1 \<noteq> StateActive
             then (Some (Wrap (Sentinel ErrLost) ''deadline during operation''), h1)
             else
               let h2 = h1\<lparr>h_record := record0\<rparr>
               in (None, if \<not> time_IsZero deadline
                         then h2\<lparr>h_deadline := deadline, h_wallDeadline := wallDeadline\<rparr> else h2))"

definition sameAcquisition :: "Record \<Rightarrow> Record \<Rightarrow> bool" where
  "sameAcquisition current next0 \<longleftrightarrow>
     key_String (rec_Key current) = key_String (rec_Key next0) \<and>
     rec_Owner current = rec_Owner next0 \<and> rec_Token current = rec_Token next0 \<and>
     rec_AcquiredAt current = rec_AcquiredAt next0 \<and> rec_AcquiredAt next0 < rec_ExpiresAt next0"

text \<open>
  The two halves of a remote operation. A flight is a reserved operation: the record sent
  and, for a renewal, the clock readings from which the new deadlines count. The caller
  of a refused or already complete operation gets its result at once.
\<close>

datatype flight = FRenew Record instant instant | FValidate Record | FRelease Record

datatype response = RecordResponse "Record result" | ErrorResponse "gerror option"

definition check_response :: "Record \<Rightarrow> gerror \<Rightarrow> Record result \<Rightarrow> Record \<times> gerror option" where
  "check_response record0 mismatch res =
     (case res of
        Inl err \<Rightarrow> (zero_Record, Some err)
      | Inr next0 \<Rightarrow>
          if \<not> sameAcquisition record0 next0 then (next0, Some mismatch) else (next0, None))"

definition renew_begin :: "clocks \<Rightarrow> clocks \<Rightarrow> Handle \<Rightarrow> (gerror option + flight) \<times> Handle" where
  "renew_begin c c1 h =
     (case beginActiveOperation c h of
        (Inl err, h1) \<Rightarrow> (Inl (Some err), h1)
      | (Inr record0, h1) \<Rightarrow> (Inr (FRenew record0 (clk_now c1) (clk_wall c1)), h1))"

definition validate_begin :: "clocks \<Rightarrow> Handle \<Rightarrow> (gerror option + flight) \<times> Handle" where
  "validate_begin c h =
     (case beginActiveOperation c h of
        (Inl err, h1) \<Rightarrow> (Inl (Some err), h1)
      | (Inr record0, h1) \<Rightarrow> (Inr (FValidate record0), h1))"

definition release_begin :: "Handle \<Rightarrow> (gerror option + flight) \<times> Handle" where
  "release_begin h =
     (if h_state h = StateReleased then (Inl None, h)
      else if h_state h = StateLost \<or> h_state h = StateUncertain
      then (Inl (Some (Wrap (Sentinel ErrInvalidState) ''release'')), h)
      else if h_busy h then (Inl (Some (Wrap (Sentinel ErrInvalidState) ''handle operation'')), h)
      else (Inr (FRelease (h_record h)), h\<lparr>h_busy := True\<rparr>))"

definition renew_finish :: "clocks \<Rightarrow> Record \<Rightarrow> instant \<Rightarrow> instant \<Rightarrow> Record result \<Rightarrow> Handle \<Rightarrow> gerror option \<times> Handle" where
  "renew_finish c record0 started wallStarted res h =
     (case check_response record0 (Wrap (Sentinel ErrAmbiguousOutcome) ''renew response'') res of
        (next0, err) \<Rightarrow>
          let budget = policy_budget (h_policy h)
          in finishActiveOperation c next0 err (time_Add started budget) (time_Add wallStarted budget) h)"

definition validate_finish :: "clocks \<Rightarrow> Record \<Rightarrow> Record result \<Rightarrow> Handle \<Rightarrow> gerror option \<times> Handle" where
  "validate_finish c record0 res h =
     (case check_response record0 (Wrap (Sentinel ErrBackendUnavailable) ''validate response'') res of
        (next0, err) \<Rightarrow> finishActiveOperation c next0 err 0 0 h)"

definition release_finish :: "gerror option \<Rightarrow> Handle \<Rightarrow> gerror option \<times> Handle" where
  "release_finish err h =
     (let h1 = h\<lparr>h_busy := False\<rparr>
      in case err of
           Some e \<Rightarrow> (Some e, failLocked e h1)
         | None \<Rightarrow> (None, h1\<lparr>h_state := StateReleased\<rparr>))"

section \<open>Whole operations\<close>

text \<open>
  One operation run against a backend, with the readings at reservation, at the start of
  the call and at completion.
\<close>

definition handle_Renew ::
  "('e, 's) Backend \<Rightarrow> 'e \<Rightarrow> clocks \<Rightarrow> clocks \<Rightarrow> clocks \<Rightarrow> Handle \<Rightarrow> 's \<Rightarrow> gerror option \<times> Handle \<times> 's" where
  "handle_Renew B e c c1 c2 h s =
     (case renew_begin c c1 h of
        (Inr (FRenew record0 started wallStarted), h1) \<Rightarrow>
          (case be_Renew B e record0 (TTL (h_policy h1)) s of
             (res, s1) \<Rightarrow> (case renew_finish c2 record0 started wallStarted res h1 of (err, h2) \<Rightarrow> (err, h2, s1)))
      | (Inl err, h1) \<Rightarrow> (err, h1, s)
      | (_, h1) \<Rightarrow> (None, h1, s))"

definition handle_Validate ::
  "('e, 's) Backend \<Rightarrow> 'e \<Rightarrow> clocks \<Rightarrow> clocks \<Rightarrow> Handle \<Rightarrow> 's \<Rightarrow> gerror option \<times> Handle \<times> 's" where
  "handle_Validate B e c c2 h s =
     (case validate_begin c h of
        (Inr (FValidate record0), h1) \<Rightarrow>
          (case be_Validate B e record0 s of
             (res, s1) \<Rightarrow> (case validate_finish c2 record0 res h1 of (err, h2) \<Rightarrow> (err, h2, s1)))
      | (Inl err, h1) \<Rightarrow> (err, h1, s)
      | (_, h1) \<Rightarrow> (None, h1, s))"

definition handle_Release ::
  "('e, 's) Backend \<Rightarrow> 'e \<Rightarrow> Handle \<Rightarrow> 's \<Rightarrow> gerror option \<times> Handle \<times> 's" where
  "handle_Release B e h s =
     (case release_begin h of
        (Inr (FRelease record0), h1) \<Rightarrow>
          (case be_Release B e record0 s of
             (res, s1) \<Rightarrow> (case release_finish res h1 of (err, h2) \<Rightarrow> (err, h2, s1)))
      | (Inl err, h1) \<Rightarrow> (err, h1, s)
      | (_, h1) \<Rightarrow> (None, h1, s))"

text \<open>
  \<^verbatim>\<open>StartManaged\<close> with the shared slots as the number in use and the capacity of the channel.
\<close>

definition handle_StartManaged :: "clocks \<Rightarrow> nat \<Rightarrow> nat \<Rightarrow> Handle \<Rightarrow> gerror option \<times> Handle \<times> nat" where
  "handle_StartManaged c used cap h =
     (case requireActiveLocked c h of
        (Some err, h1) \<Rightarrow> (Some err, h1, used)
      | (None, h1) \<Rightarrow>
          if RenewEvery (h_policy h1) <=s 0 \<or> h_managed h1 \<or> h_busy h1
          then (Some (Wrap (Sentinel ErrInvalidState) ''managed renewal''), h1, used)
          else if used \<ge> cap
          then (Some (Wrap (Sentinel ErrBackendUnavailable) ''managed renewal capacity''), h1, used)
          else (None, h1\<lparr>h_managed := True\<rparr>, used + 1))"

section \<open>Interleaved sections\<close>

datatype request = RqRenew | RqValidate | RqRelease

fun request_begin :: "request \<Rightarrow> clocks \<Rightarrow> clocks \<Rightarrow> Handle \<Rightarrow> (gerror option + flight) \<times> Handle" where
  "request_begin RqRenew c c1 h = renew_begin c c1 h"
| "request_begin RqValidate c c1 h = validate_begin c h"
| "request_begin RqRelease c c1 h = release_begin h"

fun flight_finish :: "flight \<Rightarrow> clocks \<Rightarrow> response \<Rightarrow> Handle \<Rightarrow> gerror option \<times> Handle" where
  "flight_finish (FRenew r started wallStarted) c (RecordResponse res) h = renew_finish c r started wallStarted res h"
| "flight_finish (FValidate r) c (RecordResponse res) h = validate_finish c r res h"
| "flight_finish (FRelease r) c (ErrorResponse err) h = release_finish err h"
| "flight_finish _ c _ h = (None, h)"

fun answers :: "flight \<Rightarrow> response \<Rightarrow> bool" where
  "answers (FRelease r) (ErrorResponse err) \<longleftrightarrow> True"
| "answers (FRelease r) (RecordResponse res) \<longleftrightarrow> False"
| "answers _ (RecordResponse res) \<longleftrightarrow> True"
| "answers _ (ErrorResponse err) \<longleftrightarrow> False"

inductive handle_step :: "Handle \<times> flight list \<Rightarrow> Handle \<times> flight list \<Rightarrow> bool" where
  poll: "handle_step (h, fl) (snd (handle_State c h), fl)"
| start: "request_begin rq c c1 h = (Inr f, h1) \<Longrightarrow> handle_step (h, fl) (h1, f # fl)"
| refuse: "request_begin rq c c1 h = (Inl err, h1) \<Longrightarrow> handle_step (h, fl) (h1, fl)"
| complete: "f \<in> set fl \<Longrightarrow> answers f resp \<Longrightarrow> flight_finish f c resp h = (err, h1) \<Longrightarrow>
    handle_step (h, fl) (h1, remove1 f fl)"
| manage: "handle_StartManaged c used cap h = (err, h1, used1) \<Longrightarrow> handle_step (h, fl) (h1, fl)"
| unmanage: "handle_step (h, fl) (h\<lparr>h_managed := False\<rparr>, fl)"

section \<open>Effects of the sections\<close>

lemma expireLocked_fields [simp]:
  "h_record (expireLocked c h) = h_record h" "h_busy (expireLocked c h) = h_busy h"
  "h_policy (expireLocked c h) = h_policy h" "h_deadline (expireLocked c h) = h_deadline h"
  "h_wallDeadline (expireLocked c h) = h_wallDeadline h" "h_managed (expireLocked c h) = h_managed h"
  by (simp_all add: expireLocked_def)

lemma expireLocked_state:
  "h_state (expireLocked c h) = h_state h \<or> h_state h = StateActive \<and> h_state (expireLocked c h) = StateExpired"
  by (simp add: expireLocked_def)

lemma expireLocked_active:
  "h_state (expireLocked c h) = StateActive \<longleftrightarrow>
     h_state h = StateActive \<and> clk_now c < h_deadline h \<and> clk_wall c < h_wallDeadline h"
  by (auto simp: expireLocked_def)

lemma failLocked_fields [simp]:
  "h_record (failLocked e h) = h_record h" "h_busy (failLocked e h) = h_busy h"
  "h_policy (failLocked e h) = h_policy h" "h_deadline (failLocked e h) = h_deadline h"
  "h_wallDeadline (failLocked e h) = h_wallDeadline h" "h_managed (failLocked e h) = h_managed h"
  "h_state (failLocked e h) \<noteq> StateActive"
  by (simp_all add: failLocked_def)

lemma failLocked_state:
  "h_state h \<noteq> StateActive \<Longrightarrow> failLocked e h = h"
  "h_state h = StateActive \<Longrightarrow> h_state (failLocked e h) \<in> {StateLost, StateUncertain}"
  by (simp_all add: failLocked_def)

text \<open>
  The permitted changes of the local state: what \<^verbatim>\<open>docs/state-machine.md\<close> calls terminal for
  admission, with release of an expired handle as the only further transition.
\<close>

fun state_le :: "State \<Rightarrow> State \<Rightarrow> bool" where
  "state_le StateActive s' \<longleftrightarrow> True"
| "state_le StateExpired s' \<longleftrightarrow> s' = StateExpired \<or> s' = StateReleased"
| "state_le s s' \<longleftrightarrow> s' = s"

lemma state_le_refl [simp]: "state_le s s"
  by (cases s) simp_all

lemma state_le_trans: "state_le a b \<Longrightarrow> state_le b c \<Longrightarrow> state_le a c"
  by (cases a; cases b) auto

fun flight_record :: "flight \<Rightarrow> Record" where
  "flight_record (FRenew r started wallStarted) = r"
| "flight_record (FValidate r) = r"
| "flight_record (FRelease r) = r"

lemmas section_defs = renew_begin_def validate_begin_def release_begin_def beginActiveOperation_def
  requireActiveLocked_def handle_State_def handle_StartManaged_def Let_def

lemma request_begin_Inr:
  assumes "request_begin rq c c1 h = (Inr f, h1)"
  shows "\<not> h_busy h" "h_busy h1" "h_state h1 = StateActive \<or> h_state h1 = StateExpired"
    "h_state h1 = h_state h" "h_record h1 = h_record h" "h_policy h1 = h_policy h"
    "flight_record f = h_record h" "h_deadline h1 = h_deadline h" "h_wallDeadline h1 = h_wallDeadline h"
  using assms expireLocked_state [of c h]
  by (cases rq; auto simp: section_defs split: option.splits prod.splits if_splits; cases "h_state h"; simp; fail)+

lemma request_begin_Inl:
  "request_begin rq c c1 h = (Inl err, h1) \<Longrightarrow> h1 = h \<or> h1 = expireLocked c h"
  by (cases rq) (auto simp: section_defs split: option.splits prod.splits if_splits)

lemma StartManaged_effect:
  "handle_StartManaged c used cap h = (err, h1, used1) \<Longrightarrow>
   h1 = expireLocked c h \<or> h1 = (expireLocked c h)\<lparr>h_managed := True\<rparr> \<and> \<not> h_managed h \<and> \<not> h_busy h"
  by (auto simp: section_defs split: option.splits prod.splits if_splits)

lemma finishActiveOperation_cases:
  assumes "finishActiveOperation c r err dl wdl h = (res, h1)"
  obtains (failed) e where "err = Some e" "res = Some e" "h1 = failLocked e (expireLocked c (h\<lparr>h_busy := False\<rparr>))"
  | (late) "err = None" "h_state (expireLocked c (h\<lparr>h_busy := False\<rparr>)) \<noteq> StateActive"
      "errors_Is (the res) (Sentinel ErrLost)" "res \<noteq> None" "h1 = expireLocked c (h\<lparr>h_busy := False\<rparr>)"
  | (accepted) "err = None" "res = None" "h_state h = StateActive"
      "clk_now c < h_deadline h" "clk_wall c < h_wallDeadline h"
      "h1 = h\<lparr>h_busy := False, h_record := r,
         h_deadline := (if dl = 0 then h_deadline h else dl), h_wallDeadline := (if dl = 0 then h_wallDeadline h else wdl)\<rparr>"
proof (cases err)
  case (Some e)
  then show ?thesis using assms by (intro failed [of e]) (simp_all add: finishActiveOperation_def Let_def)
next
  case None
  show ?thesis
  proof (cases "h_state (expireLocked c (h\<lparr>h_busy := False\<rparr>)) = StateActive")
    case True
    then have "expireLocked c (h\<lparr>h_busy := False\<rparr>) = h\<lparr>h_busy := False\<rparr>"
      by (auto simp: expireLocked_def split: if_splits)
    moreover have "h_state h = StateActive" "clk_now c < h_deadline h" "clk_wall c < h_wallDeadline h"
      using True by (simp_all add: expireLocked_active)
    ultimately show ?thesis
      using None assms by (intro accepted) (auto simp: finishActiveOperation_def Let_def time_IsZero_def)
  next
    case False
    with None assms show ?thesis by (intro late) (auto simp: finishActiveOperation_def Let_def)
  qed
qed

text \<open>Two records of one acquisition.\<close>

definition same_identity :: "Record \<Rightarrow> Record \<Rightarrow> bool" where
  "same_identity a b \<longleftrightarrow> key_String (rec_Key a) = key_String (rec_Key b) \<and> rec_Owner a = rec_Owner b \<and>
     rec_Token a = rec_Token b \<and> rec_AcquiredAt a = rec_AcquiredAt b"

lemma same_identity_refl [simp]: "same_identity r r"
  by (simp add: same_identity_def)

lemma same_identity_trans: "same_identity a b \<Longrightarrow> same_identity b c \<Longrightarrow> same_identity a c"
  by (simp add: same_identity_def)

lemma sameAcquisition_identity: "sameAcquisition a b \<Longrightarrow> same_identity a b"
  by (simp add: sameAcquisition_def same_identity_def)

lemma finish_state_le:
  "h_state h = StateActive \<or> h_state h = StateExpired \<Longrightarrow>
   finishActiveOperation c r err dl wdl h = (res, h1) \<Longrightarrow> state_le (h_state h) (h_state h1)"
  by (erule finishActiveOperation_cases) (auto simp: expireLocked_def failLocked_def)

lemma check_response_None:
  "check_response r mismatch res = (next0, None) \<longleftrightarrow> res = Inr next0 \<and> sameAcquisition r next0"
  by (auto simp: check_response_def split: sum.splits if_splits)

lemma flight_finish_effect:
  assumes "flight_finish f c resp h = (err, h1)" "answers f resp"
    and "h_state h = StateActive \<or> h_state h = StateExpired"
  shows "\<not> h_busy h1" "state_le (h_state h) (h_state h1)" "h_policy h1 = h_policy h"
    "h_record h1 = h_record h \<or> same_identity (flight_record f) (h_record h1)"
proof -
  have fin: "\<not> h_busy h1 \<and> state_le (h_state h) (h_state h1) \<and> h_policy h1 = h_policy h \<and>
      (h_record h1 = h_record h \<or> err' = None \<and> h_record h1 = r)"
    if "finishActiveOperation c r err' dl wdl h = (err, h1)" for r err' dl wdl
    using finish_state_le [OF assms(3) that] that by (auto elim!: finishActiveOperation_cases)
  have "\<not> h_busy h1 \<and> state_le (h_state h) (h_state h1) \<and> h_policy h1 = h_policy h \<and>
    (h_record h1 = h_record h \<or> same_identity (flight_record f) (h_record h1))"
  proof (cases f)
    case (FRenew r started wallStarted)
    then obtain res where "resp = RecordResponse res" using assms(2) by (cases resp) auto
    then obtain next0 err' where chk: "check_response r (Wrap (Sentinel ErrAmbiguousOutcome) ''renew response'') res = (next0, err')"
      and fin1: "finishActiveOperation c next0 err' (time_Add started (policy_budget (h_policy h)))
        (time_Add wallStarted (policy_budget (h_policy h))) h = (err, h1)"
      using assms(1) FRenew by (auto simp: renew_finish_def Let_def split: prod.splits)
    from fin [OF fin1] chk FRenew show ?thesis
      by (cases err') (auto simp: check_response_None dest: sameAcquisition_identity)
  next
    case (FValidate r)
    then obtain res where "resp = RecordResponse res" using assms(2) by (cases resp) auto
    then obtain next0 err' where chk: "check_response r (Wrap (Sentinel ErrBackendUnavailable) ''validate response'') res = (next0, err')"
      and fin1: "finishActiveOperation c next0 err' 0 0 h = (err, h1)"
      using assms(1) FValidate by (auto simp: validate_finish_def split: prod.splits)
    from fin [OF fin1] chk FValidate show ?thesis
      by (cases err') (auto simp: check_response_None dest: sameAcquisition_identity)
  next
    case (FRelease r)
    then obtain e where "resp = ErrorResponse e" using assms(2) by (cases resp) auto
    with FRelease assms(1,3) show ?thesis
      by (cases e) (auto simp: release_finish_def Let_def failLocked_state)
  qed
  then show "\<not> h_busy h1" "state_le (h_state h) (h_state h1)" "h_policy h1 = h_policy h"
    "h_record h1 = h_record h \<or> same_identity (flight_record f) (h_record h1)" by simp_all
qed

section \<open>The invariant\<close>

definition handle_ok :: "Record \<Rightarrow> Handle \<times> flight list \<Rightarrow> bool" where
  "handle_ok r0 = (\<lambda>(h, fl). (h_busy h \<longleftrightarrow> fl \<noteq> []) \<and> length fl \<le> 1 \<and>
     (fl \<noteq> [] \<longrightarrow> h_state h = StateActive \<or> h_state h = StateExpired) \<and>
     same_identity r0 (h_record h) \<and> (\<forall>f \<in> set fl. same_identity r0 (flight_record f)))"

lemma handle_ok_new: "handle_ok r (newHandleAt policy r started wallStarted, [])"
  by (simp add: handle_ok_def newHandleAt_def Let_def)

lemma handle_ok_managed [simp]: "handle_ok r0 (h\<lparr>h_managed := b\<rparr>, fl) = handle_ok r0 (h, fl)"
  by (simp add: handle_ok_def)

lemma handle_ok_expire: "handle_ok r0 (h, fl) \<Longrightarrow> handle_ok r0 (expireLocked c h, fl)"
  using expireLocked_state [of c h] by (auto simp: handle_ok_def)

lemma expire_state_le [simp]: "state_le (h_state h) (h_state (expireLocked c h))"
  using expireLocked_state [of c h] by auto

lemma handle_step_invariant:
  assumes "handle_step (h, fl) (h', fl')" and "handle_ok r0 (h, fl)"
  shows "handle_ok r0 (h', fl') \<and> state_le (h_state h) (h_state h') \<and> h_policy h' = h_policy h"
  using assms
proof (cases rule: handle_step.cases)
  case (poll c)
  then show ?thesis using assms(2) by (simp add: handle_State_def Let_def handle_ok_expire)
next
  case (start rq c c1 f)
  show ?thesis using assms(2) start(1) request_begin_Inr [OF start(2)] by (auto simp: handle_ok_def)
next
  case (refuse rq c c1 err)
  then show ?thesis using assms(2) request_begin_Inl [OF refuse(2)] by (auto simp: handle_ok_expire)
next
  case (complete f resp c err)
  have fl: "fl = [f]" "same_identity r0 (flight_record f)" "h_state h = StateActive \<or> h_state h = StateExpired"
    using assms(2) complete(2) by (auto simp: handle_ok_def length_Suc_conv le_Suc_eq)
  note eff = flight_finish_effect [OF complete(4,3) fl(3)]
  show ?thesis
    using assms(2) eff fl complete(1) by (auto simp: handle_ok_def dest: same_identity_trans)
next
  case (manage c used cap err used1)
  then show ?thesis
    using StartManaged_effect [OF manage(2)] handle_ok_expire [OF assms(2), of c] by auto
next
  case unmanage
  then show ?thesis using assms(2) by simp
qed

section \<open>Properties\<close>

lemma handle_steps_invariant:
  "handle_step\<^sup>*\<^sup>* x y \<Longrightarrow> handle_ok r0 x \<Longrightarrow>
   handle_ok r0 y \<and> state_le (h_state (fst x)) (h_state (fst y)) \<and> h_policy (fst y) = h_policy (fst x)"
proof (induction rule: rtranclp_induct)
  case (step y z)
  then show ?case
    using handle_step_invariant [of "fst y" "snd y" "fst z" "snd z" r0] state_le_trans by (metis prod.collapse)
qed simp

text \<open>
  C7: Life of a handle. However goroutines interleave state queries, renewals,
  validations, releases and managed renewal, with any clock readings and any backend
  responses: at most one remote operation is in flight, exactly while the handle is
  reserved; the handle keeps the key, owner, token and acquisition time it was created
  with; and it never returns to an earlier state: admission is never regained, and only
  an expired handle may still become released.
\<close>

theorem handle_lifecycle:
  assumes "handle_step\<^sup>*\<^sup>* (newHandleAt policy r started wallStarted, []) (h, fl)"
    and "handle_step\<^sup>*\<^sup>* (h, fl) (h', fl')"
  shows "length fl \<le> 1 \<and> (h_busy h \<longleftrightarrow> fl \<noteq> []) \<and> same_identity r (h_record h) \<and>
    state_le (h_state h) (h_state h')"
proof -
  have ok: "handle_ok r (h, fl)"
    using handle_steps_invariant [OF assms(1) handle_ok_new] by simp
  then show ?thesis
    using handle_steps_invariant [OF assms(2) ok] by (simp add: handle_ok_def)
qed

text \<open>
  Completion of a renewal, on every branch. For an active handle: once either deadline
  has passed the handle expires and the caller gets an error, \<^verbatim>\<open>ErrLost\<close> when the backend had
  succeeded; before both deadlines a matching record keeps the handle active with both
  deadlines counted from the start of the call, a record of another acquisition makes it
  uncertain with \<^verbatim>\<open>ErrAmbiguousOutcome\<close>, and a backend error is returned as it is and makes the
  handle lost or uncertain.
\<close>

theorem renew_finish_outcomes:
  assumes "h_state h = StateActive" and "time_Add started (policy_budget (h_policy h)) \<noteq> 0"
    and "renew_finish c r started wallStarted res h = (err, h')"
  shows "\<not> h_busy h' \<and>
    (if \<not> clk_now c < h_deadline h \<or> \<not> clk_wall c < h_wallDeadline h
     then h_state h' = StateExpired \<and> h_record h' = h_record h \<and>
       (case res of Inl e \<Rightarrow> err = Some e
        | Inr next0 \<Rightarrow> err_is err (Sentinel (if sameAcquisition r next0 then ErrLost else ErrAmbiguousOutcome)))
     else case res of
         Inl e \<Rightarrow> err = Some e \<and> h_state h' = (if errors_Is e (Sentinel ErrStaleOwner) \<or> errors_Is e (Sentinel ErrLost)
           then StateLost else StateUncertain)
       | Inr next0 \<Rightarrow>
           if sameAcquisition r next0
           then err = None \<and> h_state h' = StateActive \<and> h_record h' = next0 \<and>
             h_deadline h' = time_Add started (policy_budget (h_policy h)) \<and>
             h_wallDeadline h' = time_Add wallStarted (policy_budget (h_policy h))
           else err_is err (Sentinel ErrAmbiguousOutcome) \<and> h_state h' = StateUncertain)"
  using assms(3) unfolding renew_finish_def check_response_def finishActiveOperation_def expireLocked_def failLocked_def
  by (cases res) (auto simp: Let_def assms(1,2) time_IsZero_def)

section \<open>Witnesses\<close>

definition ex_policy :: Policy where
  "ex_policy = \<lparr>TTL = 5 * Second, Wait = 0, Retry = 0, Jitter = 0, RenewEvery = Second, SafetyMargin = Second,
     policy_MaxAttempts = 1, OperationTimeout = Second, policy_FailureBehavior = FailureFailClosed\<rparr>"

lemma ex_policy_simps [simp]:
  "TTL ex_policy = 5 * Second" "SafetyMargin ex_policy = Second" "wf_Policy ex_policy"
  "policy_budget ex_policy = 4 * Second"
  by (simp_all add: ex_policy_def wf_Policy_def FailureFailClosed_def policy_budget_def)

definition ex_clocks :: "instant \<Rightarrow> clocks" where
  "ex_clocks t = \<lparr>clk_now = t, clk_wall = t\<rparr>"

definition ex_lease :: "instant \<Rightarrow> Record" where
  "ex_lease expiry = \<lparr>rec_Key = \<lparr>key_value = ''a/b''\<rparr>, rec_Owner = ''x'', rec_Token = 7,
     rec_AcquiredAt = 100, rec_ExpiresAt = expiry\<rparr>"

definition ex_handle :: Handle where
  "ex_handle = newHandleAt ex_policy (ex_lease 5000000100) 50 50"

text \<open>A renewal is started, answered after the deadline, and leaves the handle expired.\<close>

theorem handle_lifecycle_witness:
  "same_identity (ex_lease 5000000100) (h_record (snd (renew_begin (ex_clocks 60) (ex_clocks 70) ex_handle))) \<and>
   state_le StateActive (h_state (snd (renew_finish (ex_clocks 4000000050) (ex_lease 5000000100) 70 70
     (Inr (ex_lease 9000000000)) (snd (renew_begin (ex_clocks 60) (ex_clocks 70) ex_handle)))))"
proof -
  let ?h1 = "snd (renew_begin (ex_clocks 60) (ex_clocks 70) ex_handle)"
  let ?f = "FRenew (ex_lease 5000000100) 70 70"
  have begins: "request_begin RqRenew (ex_clocks 60) (ex_clocks 70) ex_handle = (Inr ?f, ?h1)"
    by (simp add: renew_begin_def beginActiveOperation_def requireActiveLocked_def expireLocked_def ex_handle_def
        newHandleAt_def Let_def time_Add_def ex_clocks_def)
  have one: "handle_step\<^sup>*\<^sup>* (ex_handle, []) (?h1, [?f])"
    using handle_step.start [OF begins] by blast
  have two: "handle_step\<^sup>*\<^sup>* (?h1, [?f]) (snd (renew_finish (ex_clocks 4000000050) (ex_lease 5000000100) 70 70
      (Inr (ex_lease 9000000000)) ?h1), [])"
    using handle_step.complete [of ?f "[?f]" "RecordResponse (Inr (ex_lease 9000000000))" "ex_clocks 4000000050" ?h1]
    by (auto intro!: r_into_rtranclp) (metis prod.collapse)
  have "h_state ?h1 = StateActive"
    using begins by (auto simp: renew_begin_def beginActiveOperation_def requireActiveLocked_def expireLocked_def
        ex_handle_def newHandleAt_def Let_def time_Add_def ex_clocks_def)
  then show ?thesis
    using handle_lifecycle [OF one [unfolded ex_handle_def] two [unfolded ex_handle_def]] by (simp add: ex_handle_def)
qed

theorem renew_finish_outcomes_witness:
  "h_state (snd (renew_finish (ex_clocks 80) (ex_lease 5000000100) 70 70 (Inr (ex_lease 9000000000)) ex_handle)) = StateActive \<and>
   h_deadline (snd (renew_finish (ex_clocks 80) (ex_lease 5000000100) 70 70 (Inr (ex_lease 9000000000)) ex_handle)) = 4000000070"
  using renew_finish_outcomes [OF _ _ prod.collapse [symmetric], of ex_handle 70 "ex_clocks 80" "ex_lease 5000000100" 70
      "Inr (ex_lease 9000000000)"]
  by (simp add: ex_handle_def newHandleAt_def Let_def time_Add_def ex_clocks_def sameAcquisition_def ex_lease_def)

text \<open>
  A release reads no clock: on a handle that is past its deadline but was not asked for its
  state, a failing release ends in lost or uncertain rather than expired.
\<close>

lemma release_ignores_deadline:
  assumes "h_state h = StateActive" "\<not> h_busy h" "be_Release B e (h_record h) s = (Some err, s1)"
  shows "\<exists>h1. handle_Release B e h s = (Some err, h1, s1) \<and> h_state h1 \<in> {StateLost, StateUncertain}"
  using assms by (simp add: handle_Release_def release_begin_def release_finish_def failLocked_def Let_def)

end
