(* ===== verification/Memory_Store.thy ===== *)
theory Memory_Store
  imports Lease_Backend "HOL-Library.Mapping" "HOL-Library.AList_Mapping"
begin

text \<open>
  \<^verbatim>\<open>memory/store.go\<close>: the process-local reference backend. Each operation runs under one
  mutex, so it is one atomic step on the store. The environment of a call is the reading
  of the injected clock and the error of the caller's context, \<open>None\<close> while it is usable.
\<close>

section \<open>State\<close>

record entry =
  entry_record :: Record
  entry_active :: bool

record mem_store =
  mem_maxKeys :: uint32
  mem_entries :: "(string, entry) mapping"

record mem_env =
  mem_now :: instant
  mem_ctx :: "ctx_error option"

definition zero_entry :: entry where
  "zero_entry = \<lparr>entry_record = zero_Record, entry_active = False\<rparr>"

definition memory_New :: "bool \<Rightarrow> uint32 \<Rightarrow> mem_store result" where
  "memory_New clock_set maxKeys =
     (if \<not> clock_set \<or> maxKeys = 0
      then Inl (Fmt '''' (Sentinel ErrInvalidState) '': invalid memory options'')
      else Inr \<lparr>mem_maxKeys = maxKeys, mem_entries = Mapping.empty\<rparr>)"

section \<open>Validation\<close>

definition memory_validateIdentity ::
  "ctx_error option \<Rightarrow> Key \<Rightarrow> string \<Rightarrow> Token \<Rightarrow> gerror option" where
  "memory_validateIdentity ctx key owner token =
     (case ctx of
        Some err \<Rightarrow> Some (Wrap (Sentinel ErrCanceled) ''context'')
      | None \<Rightarrow>
          if key_String key = '''' \<or> owner = '''' \<or> length owner > 128 \<or> token = 0
          then Some (Wrap (Sentinel ErrInvalidState) ''identity'')
          else None)"

definition memory_validate ::
  "ctx_error option \<Rightarrow> Key \<Rightarrow> string \<Rightarrow> duration \<Rightarrow> gerror option" where
  "memory_validate ctx key owner ttl =
     (case memory_validateIdentity ctx key owner 1 of
        Some err \<Rightarrow> Some err
      | None \<Rightarrow> if ttl <=s 0 then Some (Wrap (Sentinel ErrInvalidState) ''duration'') else None)"

definition sameOwner :: "Record \<Rightarrow> Record \<Rightarrow> bool" where
  "sameOwner current candidate \<longleftrightarrow>
     rec_Owner current = rec_Owner candidate \<and> rec_Token current = rec_Token candidate"

section \<open>Operations\<close>

definition memory_TryAcquire ::
  "mem_env \<Rightarrow> Key \<Rightarrow> string \<Rightarrow> duration \<Rightarrow> mem_store \<Rightarrow> Record result \<times> mem_store" where
  "memory_TryAcquire e key owner ttl store =
     (case memory_validate (mem_ctx e) key owner ttl of
        Some err \<Rightarrow> (Inl err, store)
      | None \<Rightarrow>
          let now = mem_now e;
              slot = Mapping.lookup (mem_entries store) (key_String key);
              exists = slot \<noteq> None;
              current = (case slot of None \<Rightarrow> zero_entry | Some c \<Rightarrow> c)
          in if exists \<and> entry_active current \<and> now < rec_ExpiresAt (entry_record current)
             then (Inl (Wrap (Sentinel ErrContended) ''try acquire''), store)
             else if \<not> exists \<and> mem_maxKeys store \<le> word_of_nat (Mapping.size (mem_entries store))
             then (Inl (Wrap (Sentinel ErrBackendUnavailable) ''key capacity''), store)
             else if rec_Token (entry_record current) = - 1
             then (Inl (Wrap (Sentinel ErrBackendUnavailable) ''token exhausted''), store)
             else let record0 = \<lparr>rec_Key = key, rec_Owner = owner,
                        rec_Token = rec_Token (entry_record current) + 1,
                        rec_AcquiredAt = now, rec_ExpiresAt = time_Add now ttl\<rparr>
                  in (Inr record0,
                      store\<lparr>mem_entries := Mapping.update (key_String key)
                        \<lparr>entry_record = record0, entry_active = True\<rparr> (mem_entries store)\<rparr>))"

definition memory_Renew ::
  "mem_env \<Rightarrow> Record \<Rightarrow> duration \<Rightarrow> mem_store \<Rightarrow> Record result \<times> mem_store" where
  "memory_Renew e owned ttl store =
     (case memory_validate (mem_ctx e) (rec_Key owned) (rec_Owner owned) ttl of
        Some err \<Rightarrow> (Inl err, store)
      | None \<Rightarrow>
          if rec_Token owned = 0
          then (Inl (Wrap (Sentinel ErrInvalidState) ''renew''), store)
          else (case Mapping.lookup (mem_entries store) (key_String (rec_Key owned)) of
              None \<Rightarrow> (Inl (Wrap (Sentinel ErrStaleOwner) ''renew''), store)
            | Some current \<Rightarrow>
                if \<not> entry_active current
                then (Inl (Wrap (Sentinel ErrStaleOwner) ''renew''), store)
                else if \<not> sameOwner (entry_record current) owned
                then (Inl (Wrap (Sentinel ErrStaleOwner) ''renew''), store)
                else if \<not> mem_now e < rec_ExpiresAt (entry_record current)
                then (Inl (Wrap (Sentinel ErrStaleOwner) ''renew''), store)
                else let record0 = (entry_record current)\<lparr>rec_ExpiresAt := time_Add (mem_now e) ttl\<rparr>
                     in (Inr record0,
                         store\<lparr>mem_entries := Mapping.update (key_String (rec_Key owned))
                           (current\<lparr>entry_record := record0\<rparr>) (mem_entries store)\<rparr>)))"

definition memory_Validate ::
  "mem_env \<Rightarrow> Record \<Rightarrow> mem_store \<Rightarrow> Record result \<times> mem_store" where
  "memory_Validate e owned store =
     (case memory_validateIdentity (mem_ctx e) (rec_Key owned) (rec_Owner owned) (rec_Token owned) of
        Some err \<Rightarrow> (Inl err, store)
      | None \<Rightarrow>
          (case Mapping.lookup (mem_entries store) (key_String (rec_Key owned)) of
             None \<Rightarrow> (Inl (Wrap (Sentinel ErrStaleOwner) ''validate''), store)
           | Some current \<Rightarrow>
               if \<not> entry_active current
               then (Inl (Wrap (Sentinel ErrStaleOwner) ''validate''), store)
               else if \<not> sameOwner (entry_record current) owned
               then (Inl (Wrap (Sentinel ErrStaleOwner) ''validate''), store)
               else if \<not> mem_now e < rec_ExpiresAt (entry_record current)
               then (Inl (Wrap (Sentinel ErrStaleOwner) ''validate''), store)
               else (Inr (entry_record current), store)))"

definition memory_Release ::
  "mem_env \<Rightarrow> Record \<Rightarrow> mem_store \<Rightarrow> gerror option \<times> mem_store" where
  "memory_Release e owned store =
     (case memory_validateIdentity (mem_ctx e) (rec_Key owned) (rec_Owner owned) (rec_Token owned) of
        Some err \<Rightarrow> (Some err, store)
      | None \<Rightarrow>
          (case Mapping.lookup (mem_entries store) (key_String (rec_Key owned)) of
             None \<Rightarrow> (Some (Wrap (Sentinel ErrStaleOwner) ''release''), store)
           | Some current \<Rightarrow>
               if \<not> entry_active current
               then if sameOwner (entry_record current) owned then (None, store)
                    else (Some (Wrap (Sentinel ErrStaleOwner) ''release''), store)
               else if \<not> sameOwner (entry_record current) owned
               then (Some (Wrap (Sentinel ErrStaleOwner) ''release''), store)
               else (None, store\<lparr>mem_entries := Mapping.update (key_String (rec_Key owned))
                       (current\<lparr>entry_active := False\<rparr>) (mem_entries store)\<rparr>)))"

definition memory_backend :: "(mem_env, mem_store) Backend" where
  "memory_backend = \<lparr>be_TryAcquire = memory_TryAcquire, be_Renew = memory_Renew,
     be_Validate = memory_Validate, be_Release = memory_Release\<rparr>"

lemmas memory_ops [lease_defs] = memory_TryAcquire_def memory_Renew_def memory_Validate_def
  memory_Release_def

section \<open>Invariant and view\<close>

text \<open>
  Entries are filed under their own key with a fence that is never zero, and there are
  never more of them than the configured capacity, so the \<^verbatim>\<open>uint32(len(entries))\<close>
  conversion is exact.
\<close>

definition memory_invar :: "mem_store \<Rightarrow> bool" where
  "memory_invar s \<longleftrightarrow>
     finite (Mapping.keys (mem_entries s)) \<and>
     Mapping.size (mem_entries s) \<le> unat (mem_maxKeys s) \<and>
     (\<forall>k c. Mapping.lookup (mem_entries s) k = Some c \<longrightarrow>
        key_String (rec_Key (entry_record c)) = k \<and> rec_Token (entry_record c) \<noteq> 0)"

definition memory_fence :: "mem_store \<Rightarrow> string \<Rightarrow> nat" where
  "memory_fence s i = (case Mapping.lookup (mem_entries s) i of
     None \<Rightarrow> 0 | Some c \<Rightarrow> unat (rec_Token (entry_record c)))"

definition memory_live :: "mem_store \<Rightarrow> instant \<Rightarrow> string \<Rightarrow> holder option" where
  "memory_live s t i = (case Mapping.lookup (mem_entries s) i of
     None \<Rightarrow> None
   | Some c \<Rightarrow> if entry_active c \<and> t < rec_ExpiresAt (entry_record c)
       then Some (rec_Owner (entry_record c), rec_Token (entry_record c)) else None)"

section \<open>The operations, case by case\<close>

lemma memory_validate_ok:
  "memory_validate ctx k ow ttl = None \<Longrightarrow> 0 < sint ttl \<and> length ow \<le> 128 \<and> ow \<noteq> []"
  by (auto simp: memory_validate_def memory_validateIdentity_def word_sle_eq
        split: option.splits if_splits)

lemma memory_validate_class:
  "memory_validate ctx k ow ttl = Some err \<Longrightarrow>
   errors_Is err (Sentinel x) \<longleftrightarrow> x = (if ctx = None then ErrInvalidState else ErrCanceled)"
  by (auto simp: memory_validate_def memory_validateIdentity_def split: option.splits if_splits)

lemma memory_validateIdentity_class:
  "memory_validateIdentity ctx k ow tok = Some err \<Longrightarrow>
   errors_Is err (Sentinel x) \<longleftrightarrow> x = (if ctx = None then ErrInvalidState else ErrCanceled)"
  by (auto simp: memory_validateIdentity_def split: option.splits if_splits)

lemma memory_acquire_cases:
  assumes "memory_TryAcquire e k ow ttl s = (res, s')"
  obtains (refused) err where "res = Inl err" "s' = s"
      "\<not> errors_Is err (Sentinel ErrAmbiguousOutcome)" "\<not> errors_Is err (Sentinel ErrStaleOwner)"
      "errors_Is err (Sentinel ErrContended) \<Longrightarrow> memory_live s (mem_now e) (key_String k) \<noteq> None"
  | (installed) tok where
      "res = Inr \<lparr>rec_Key = k, rec_Owner = ow, rec_Token = tok, rec_AcquiredAt = mem_now e,
         rec_ExpiresAt = time_Add (mem_now e) ttl\<rparr>"
      "s' = s\<lparr>mem_entries := Mapping.update (key_String k)
         \<lparr>entry_record = \<lparr>rec_Key = k, rec_Owner = ow, rec_Token = tok, rec_AcquiredAt = mem_now e,
            rec_ExpiresAt = time_Add (mem_now e) ttl\<rparr>, entry_active = True\<rparr> (mem_entries s)\<rparr>"
      "unat tok = Suc (memory_fence s (key_String k))" "0 < sint ttl"
      "memory_live s (mem_now e) (key_String k) = None"
      "key_String k \<in> Mapping.keys (mem_entries s) \<or>
         \<not> mem_maxKeys s \<le> word_of_nat (Mapping.size (mem_entries s))"
proof (cases "memory_validate (mem_ctx e) k ow ttl")
  case (Some err)
  with assms memory_validate_class [OF Some] show ?thesis
    by (intro refused [of err]) (auto simp: memory_TryAcquire_def split: if_splits)
next
  case None
  note ok = None memory_validate_ok [OF None]
  show ?thesis
  proof (cases "Mapping.lookup (mem_entries s) (key_String k)")
    case None
    then have "key_String k \<notin> Mapping.keys (mem_entries s)"
      by (simp add: keys_dom_lookup domIff)
    with None assms ok show ?thesis
      by (auto simp: memory_TryAcquire_def Let_def zero_entry_def zero_Record_def memory_live_def
          memory_fence_def split: if_splits intro: refused installed)
  next
    case (Some c)
    then have "key_String k \<in> Mapping.keys (mem_entries s)" by (simp add: keys_dom_lookup domI)
    with Some assms ok show ?thesis
      by (auto simp: memory_TryAcquire_def Let_def memory_live_def memory_fence_def unat_succ
          split: if_splits intro: refused installed)
  qed
qed

lemma memory_renew_cases:
  assumes "memory_Renew e r ttl s = (res, s')"
  obtains (refused) err where "res = Inl err" "s' = s"
      "errors_Is err (Sentinel ErrStaleOwner) \<Longrightarrow>
         memory_live s (mem_now e) (key_String (rec_Key r)) \<noteq> Some (rec_Owner r, rec_Token r)"
  | (extended) c where
      "Mapping.lookup (mem_entries s) (key_String (rec_Key r)) = Some c" "entry_active c"
      "sameOwner (entry_record c) r" "mem_now e < rec_ExpiresAt (entry_record c)"
      "res = Inr ((entry_record c)\<lparr>rec_ExpiresAt := time_Add (mem_now e) ttl\<rparr>)"
      "s' = s\<lparr>mem_entries := Mapping.update (key_String (rec_Key r))
         (c\<lparr>entry_record := (entry_record c)\<lparr>rec_ExpiresAt := time_Add (mem_now e) ttl\<rparr>\<rparr>)
         (mem_entries s)\<rparr>"
proof (cases "memory_validate (mem_ctx e) (rec_Key r) (rec_Owner r) ttl")
  case (Some err)
  with assms memory_validate_class [OF Some] show ?thesis
    by (intro refused [of err]) (auto simp: memory_Renew_def split: if_splits)
next
  case None
  with assms show ?thesis
    by (auto simp: memory_Renew_def Let_def memory_live_def sameOwner_def
        split: if_splits option.splits intro: refused extended)
qed

lemma memory_validate_cases:
  assumes "memory_Validate e r s = (res, s')"
  obtains (refused) err where "res = Inl err" "s' = s"
      "errors_Is err (Sentinel ErrStaleOwner) \<Longrightarrow>
         memory_live s (mem_now e) (key_String (rec_Key r)) \<noteq> Some (rec_Owner r, rec_Token r)"
  | (valid) c where
      "Mapping.lookup (mem_entries s) (key_String (rec_Key r)) = Some c" "entry_active c"
      "sameOwner (entry_record c) r" "mem_now e < rec_ExpiresAt (entry_record c)"
      "res = Inr (entry_record c)" "s' = s"
proof (cases "memory_validateIdentity (mem_ctx e) (rec_Key r) (rec_Owner r) (rec_Token r)")
  case (Some err)
  with assms memory_validateIdentity_class [OF Some] show ?thesis
    by (intro refused [of err]) (auto simp: memory_Validate_def split: if_splits)
next
  case None
  with assms show ?thesis
    by (auto simp: memory_Validate_def memory_live_def sameOwner_def
        split: if_splits option.splits intro: refused valid)
qed

lemma memory_release_cases:
  assumes "memory_Release e r s = (res, s')"
  obtains (refused) err where "res = Some err" "s' = s"
  | (inactive) c where
      "Mapping.lookup (mem_entries s) (key_String (rec_Key r)) = Some c" "\<not> entry_active c"
      "sameOwner (entry_record c) r" "res = None" "s' = s"
  | (released) c where
      "Mapping.lookup (mem_entries s) (key_String (rec_Key r)) = Some c" "entry_active c"
      "sameOwner (entry_record c) r" "res = None"
      "s' = s\<lparr>mem_entries := Mapping.update (key_String (rec_Key r)) (c\<lparr>entry_active := False\<rparr>)
         (mem_entries s)\<rparr>"
proof (cases "memory_validateIdentity (mem_ctx e) (rec_Key r) (rec_Owner r) (rec_Token r)")
  case (Some err)
  with assms show ?thesis by (intro refused [of err]) (auto simp: memory_Release_def)
next
  case ok: None
  show ?thesis
  proof (cases "Mapping.lookup (mem_entries s) (key_String (rec_Key r))")
    case None
    with assms ok show ?thesis by (auto simp: memory_Release_def intro: refused)
  next
    case (Some c)
    with assms ok show ?thesis
      by (cases "entry_active c"; cases "sameOwner (entry_record c) r")
        (auto simp: memory_Release_def intro: refused inactive [of c] released [of c])
  qed
qed

section \<open>The memory store is a lease backend\<close>

lemma memory_live_update [simp]:
  "memory_live (s\<lparr>mem_entries := Mapping.update k c (mem_entries s)\<rparr>) t i =
     (if i = k then if entry_active c \<and> t < rec_ExpiresAt (entry_record c)
        then Some (rec_Owner (entry_record c), rec_Token (entry_record c)) else None
      else memory_live s t i)"
  by (simp add: memory_live_def lookup_update')

lemma memory_fence_update [simp]:
  "memory_fence (s\<lparr>mem_entries := Mapping.update k c (mem_entries s)\<rparr>) i =
     (if i = k then unat (rec_Token (entry_record c)) else memory_fence s i)"
  by (simp add: memory_fence_def lookup_update')

lemma memory_invar_update:
  assumes "memory_invar s"
    and "key_String (rec_Key (entry_record c)) = k" and "rec_Token (entry_record c) \<noteq> 0"
    and "k \<in> Mapping.keys (mem_entries s) \<or>
      \<not> mem_maxKeys s \<le> word_of_nat (Mapping.size (mem_entries s))"
  shows "memory_invar (s\<lparr>mem_entries := Mapping.update k c (mem_entries s)\<rparr>)"
proof -
  let ?m = "mem_entries s"
  have fin: "finite (Mapping.keys ?m)" and cap: "Mapping.size ?m \<le> unat (mem_maxKeys s)"
    using assms(1) by (simp_all add: memory_invar_def)
  have "Mapping.size (Mapping.update k c ?m) \<le> unat (mem_maxKeys s)"
  proof (cases "k \<in> Mapping.keys ?m")
    case True
    with fin cap show ?thesis by (simp add: size_def insert_absorb Mapping.size_def)
  next
    case False
    with assms(4) have "word_of_nat (Mapping.size ?m) < mem_maxKeys s" by simp
    moreover have "unat (mem_maxKeys s) < 2 ^ 32"
      using unsigned_less [of "mem_maxKeys s"] by simp
    with cap have "unat (word_of_nat (Mapping.size ?m) :: uint32) = Mapping.size ?m"
      by (simp add: unsigned_of_nat take_bit_nat_eq_self)
    ultimately have "Mapping.size ?m < unat (mem_maxKeys s)" by (simp add: word_less_nat_alt)
    with False fin show ?thesis by (simp add: Mapping.size_def)
  qed
  with assms fin show ?thesis
    by (auto simp: memory_invar_def lookup_update' split: if_splits)
qed

lemma memory_backend_simps [simp]:
  "be_TryAcquire memory_backend = memory_TryAcquire" "be_Renew memory_backend = memory_Renew"
  "be_Validate memory_backend = memory_Validate" "be_Release memory_backend = memory_Release"
  by (simp_all add: memory_backend_def)

text \<open>One lemma per kind of step, in terms of the view of the key it names.\<close>

lemma memory_invarD:
  "memory_invar s \<Longrightarrow> Mapping.lookup (mem_entries s) k = Some c \<Longrightarrow>
   key_String (rec_Key (entry_record c)) = k \<and> rec_Token (entry_record c) \<noteq> 0 \<and>
   k \<in> Mapping.keys (mem_entries s)"
  by (auto simp: memory_invar_def keys_dom_lookup domIff)

lemma memory_call_refines:
  assumes inv: "memory_invar s" and step: "backend_call memory_backend e c s = (rep, s')"
  defines "i \<equiv> key_String (call_key c)"
  shows "memory_invar s'"
    and "spec_step (mem_now e) (mem_now e) c (memory_fence s i, \<lambda>t. memory_live s t i)
           (memory_fence s' i, \<lambda>t. memory_live s' t i)"
    and "j \<noteq> i \<Longrightarrow> memory_fence s' j = memory_fence s j \<and> memory_live s' t j = memory_live s t j"
proof -
  have "memory_invar s' \<and>
    spec_step (mem_now e) (mem_now e) c (memory_fence s i, \<lambda>t. memory_live s t i)
      (memory_fence s' i, \<lambda>t. memory_live s' t i) \<and>
    (\<forall>j t. j \<noteq> i \<longrightarrow> memory_fence s' j = memory_fence s j \<and> memory_live s' t j = memory_live s t j)"
  proof (cases c)
    case (CallAcquire k ow ttl)
    from step CallAcquire obtain res where "memory_TryAcquire e k ow ttl s = (res, s')"
      by (cases "memory_TryAcquire e k ow ttl s") auto
    then show ?thesis
    proof (cases rule: memory_acquire_cases)
      case refused
      with inv show ?thesis by (simp add: spec_step.unchanged)
    next
      case (installed tok)
      then have "memory_invar s'"
        using inv by (auto intro!: memory_invar_update)
      moreover have "spec_step (mem_now e) (mem_now e) (CallAcquire k ow ttl)
          (memory_fence s i, \<lambda>t. memory_live s t i)
          (unat tok, \<lambda>t. memory_live s' t i)"
        using installed CallAcquire
        by (intro spec_step.install) (auto simp: only_holder_def i_def)
      ultimately show ?thesis using installed CallAcquire by (simp add: i_def)
    qed
  next
    case (CallRenew r ttl)
    from step CallRenew obtain res where "memory_Renew e r ttl s = (res, s')"
      by (cases "memory_Renew e r ttl s") auto
    then show ?thesis
    proof (cases rule: memory_renew_cases)
      case refused
      with inv show ?thesis by (simp add: spec_step.unchanged)
    next
      case (extended d)
      have "memory_invar s'"
        using inv extended memory_invarD [OF inv extended(1)] by (auto intro!: memory_invar_update)
      moreover have "memory_fence s' i = memory_fence s i"
        using extended CallRenew by (simp add: i_def memory_fence_def)
      moreover have "spec_step (mem_now e) (mem_now e) (CallRenew r ttl)
          (memory_fence s i, \<lambda>t. memory_live s t i) (memory_fence s i, \<lambda>t. memory_live s' t i)"
        using extended CallRenew
        by (intro spec_step.extend) (auto simp: only_holder_def i_def memory_live_def sameOwner_def)
      ultimately show ?thesis using extended CallRenew by (simp add: i_def)
    qed
  next
    case (CallValidate r)
    from step CallValidate obtain res where "memory_Validate e r s = (res, s')"
      by (cases "memory_Validate e r s") auto
    then show ?thesis
      by (cases rule: memory_validate_cases) (simp_all add: inv spec_step.unchanged)
  next
    case (CallRelease r)
    from step CallRelease obtain res where "memory_Release e r s = (res, s')"
      by (cases "memory_Release e r s") auto
    then show ?thesis
    proof (cases rule: memory_release_cases)
      case refused
      with inv show ?thesis by (simp add: spec_step.unchanged)
    next
      case inactive
      with inv show ?thesis by (simp add: spec_step.unchanged)
    next
      case (released d)
      have "memory_invar s'"
        using inv released memory_invarD [OF inv released(1)] by (auto intro!: memory_invar_update)
      moreover have "memory_fence s' i = memory_fence s i"
        using released CallRelease by (simp add: i_def memory_fence_def)
      moreover have "spec_step (mem_now e) (mem_now e) (CallRelease r)
          (memory_fence s i, \<lambda>t. memory_live s t i) (memory_fence s i, \<lambda>t. None)"
        using released CallRelease
        by (intro spec_step.vacate) (auto simp: only_holder_def i_def memory_live_def sameOwner_def)
      ultimately show ?thesis using released CallRelease by (simp add: i_def)
    qed
  qed
  then show "memory_invar s'"
    and "spec_step (mem_now e) (mem_now e) c (memory_fence s i, \<lambda>t. memory_live s t i)
           (memory_fence s' i, \<lambda>t. memory_live s' t i)"
    and "j \<noteq> i \<Longrightarrow> memory_fence s' j = memory_fence s j \<and> memory_live s' t j = memory_live s t j"
    by auto
qed

interpretation mem: lease_backend memory_backend memory_invar key_String memory_live memory_fence
  mem_now mem_now "\<lambda>_. True"
proof (unfold_locales, goal_cases)
  case (1 e)
  show ?case by simp
next
  case (2 e s c rep s')
  then show ?case by (auto intro: memory_call_refines(1))
next
  case (3 e s c rep s')
  then show ?case by (auto intro: memory_call_refines(2))
next
  case (4 e s c rep s' i t)
  then show ?case using memory_call_refines(3) [of s e c rep s' i t] by simp
next
  case (5 s t i ow tok)
  then show ?case by (auto simp: memory_live_def memory_fence_def split: option.splits if_splits)
next
  case (6 s t' i h t)
  then show ?case by (auto simp: memory_live_def split: option.splits if_splits)
next
  case (7 e s k ow ttl r s')
  then obtain res where "memory_TryAcquire e k ow ttl s = (res, s')" "reply_of res = Got r"
    by (cases "memory_TryAcquire e k ow ttl s") auto
  then show ?case
    by (cases rule: memory_acquire_cases) (auto simp: time_Add_def)
next
  case (8 e s k ow ttl err s' t i)
  then obtain res where "memory_TryAcquire e k ow ttl s = (res, s')" "reply_of res = Failed err"
    by (cases "memory_TryAcquire e k ow ttl s") auto
  then show ?case by (cases rule: memory_acquire_cases) auto
next
  case (10 e s k ow ttl err s')
  then obtain res where "memory_TryAcquire e k ow ttl s = (res, s')" "reply_of res = Failed err"
    by (cases "memory_TryAcquire e k ow ttl s") auto
  then show ?case using 10 by (cases rule: memory_acquire_cases) auto
next
  case (9 e s r ttl r' s')
  then obtain res where "memory_Renew e r ttl s = (res, s')" "reply_of res = Got r'"
    by (cases "memory_Renew e r ttl s") auto
  then show ?case using 9(2)
    by (cases rule: memory_renew_cases)
      (auto simp: memory_live_def sameOwner_def dest: memory_invarD)
next
  case (11 e s r r' s')
  then obtain res where "memory_Validate e r s = (res, s')" "reply_of res = Got r'"
    by (cases "memory_Validate e r s") auto
  then show ?case using 11(2)
    by (cases rule: memory_validate_cases)
      (auto simp: memory_live_def sameOwner_def dest: memory_invarD)
next
  case (12 e s c err s' r ttl)
  from 12(5) show ?case
  proof
    assume c: "c = CallRenew r ttl"
    with 12 obtain res where "memory_Renew e r ttl s = (res, s')" "reply_of res = Failed err"
      by (cases "memory_Renew e r ttl s") auto
    then show ?thesis using 12(4) by (cases rule: memory_renew_cases) auto
  next
    assume c: "c = CallValidate r"
    with 12 obtain res where "memory_Validate e r s = (res, s')" "reply_of res = Failed err"
      by (cases "memory_Validate e r s") auto
    then show ?thesis using 12(4) by (cases rule: memory_validate_cases) auto
  qed
next
  case (13 e s r s' t)
  then obtain res where "memory_Release e r s = (res, s')" "reply_of_error res = Done"
    by (cases "memory_Release e r s") auto
  then show ?case
    by (cases rule: memory_release_cases) (auto simp: memory_live_def)
qed

section \<open>Properties\<close>

lemma memory_New_invar:
  "memory_New clock_set n = Inr s \<Longrightarrow> memory_invar s \<and> mem_maxKeys s = n \<and> memory_fence s i = 0"
  by (auto simp: memory_New_def memory_invar_def memory_fence_def Mapping.size_def lookup_empty
      split: if_splits)

text \<open>
  Fences of the memory store. Whatever calls any clients make, and however the
  injected clock moves, the tokens the store hands out for one key are strictly
  increasing and above the fence it had retained before.
\<close>

theorem memory_fences_increase:
  assumes "memory_invar s"
  shows "sorted_wrt (<) (memory_fence s i #
    acquired_tokens (\<lambda>k. key_String k = i) (fst (backend_run memory_backend cs s)))"
  using mem.run_tokens_increase [of cs s "fst (backend_run memory_backend cs s)"
      "snd (backend_run memory_backend cs s)" i] assms by simp

text \<open>
  Successor protection in the memory store. After a key has been acquired with a
  fence, and after any further calls, a record of that key with an older fence is neither
  renewed nor validated, and releasing it changes neither the holder nor the fence of any
  key.
\<close>

theorem memory_successor_protected:
  assumes "memory_invar s"
    and "memory_TryAcquire e1 k ow ttl s = (Inr r2, s1)"
    and "backend_run memory_backend cs s1 = (tr, s2)"
    and "key_String (rec_Key r1) = key_String k" and "unat (rec_Token r1) < unat (rec_Token r2)"
  shows "fst (memory_Renew e r1 ttl' s2) \<noteq> Inr r' \<and> fst (memory_Validate e r1 s2) \<noteq> Inr r' \<and>
    memory_live (snd (memory_Release e r1 s2)) t i = memory_live s2 t i \<and>
    memory_fence (snd (memory_Release e r1 s2)) i = memory_fence s2 i"
proof -
  have got: "backend_call memory_backend e1 (CallAcquire k ow ttl) s = (Got r2, s1)" using assms(2) by simp
  show ?thesis using mem.successor_protected [OF TrueI assms(1) got assms(3) _ assms(4,5) TrueI] by simp
qed

text \<open>
  Exclusion in the memory store. While the clock readings of all calls stay before the
  expiry of an acquired lease and its holder neither renews nor releases it, no other
  acquisition of the key succeeds and the holder still owns it at every instant before
  that expiry.
\<close>

theorem memory_exclusive:
  assumes "memory_invar s"
    and "memory_TryAcquire e1 k ow ttl s = (Inr r, s1)"
    and "backend_run memory_backend cs s1 = (tr, s2)"
    and "\<forall>(e, c, rep) \<in> set tr. mem_now e < rec_ExpiresAt r \<and>
           \<not> (call_by (ow, rec_Token r) c \<and> key_String (call_key c) = key_String k)"
  shows "acquired_tokens (\<lambda>k'. key_String k' = key_String k) tr = [] \<and>
    (\<forall>t < rec_ExpiresAt r. memory_live s2 t (key_String k) = Some (ow, rec_Token r))"
proof -
  have got: "backend_call memory_backend e1 (CallAcquire k ow ttl) s = (Got r, s1)" using assms(2) by simp
  show ?thesis using mem.exclusive_until_expiry [OF TrueI assms(1) got assms(3) _ assms(4)] by simp
qed

lemma memory_maxKeys_call:
  "backend_call memory_backend e c s = (rep, s') \<Longrightarrow> mem_maxKeys s' = mem_maxKeys s"
  by (cases c) (auto simp: lease_defs Let_def split: option.splits if_splits)

lemma memory_maxKeys_run:
  "backend_run memory_backend cs s = (tr, s') \<Longrightarrow> mem_maxKeys s' = mem_maxKeys s"
proof (induction cs arbitrary: s tr)
  case (Cons ec cs)
  then show ?case by (cases ec) (auto split: prod.splits dest!: memory_maxKeys_call)
qed simp

text \<open>
  Capacity of the memory store. From construction on, whatever is called, the store
  holds at most the configured number of keys, none of which it forgets: the fence of a
  key never falls.
\<close>

theorem memory_capacity:
  assumes "memory_New clock_set n = Inr s0" and "backend_run memory_backend cs s0 = (tr, s)"
    and "backend_run memory_backend cs' s = (tr', s')"
  shows "Mapping.size (mem_entries s) \<le> unat n \<and> memory_fence s i \<le> memory_fence s' i"
proof -
  have inv: "memory_invar s" using mem.run_invar [OF assms(2)] memory_New_invar [OF assms(1)] by simp
  have "mem_maxKeys s = n"
    using memory_maxKeys_run [OF assms(2)] memory_New_invar [OF assms(1)] by simp
  then show ?thesis
    using inv mem.run_fence_mono [OF assms(3) inv] by (simp add: memory_invar_def)
qed

section \<open>Witnesses\<close>

definition ex_key :: Key where "ex_key = \<lparr>key_value = ''a/b''\<rparr>"

definition ex_env :: "instant \<Rightarrow> mem_env" where "ex_env t = \<lparr>mem_now = t, mem_ctx = None\<rparr>"

definition ex_record :: "string \<Rightarrow> Token \<Rightarrow> instant \<Rightarrow> instant \<Rightarrow> Record" where
  "ex_record ow tok a b = \<lparr>rec_Key = ex_key, rec_Owner = ow, rec_Token = tok,
     rec_AcquiredAt = a, rec_ExpiresAt = b\<rparr>"

definition ex_store :: mem_store where
  "ex_store = \<lparr>mem_maxKeys = 2, mem_entries = Mapping.empty\<rparr>"

definition ex_store1 :: mem_store where
  "ex_store1 = snd (memory_TryAcquire (ex_env 10) ex_key ''x'' 100 ex_store)"

definition ex_store2 :: mem_store where
  "ex_store2 = snd (memory_TryAcquire (ex_env 200) ex_key ''y'' 100 ex_store1)"

lemma ex_store_New: "memory_New True 2 = Inr ex_store"
  by (simp add: memory_New_def ex_store_def)

lemma ex_store_invar: "memory_invar ex_store" "memory_invar ex_store1"
proof -
  show inv: "memory_invar ex_store" using memory_New_invar [OF ex_store_New] by simp
  show "memory_invar ex_store1"
    using mem.invar_call [OF TrueI inv, of "ex_env 10" "CallAcquire ex_key ''x'' 100"]
    by (simp add: ex_store1_def prod.case_eq_if map_prod_def)
qed

definition ex_calls :: "(mem_env \<times> call) list" where
  "ex_calls = [(ex_env 20, CallAcquire ex_key ''y'' 100), (ex_env 30, CallValidate (ex_record ''x'' 1 10 110)),
     (ex_env 200, CallAcquire ex_key ''y'' 100)]"

theorem memory_fences_increase_witness:
  "sorted_wrt (<) (memory_fence ex_store ''a/b'' #
     acquired_tokens (\<lambda>k. key_String k = ''a/b'') (fst (backend_run memory_backend ex_calls ex_store)))
   \<and> acquired_tokens (\<lambda>k. key_String k = ''a/b'') (fst (backend_run memory_backend ex_calls ex_store1)) = [2]"
proof
  show "sorted_wrt (<) (memory_fence ex_store ''a/b'' #
     acquired_tokens (\<lambda>k. key_String k = ''a/b'') (fst (backend_run memory_backend ex_calls ex_store)))"
    by (rule memory_fences_increase [OF ex_store_invar(1)])
  show "acquired_tokens (\<lambda>k. key_String k = ''a/b'') (fst (backend_run memory_backend ex_calls ex_store1)) = [2]"
    by code_simp
qed

theorem memory_successor_protected_witness:
  "fst (memory_Renew (ex_env 210) (ex_record ''x'' 1 10 110) 50 ex_store2) \<noteq> Inr (ex_record ''x'' 1 10 260) \<and>
   fst (memory_Validate (ex_env 210) (ex_record ''x'' 1 10 110) ex_store2) \<noteq> Inr (ex_record ''x'' 1 10 260) \<and>
   memory_live (snd (memory_Release (ex_env 210) (ex_record ''x'' 1 10 110) ex_store2)) 210 ''a/b'' =
     memory_live ex_store2 210 ''a/b'' \<and>
   memory_fence (snd (memory_Release (ex_env 210) (ex_record ''x'' 1 10 110) ex_store2)) ''a/b'' =
     memory_fence ex_store2 ''a/b''"
proof -
  have got: "memory_TryAcquire (ex_env 200) ex_key ''y'' 100 ex_store1 =
      (Inr (ex_record ''y'' 2 200 300), ex_store2)"
    unfolding prod_eq_iff ex_store2_def by (rule conjI, code_simp, simp)
  have run: "backend_run memory_backend [] ex_store2 = ([], ex_store2)" by simp
  show ?thesis
    by (rule memory_successor_protected [OF ex_store_invar(2) got run])
      (simp_all add: ex_record_def)
qed

theorem memory_exclusive_witness:
  "acquired_tokens (\<lambda>k'. key_String k' = key_String ex_key)
     [(ex_env 20, CallAcquire ex_key ''y'' 100, Failed (Wrap (Sentinel ErrContended) ''try acquire''))] = [] \<and>
   memory_live ex_store1 50 (key_String ex_key) = Some (''x'', 1)"
proof -
  have got: "memory_TryAcquire (ex_env 10) ex_key ''x'' 100 ex_store =
      (Inr (ex_record ''x'' 1 10 110), ex_store1)"
    unfolding prod_eq_iff ex_store1_def by (rule conjI, code_simp, simp)
  have refused: "memory_TryAcquire (ex_env 20) ex_key ''y'' 100 ex_store1 =
      (Inl (Wrap (Sentinel ErrContended) ''try acquire''), ex_store1)"
    by code_simp
  have run: "backend_run memory_backend [(ex_env 20, CallAcquire ex_key ''y'' 100)] ex_store1 =
      ([(ex_env 20, CallAcquire ex_key ''y'' 100, Failed (Wrap (Sentinel ErrContended) ''try acquire''))], ex_store1)"
    by (simp add: refused)
  show ?thesis
    using memory_exclusive [OF ex_store_invar(1) got run] by (simp add: ex_record_def ex_env_def)
qed

theorem memory_capacity_witness:
  "Mapping.size (mem_entries ex_store1) \<le> unat (2 :: uint32) \<and>
   memory_fence ex_store1 ''a/b'' \<le> memory_fence ex_store2 ''a/b''"
proof -
  have one: "\<exists>tr. backend_run memory_backend [(ex_env 10, CallAcquire ex_key ''x'' 100)] ex_store = (tr, ex_store1)"
    by (simp add: ex_store1_def prod.case_eq_if map_prod_def)
  have two: "\<exists>tr. backend_run memory_backend [(ex_env 200, CallAcquire ex_key ''y'' 100)] ex_store1 = (tr, ex_store2)"
    by (simp add: ex_store2_def prod.case_eq_if map_prod_def)
  from one two show ?thesis using memory_capacity [OF ex_store_New] by blast
qed

section \<open>Refinement\<close>

text \<open>
  Every operation of the memory store is a step of the documented state machine on the
  identity of its key, leaves every other identity as it was, and keeps the store's
  invariant.
\<close>

theorem memory_refines:
  assumes "memory_invar s" and "backend_call memory_backend e c s = (rep, s')"
  shows "memory_invar s' \<and>
    spec_step (mem_now e) (mem_now e) c
      (memory_fence s (key_String (call_key c)), \<lambda>t. memory_live s t (key_String (call_key c)))
      (memory_fence s' (key_String (call_key c)), \<lambda>t. memory_live s' t (key_String (call_key c))) \<and>
    (i = key_String (call_key c) \<or> memory_fence s' i = memory_fence s i \<and> memory_live s' t i = memory_live s t i)"
  using mem.invar_call [OF TrueI assms] mem.simulates [OF TrueI assms] mem.frame [OF TrueI assms, of i t] by blast

theorem memory_refines_witness:
  "memory_invar (snd (backend_call memory_backend (ex_env 20) (CallAcquire ex_key ''z'' 100) ex_store1))"
  using memory_refines [OF ex_store_invar(2) surjective_pairing] by blast

section \<open>Progress\<close>

definition memory_calm :: "mem_env \<Rightarrow> bool" where
  "memory_calm e \<longleftrightarrow> mem_ctx e = None"

definition memory_input :: "Key \<Rightarrow> string \<Rightarrow> Token \<Rightarrow> duration \<Rightarrow> bool" where
  "memory_input k ow tok ttl \<longleftrightarrow> memory_validate None k ow ttl = None \<and> memory_validateIdentity None k ow tok = None"

definition memory_room :: "nat \<Rightarrow> mem_store \<Rightarrow> Key \<Rightarrow> bool" where
  "memory_room n s k \<longleftrightarrow> memory_fence s (key_String k) + n < 2 ^ 64 \<and>
     (key_String k \<in> Mapping.keys (mem_entries s) \<or> Mapping.size (mem_entries s) < unat (mem_maxKeys s))"

lemma memory_has_room:
  assumes "memory_invar s" "memory_room n s k" "key_String k \<notin> Mapping.keys (mem_entries s)"
  shows "\<not> mem_maxKeys s \<le> word_of_nat (Mapping.size (mem_entries s))"
proof -
  have "Mapping.size (mem_entries s) < unat (mem_maxKeys s)" using assms by (simp add: memory_room_def)
  moreover have "unat (mem_maxKeys s) < 2 ^ 32" using unsigned_less [of "mem_maxKeys s"] by simp
  ultimately show ?thesis by (simp add: word_le_nat_alt unsigned_of_nat take_bit_nat_eq_self)
qed

interpretation memp: lease_progress memory_backend memory_invar key_String memory_live memory_fence
  mem_now mem_now "\<lambda>_. True" memory_calm memory_input memory_room "\<lambda>_ _ _. True"
  "\<lambda>e ttl. mem_now e + sint ttl" "\<lambda>e ttl. mem_now e + sint ttl"
proof (unfold_locales, goal_cases)
  case (2 s k ow ttl tok)
  then show ?case by (auto simp: memory_input_def memory_validateIdentity_def unat_gt_0 split: if_splits)
next
  case (4 e s k ow ttl n)
  let ?slot = "Mapping.lookup (mem_entries s) (key_String k)"
  have valid: "memory_validate (mem_ctx e) k ow ttl = None" using 4 by (simp add: memory_calm_def memory_input_def)
  note ok = memory_validate_ok [OF valid]
  have free: "\<not> (?slot = None \<and> mem_maxKeys s \<le> word_of_nat (Mapping.size (mem_entries s)))"
    using memory_has_room [OF 4(2,4)] by (auto simp: keys_dom_lookup domIff)
  have below: "memory_fence s (key_String k) + Suc n < 2 ^ 64" using 4(4) by (simp add: memory_room_def)
  define tok where "tok = (case ?slot of None \<Rightarrow> 0 | Some c \<Rightarrow> rec_Token (entry_record c))"
  have fence: "unat tok = memory_fence s (key_String k)" by (simp add: tok_def memory_fence_def split: option.splits)
  have top: "tok \<noteq> - 1" using below fence by (auto simp: unsigned_minus_1_eq_mask mask_eq_exp_minus_1)
  let ?r = "\<lparr>rec_Key = k, rec_Owner = ow, rec_Token = tok + 1, rec_AcquiredAt = mem_now e,
    rec_ExpiresAt = time_Add (mem_now e) ttl\<rparr>"
  let ?s' = "s\<lparr>mem_entries := Mapping.update (key_String k) \<lparr>entry_record = ?r, entry_active = True\<rparr> (mem_entries s)\<rparr>"
  have "memory_TryAcquire e k ow ttl s = (Inr ?r, ?s')"
    using valid free top 4(5)
    by (cases ?slot) (auto simp: memory_TryAcquire_def Let_def tok_def memory_live_def zero_entry_def zero_Record_def)
  moreover have "memory_room n ?s' k"
    using below fence unat_succ [OF top] by (simp add: memory_room_def keys_update)
  ultimately show ?case using ok by (auto simp: time_Add_def)
next
  case (5 e s k ow ttl n)
  have valid: "memory_validate (mem_ctx e) k ow ttl = None" using 5 by (simp add: memory_calm_def memory_input_def)
  with 5 show ?case
    by (auto simp: memory_TryAcquire_def memory_live_def memory_room_def Let_def split: option.splits if_splits)
next
  case (6 e s r ttl)
  have valid: "memory_validate (mem_ctx e) (rec_Key r) (rec_Owner r) ttl = None" "rec_Token r \<noteq> 0"
    using 6(1,3) by (auto simp: memory_calm_def memory_input_def memory_validateIdentity_def split: if_splits)
  with 6 show ?case
    by (auto simp: memory_Renew_def memory_live_def memory_room_def memory_fence_def Let_def sameOwner_def time_Add_def
        lookup_update' keys_update keys_dom_lookup split: option.splits if_splits)
next
  case (7 e s r ttl)
  have valid: "memory_validate (mem_ctx e) (rec_Key r) (rec_Owner r) ttl = None" "rec_Token r \<noteq> 0"
    using 7(1,3) by (auto simp: memory_calm_def memory_input_def memory_validateIdentity_def split: if_splits)
  with 7 show ?case
    by (auto simp: memory_Renew_def memory_live_def Let_def sameOwner_def split: option.splits if_splits)
next
  case (8 e s r)
  then show ?case
    by (auto simp: memory_Validate_def memory_live_def memory_calm_def memory_input_def sameOwner_def
        split: option.splits if_splits)
next
  case (9 e s r)
  then show ?case
    by (auto simp: memory_Validate_def memory_live_def memory_calm_def memory_input_def sameOwner_def
        split: option.splits if_splits)
next
  case (10 e s r)
  then show ?case
    by (auto simp: memory_Release_def memory_live_def memory_calm_def memory_input_def sameOwner_def
        split: option.splits if_splits)
next
  case (11 e s r h)
  then show ?case
    by (auto simp: memory_Release_def memory_live_def memory_calm_def memory_input_def sameOwner_def
        split: option.splits if_splits)
next
  case (12 e e' s r s')
  then have ctx: "mem_ctx e = None" "mem_ctx e' = None" by (simp_all add: memory_calm_def)
  have "memory_Release e r s = (None, s')" using 12(5) by simp
  then show ?case
    by (cases rule: memory_release_cases) (use ctx 12(5) in \<open>auto simp: memory_Release_def sameOwner_def lookup_update' split: option.splits if_splits\<close>)
qed simp_all

end
