(* ===== verification/Lease_Client.thy ===== *)
theory Lease_Client
  imports Lease_Handle Memory_Store
begin

text \<open>
  \<^verbatim>\<open>client.go\<close>: acquisition of handles. The injected sources (clock, owners, sleeper, retry
  jitter) and the states of the contexts are arguments, one record per attempt; the retry
  loop runs on the 32-bit attempt counter of the code and terminates for every policy.
\<close>

section \<open>The default sources\<close>

definition io_ReadFull :: "nat \<Rightarrow> 8 word list \<Rightarrow> 8 word list result" where
  "io_ReadFull n available =
     (if n \<le> length available then Inr (take n available) else Inl (Opaque ''unexpected EOF'' []))"

definition base64_alphabet :: string where
  "base64_alphabet = ''ABCDEFGHIJKLMNOPQRSTUVWXYZabcdefghijklmnopqrstuvwxyz0123456789-_''"

definition base64_char :: "nat \<Rightarrow> char" where
  "base64_char v = base64_alphabet ! (v mod 64)"

text \<open>\<^verbatim>\<open>base64.RawURLEncoding\<close>: three bytes are four characters, without padding at the end.\<close>

fun RawURLEncoding :: "8 word list \<Rightarrow> string" where
  "RawURLEncoding (a # b # c # rest) =
     (let v = unat a * 65536 + unat b * 256 + unat c
      in [base64_char (v div 262144), base64_char (v div 4096), base64_char (v div 64), base64_char v]
         @ RawURLEncoding rest)"
| "RawURLEncoding [a, b] =
     (let v = unat a * 65536 + unat b * 256
      in [base64_char (v div 262144), base64_char (v div 4096), base64_char (v div 64)])"
| "RawURLEncoding [a] =
     (let v = unat a * 65536 in [base64_char (v div 262144), base64_char (v div 4096)])"
| "RawURLEncoding [] = []"

definition randomOwners_NewOwner :: "8 word list \<Rightarrow> string result" where
  "randomOwners_NewOwner reader =
     (case io_ReadFull 24 reader of Inl err \<Rightarrow> Inl err | Inr bytes \<Rightarrow> Inr (RawURLEncoding bytes))"

definition binary_Uint64 :: "8 word list \<Rightarrow> 64 word" where
  "binary_Uint64 bytes = foldl (\<lambda>acc b. acc * 256 + ucast b) 0 bytes"

definition randomRetry_Jitter :: "8 word list \<Rightarrow> duration \<Rightarrow> duration" where
  "randomRetry_Jitter reader maximum =
     (if maximum <s Nanosecond then 0
      else (case io_ReadFull 8 reader of Inl err \<Rightarrow> 0 | Inr bytes \<Rightarrow> binary_Uint64 bytes mod (maximum + 1)))"

text \<open>The timer or the context, whichever the select of \<^verbatim>\<open>timerSleeper.Sleep\<close> takes.\<close>

datatype sleep_event = TimerFired | ContextDone ctx_error

fun timerSleeper_Sleep :: "sleep_event \<Rightarrow> gerror option" where
  "timerSleeper_Sleep (ContextDone cerr) = Some (CtxError cerr)"
| "timerSleeper_Sleep TimerFired = None"

section \<open>Clients\<close>

definition MaxClientWaiters :: uint32 where "MaxClientWaiters = 1000000"
definition MaxClientManaged :: uint32 where "MaxClientManaged = 100000"

text \<open>
  The four sources a client borrows. A value is the default implementation or one injected by
  the caller, of which only the answers are known.
\<close>

datatype ClockSource = wallClock | InjectedClock instant
datatype OwnerSource = randomOwners "8 word list" | InjectedOwners "string result"
datatype Sleeper = timerSleeper | InjectedSleeper "duration \<Rightarrow> gerror option"
datatype RetrySource = randomRetry "8 word list" | InjectedRetry "duration \<Rightarrow> duration"

fun clock_Now :: "instant \<Rightarrow> ClockSource \<Rightarrow> instant" where
  "clock_Now wall wallClock = wall"
| "clock_Now wall (InjectedClock t) = t"

fun NewOwner :: "OwnerSource \<Rightarrow> string result" where
  "NewOwner (randomOwners reader) = randomOwners_NewOwner reader"
| "NewOwner (InjectedOwners res) = res"

fun sleeper_Sleep :: "sleep_event \<Rightarrow> duration \<Rightarrow> Sleeper \<Rightarrow> gerror option" where
  "sleeper_Sleep event d timerSleeper = timerSleeper_Sleep event"
| "sleeper_Sleep event d (InjectedSleeper f) = f d"

fun source_Jitter :: "RetrySource \<Rightarrow> duration \<Rightarrow> duration" where
  "source_Jitter (randomRetry reader) maximum = randomRetry_Jitter reader maximum"
| "source_Jitter (InjectedRetry f) maximum = f maximum"

record ClientOptions =
  co_Clock :: "ClockSource option"
  co_Owners :: "OwnerSource option"
  co_Sleeper :: "Sleeper option"
  co_Retry :: "RetrySource option"
  co_MaxWaiters :: uint32
  co_MaxManaged :: uint32

text \<open>The two channels of a client as the slots in use and their capacities.\<close>

record Client =
  cl_clock :: ClockSource
  cl_owners :: OwnerSource
  cl_sleeper :: Sleeper
  cl_retry :: RetrySource
  cl_waiters :: nat
  cl_maxWaiters :: nat
  cl_managed :: nat
  cl_maxManaged :: nat

definition or_default :: "'a \<Rightarrow> 'a option \<Rightarrow> 'a" where
  "or_default d x = (case x of None \<Rightarrow> d | Some y \<Rightarrow> y)"

text \<open>\<open>rand\<close> is what \<^verbatim>\<open>rand.Reader\<close> delivers to the default sources.\<close>

definition NewClient :: "8 word list \<Rightarrow> bool \<Rightarrow> ClientOptions \<Rightarrow> Client result" where
  "NewClient rand backend_set options =
     (if \<not> backend_set then Inl (Fmt '''' (Sentinel ErrInvalidState) '': nil backend'')
      else
        let clock = or_default wallClock (co_Clock options);
            owners = or_default (randomOwners rand) (co_Owners options);
            sleeper = or_default timerSleeper (co_Sleeper options);
            retry = or_default (randomRetry rand) (co_Retry options);
            waiters = (if co_MaxWaiters options = 0 then 1024 else co_MaxWaiters options);
            managed = (if co_MaxManaged options = 0 then 1024 else co_MaxManaged options)
        in if waiters > MaxClientWaiters \<or> managed > MaxClientManaged
           then Inl (Wrap (Sentinel ErrInvalidState) ''client capacity'')
           else Inr \<lparr>cl_clock = clock, cl_owners = owners, cl_sleeper = sleeper, cl_retry = retry,
                     cl_waiters = 0, cl_maxWaiters = unat waiters,
                     cl_managed = 0, cl_maxManaged = unat managed\<rparr>)"

definition zero_ClientOptions :: ClientOptions where
  "zero_ClientOptions = \<lparr>co_Clock = None, co_Owners = None, co_Sleeper = None, co_Retry = None, co_MaxWaiters = 0, co_MaxManaged = 0\<rparr>"

section \<open>Checks\<close>

text \<open>A context argument is \<open>None\<close> for nil and otherwise carries its error.\<close>

definition acquisitionContextError :: "ctx_error option option \<Rightarrow> gerror option" where
  "acquisitionContextError ctx =
     (case ctx of
        None \<Rightarrow> Some (Wrap (Sentinel ErrInvalidState) ''acquire context'')
      | Some (Some cerr) \<Rightarrow> errors_Join [Some (Wrap (Sentinel ErrCanceled) ''acquire''), Some (CtxError cerr)]
      | Some None \<Rightarrow> None)"

definition isContention :: "gerror \<Rightarrow> bool" where
  "isContention err \<longleftrightarrow> errorIs err (Sentinel ErrContended)"

definition waitDeadlineReached :: "ctx_error option \<Rightarrow> ctx_error option \<Rightarrow> bool" where
  "waitDeadlineReached parent waitContext \<longleftrightarrow> parent = None \<and> waitContext = Some DeadlineExceeded"

definition validAcquisition :: "Key \<Rightarrow> string \<Rightarrow> Record \<Rightarrow> bool" where
  "validAcquisition key owner record0 \<longleftrightarrow>
     key_String (rec_Key record0) = key_String key \<and> rec_Owner record0 = owner \<and>
     rec_Token record0 \<noteq> 0 \<and> rec_AcquiredAt record0 < rec_ExpiresAt record0"

definition valid_owner :: "string result \<Rightarrow> bool" where
  "valid_owner res = (case res of Inl err \<Rightarrow> False | Inr owner \<Rightarrow> owner \<noteq> '''' \<and> length owner \<le> 128)"

definition boundedJitter :: "duration \<Rightarrow> duration \<Rightarrow> duration" where
  "boundedJitter jitter maximum = duration_min (duration_max jitter 0) maximum"

section \<open>Acquisition\<close>

text \<open>
  What one attempt meets: the clock readings before the call, the environment of the
  backend call, the errors of the caller's and of the wait context after it, the jitter,
  the clock before sleeping, the result of sleeping and the context errors after it.
\<close>

record 'e attempt =
  at_clocks :: clocks
  at_env :: 'e
  at_ctxErr :: "ctx_error option"
  at_waitErr :: "ctx_error option"
  at_jitter :: duration
  at_now :: instant
  at_sleep :: "gerror option"
  at_ctxErr2 :: "ctx_error option"
  at_waitErr2 :: "ctx_error option"

text \<open>Without a wait budget the wait context is the caller's context.\<close>

definition wait_error :: "Policy \<Rightarrow> ctx_error option \<Rightarrow> ctx_error option \<Rightarrow> ctx_error option" where
  "wait_error policy ctxErr waitErr = (if 0 <s Wait policy then waitErr else ctxErr)"

definition client_TryAcquire ::
  "('e, 's) Backend \<Rightarrow> ctx_error option option \<Rightarrow> string result \<Rightarrow> clocks \<Rightarrow> 'e \<Rightarrow> Key \<Rightarrow> Policy \<Rightarrow> 's \<Rightarrow>
   Handle result \<times> 's" where
  "client_TryAcquire B ctx newOwner c e key policy s =
     (case acquisitionContextError ctx of
        Some err \<Rightarrow> (Inl err, s)
      | None \<Rightarrow>
          if \<not> valid_owner newOwner
          then (Inl (Wrap (Sentinel ErrBackendUnavailable) ''owner generation''), s)
          else (case newOwner of Inl err \<Rightarrow> (Inl err, s) | Inr owner \<Rightarrow>
            (case be_TryAcquire B e key owner (TTL policy) s of
               (Inl err, s1) \<Rightarrow> (Inl err, s1)
             | (Inr record0, s1) \<Rightarrow>
                 if \<not> validAcquisition key owner record0
                 then (Inl (Wrap (Sentinel ErrAmbiguousOutcome) ''acquire response''), s1)
                 else (Inr (newHandleAt policy record0 (clk_now c) (clk_wall c)), s1))))"

lemma attempts_left: "n \<noteq> m \<Longrightarrow> unat (m - (n + 1)) < unat (m - n :: 'a :: len word)"
  using measure_unat [of "m - n"] by (simp add: diff_diff_eq)

function acquire_loop ::
  "('e, 's) Backend \<Rightarrow> Key \<Rightarrow> string \<Rightarrow> Policy \<Rightarrow> instant \<Rightarrow> (uint32 \<Rightarrow> 'e attempt) \<Rightarrow> uint32 \<Rightarrow> 's \<Rightarrow>
   Handle result \<times> 's" where
  "acquire_loop B key owner policy deadline env attempt0 s =
     (let a = env attempt0
      in case be_TryAcquire B (at_env a) key owner (TTL policy) s of
           (Inr record0, s1) \<Rightarrow>
             if \<not> validAcquisition key owner record0
             then (Inl (Wrap (Sentinel ErrAmbiguousOutcome) ''acquire response''), s1)
             else (Inr (newHandleAt policy record0 (clk_now (at_clocks a)) (clk_wall (at_clocks a))), s1)
         | (Inl acquireErr, s1) \<Rightarrow>
             if waitDeadlineReached (at_ctxErr a) (wait_error policy (at_ctxErr a) (at_waitErr a))
             then (Inl (Wrap (Sentinel ErrTimeout) ''acquire''), s1)
             else if \<not> isContention acquireErr then (Inl acquireErr, s1)
             else
               let delay = Retry policy + boundedJitter (at_jitter a) (Jitter policy)
               in if Wait policy = 0 \<or> attempt0 = policy_MaxAttempts policy \<or>
                     \<not> time_Add (at_now a) delay < deadline
                  then (Inl (Wrap (Sentinel ErrTimeout) ''acquire''), s1)
                  else (case at_sleep a of
                      Some sleepErr \<Rightarrow>
                        if waitDeadlineReached (at_ctxErr2 a) (wait_error policy (at_ctxErr2 a) (at_waitErr2 a))
                        then (Inl (Wrap (Sentinel ErrTimeout) ''acquire''), s1)
                        else (Inl (Wrap (Sentinel ErrCanceled) ''acquire''), s1)
                    | None \<Rightarrow> acquire_loop B key owner policy deadline env (attempt0 + 1) s1))"
  by pat_completeness auto
termination
proof (relation "measure (\<lambda>(B, key, owner, policy, deadline, env, attempt0, s).
    unat (policy_MaxAttempts policy - attempt0))", goal_cases)
  case (2 B key owner policy deadline env attempt0 s a y z acquireErr delay)
  then show ?case using attempts_left [of attempt0 "policy_MaxAttempts policy"] by simp
qed simp

declare acquire_loop.simps [simp del]

definition client_Acquire ::
  "('e, 's) Backend \<Rightarrow> Client \<Rightarrow> ctx_error option option \<Rightarrow> string result \<Rightarrow> instant \<Rightarrow> (uint32 \<Rightarrow> 'e attempt) \<Rightarrow>
   Key \<Rightarrow> Policy \<Rightarrow> 's \<Rightarrow> Handle result \<times> 's" where
  "client_Acquire B cl ctx newOwner started env key policy s =
     (case acquisitionContextError ctx of
        Some err \<Rightarrow> (Inl err, s)
      | None \<Rightarrow>
          if cl_waiters cl \<ge> cl_maxWaiters cl
          then (Inl (Wrap (Sentinel ErrBackendUnavailable) ''waiter capacity''), s)
          else if \<not> valid_owner newOwner
          then (Inl (Wrap (Sentinel ErrBackendUnavailable) ''owner generation''), s)
          else (case newOwner of
              Inl err \<Rightarrow> (Inl err, s)
            | Inr owner \<Rightarrow> acquire_loop B key owner policy (time_Add started (Wait policy)) env 1 s))"

section \<open>Jitter and owners\<close>

lemma boundedJitter_bounds:
  assumes "0 \<le> sint maximum"
  shows "0 \<le> sint (boundedJitter j maximum)" "sint (boundedJitter j maximum) \<le> sint maximum"
  using assms by (auto simp: boundedJitter_def duration_min_def duration_max_def word_sless_alt)

lemma uint64_nonneg: "0 \<le> sint (x :: 64 word) \<Longrightarrow> uint x = sint x"
  using sint64_range [of x] by (simp add: uint_sint take_bit_int_eq_self)

lemma sint64_small: "uint (x :: 64 word) < 2 ^ 63 \<Longrightarrow> sint x = uint x"
  using signed_take_bit64_id [of "uint x"] order_trans [OF _ uint_ge_0 [of x], of "- (2 ^ 63)"] by (simp add: sint_uint)

lemma randomRetry_bounds:
  assumes "0 \<le> sint maximum"
  shows "0 \<le> sint (randomRetry_Jitter reader maximum) \<and> sint (randomRetry_Jitter reader maximum) \<le> sint maximum"
proof -
  have m: "uint maximum = sint maximum" "uint maximum < 2 ^ 63"
    using uint64_nonneg [OF assms] sint64_range [of maximum] by simp_all
  have "uint (maximum + 1) = uint maximum + 1"
    using m(2) uint_add_lem [of maximum 1] by simp
  then have "uint (v mod (maximum + 1)) \<le> uint maximum" for v
    using pos_mod_bound [of "uint maximum + 1" "uint v"] by (simp add: uint_mod) 
  then have "sint (v mod (maximum + 1)) = uint (v mod (maximum + 1))" "uint (v mod (maximum + 1)) \<le> sint maximum" for v
    using m sint64_small [of "v mod (maximum + 1)"] order_le_less_trans by metis+
  then show ?thesis using assms by (auto simp: randomRetry_Jitter_def split: sum.splits)
qed

lemma base64_char_eq: "base64_char v = base64_char w \<longleftrightarrow> v mod 64 = w mod 64"
proof -
  have "distinct base64_alphabet" "length base64_alphabet = 64" by code_simp+
  then show ?thesis by (simp add: base64_char_def nth_eq_iff_index_eq)
qed

lemma sextets_eq:
  assumes "v < 16777216" "w < (16777216 :: nat)" "v div 262144 mod 64 = w div 262144 mod 64"
    "v div 4096 mod 64 = w div 4096 mod 64" "v div 64 mod 64 = w div 64 mod 64" "v mod 64 = w mod 64"
  shows "v = w"
proof -
  have split: "u = u div 262144 * 262144 + u div 4096 mod 64 * 4096 + u div 64 mod 64 * 64 + u mod 64" for u :: nat
  proof -
    have "u div 64 div 64 = u div 4096" "u div 4096 div 64 = u div 262144" by (simp_all add: div_mult2_eq [symmetric])
    then show ?thesis
      using div_mult_mod_eq [of u 64] div_mult_mod_eq [of "u div 64" 64] div_mult_mod_eq [of "u div 4096" 64] by linarith
  qed
  have "v div 262144 = w div 262144" using assms(1-3) by (simp add: less_mult_imp_div_less)
  then show ?thesis using split [of v] split [of w] assms(4-6) by simp
qed

lemma unat_byte: "unat (x :: 8 word) < 256"
  using unsigned_less [of x] by simp

lemma bytes_eq:
  fixes a b c a' b' c' :: "8 word"
  assumes "unat a * 65536 + unat b * 256 + unat c = unat a' * 65536 + unat b' * 256 + unat (c' :: 8 word)"
  shows "a = a' \<and> b = b' \<and> c = (c' :: 8 word)"
proof -
  have eq: "(unat a * 256 + unat b) * 256 + unat c = (unat a' * 256 + unat b') * 256 + unat c'"
    using assms by (simp add: algebra_simps)
  have low: "(x * 256 + unat (y :: 8 word)) mod 256 = unat y" "(x * 256 + unat y) div 256 = x" for x y
    using unat_byte [of y] by simp_all
  have c: "unat c = unat c'" "unat a * 256 + unat b = unat a' * 256 + unat b'"
    using arg_cong [OF eq, of "\<lambda>v. v mod 256"] arg_cong [OF eq, of "\<lambda>v. v div 256"] by (simp_all only: low)
  have "unat b = unat b'" "unat a = unat a'"
    using arg_cong [OF c(2), of "\<lambda>v. v mod 256"] arg_cong [OF c(2), of "\<lambda>v. v div 256"] by (simp_all only: low)
  with c(1) show ?thesis by (simp add: word_unat_eq_iff)
qed

lemma RawURLEncoding_length: "length bs = 3 * n \<Longrightarrow> length (RawURLEncoding bs) = 4 * n"
proof (induction bs arbitrary: n rule: RawURLEncoding.induct)
  case (1 a b c rest)
  then obtain m where "n = Suc m" by (cases n) auto
  with 1 show ?case by (simp add: Let_def)
qed (simp_all, presburger+)

lemma RawURLEncoding_inj:
  "length bs = 3 * n \<Longrightarrow> length bs' = 3 * n \<Longrightarrow> RawURLEncoding bs = RawURLEncoding bs' \<Longrightarrow> bs = bs'"
proof (induction bs arbitrary: n bs' rule: RawURLEncoding.induct)
  case (1 a b c rest)
  then obtain m where n: "n = Suc m" by (cases n) auto
  then obtain a' b' c' rest' where bs': "bs' = a' # b' # c' # rest'"
    using 1(3) by (auto simp: length_Suc_conv numeral_3_eq_3)
  let ?v = "unat a * 65536 + unat b * 256 + unat c" and ?w = "unat a' * 65536 + unat b' * 256 + unat c'"
  have lt: "?v < 16777216" "?w < 16777216"
    using unat_byte [of a] unat_byte [of b] unat_byte [of c] unat_byte [of a'] unat_byte [of b'] unat_byte [of c'] by simp_all
  have eqs: "?v div 262144 mod 64 = ?w div 262144 mod 64" "?v div 4096 mod 64 = ?w div 4096 mod 64"
    "?v div 64 mod 64 = ?w div 64 mod 64" "?v mod 64 = ?w mod 64" "RawURLEncoding rest = RawURLEncoding rest'"
    using 1(4) unfolding bs' RawURLEncoding.simps Let_def base64_char_eq [symmetric]
    by (simp_all only: append_Cons append_Nil list.inject)
  have "a = a' \<and> b = b' \<and> c = c'" by (rule bytes_eq [OF sextets_eq [OF lt eqs(1-4)]])
  moreover have "rest = rest'" by (rule 1(1) [OF refl _ _ eqs(5), of m]) (use 1(2,3) n bs' in simp_all)
  ultimately show ?case by (simp add: bs')
next
  case (2 a b)
  then have "2 = 3 * n" by simp
  then have False by presburger
  then show ?case ..
qed auto

text \<open>
  The default owner source turns 24 random bytes into a valid owner of 32 characters,
  different bytes into different owners, and fails only when the reader runs out.
\<close>

theorem randomOwners_distinct:
  "(length reader < 24 \<longrightarrow> \<not> valid_owner (randomOwners_NewOwner reader)) \<and>
   (24 \<le> length reader \<longrightarrow> valid_owner (randomOwners_NewOwner reader) \<and>
     (\<exists>owner. randomOwners_NewOwner reader = Inr owner \<and> length owner = 32)) \<and>
   (24 \<le> length reader \<and> 24 \<le> length reader' \<and> take 24 reader \<noteq> take 24 reader' \<longrightarrow>
     randomOwners_NewOwner reader \<noteq> randomOwners_NewOwner reader')"
proof -
  have len: "length (RawURLEncoding (take 24 r)) = 32" if "24 \<le> length r" for r
    using RawURLEncoding_length [of "take 24 r" 8] that by simp
  have "take 24 reader = take 24 reader'"
    if "24 \<le> length reader" "24 \<le> length reader'" "RawURLEncoding (take 24 reader) = RawURLEncoding (take 24 reader')"
    using RawURLEncoding_inj [of "take 24 reader" 8 "take 24 reader'"] that by simp
  then show ?thesis using len [of reader]
    by (auto simp: randomOwners_NewOwner_def io_ReadFull_def valid_owner_def)
qed

lemma RawURLEncoding_chars: "set (RawURLEncoding bs) \<subseteq> set base64_alphabet"
proof -
  have "length base64_alphabet = 64" by code_simp
  then have "base64_char v \<in> set base64_alphabet" for v by (simp add: base64_char_def)
  then show ?thesis by (induction bs rule: RawURLEncoding.induct) (simp_all add: Let_def)
qed

text \<open>
  A client made from the zero options reads the wall clock, has a valid identity for an
  acquisition exactly when the random reader delivers, jitters within the bound asked for, and
  sleeps until its timer or its context ends.
\<close>

definition default_client :: "8 word list \<Rightarrow> Client" where
  "default_client rand = \<lparr>cl_clock = wallClock, cl_owners = randomOwners rand, cl_sleeper = timerSleeper, cl_retry = randomRetry rand,
     cl_waiters = 0, cl_maxWaiters = 1024, cl_managed = 0, cl_maxManaged = 1024\<rparr>"

lemma NewClient_zero: "NewClient rand True zero_ClientOptions = Inr (default_client rand)"
  by (simp add: NewClient_def Let_def zero_ClientOptions_def or_default_def default_client_def MaxClientWaiters_def
      MaxClientManaged_def word_less_nat_alt)

lemma default_client_sources:
  shows "clock_Now wall (cl_clock (default_client rand)) = wall"
    and "valid_owner (NewOwner (cl_owners (default_client rand))) \<longleftrightarrow> 24 \<le> length rand"
    and "0 \<le> sint maximum \<Longrightarrow> 0 \<le> sint (source_Jitter (cl_retry (default_client rand)) maximum) \<and>
      sint (source_Jitter (cl_retry (default_client rand)) maximum) \<le> sint maximum"
    and "sleeper_Sleep event d (cl_sleeper (default_client rand)) = None \<longleftrightarrow> event = TimerFired"
proof -
  show "clock_Now wall (cl_clock (default_client rand)) = wall" by (simp add: default_client_def)
  have "24 \<le> length rand \<Longrightarrow> length (RawURLEncoding (take 24 rand)) = 32"
    using RawURLEncoding_length [of "take 24 rand" 8] by simp
  then show "valid_owner (NewOwner (cl_owners (default_client rand))) \<longleftrightarrow> 24 \<le> length rand"
    by (auto simp: default_client_def randomOwners_NewOwner_def io_ReadFull_def valid_owner_def)
  show "0 \<le> sint (source_Jitter (cl_retry (default_client rand)) maximum) \<and>
      sint (source_Jitter (cl_retry (default_client rand)) maximum) \<le> sint maximum" if "0 \<le> sint maximum"
    using randomRetry_bounds [OF that] by (simp add: default_client_def)
  show "sleeper_Sleep event d (cl_sleeper (default_client rand)) = None \<longleftrightarrow> event = TimerFired"
    by (cases event) (simp_all add: default_client_def)
qed

text \<open>A client refuses a missing backend and a capacity beyond the bounds, and keeps every source that was injected.\<close>

lemma NewClient_keeps:
  "NewClient rand given options = Inr cl \<Longrightarrow>
   given \<and> unat (co_MaxWaiters options) \<le> 1000000 \<and> unat (co_MaxManaged options) \<le> 100000 \<and>
   (\<forall>x. co_Clock options = Some x \<longrightarrow> cl_clock cl = x) \<and> (\<forall>x. co_Owners options = Some x \<longrightarrow> cl_owners cl = x) \<and>
   (\<forall>x. co_Sleeper options = Some x \<longrightarrow> cl_sleeper cl = x) \<and> (\<forall>x. co_Retry options = Some x \<longrightarrow> cl_retry cl = x)"
  by (auto simp: NewClient_def Let_def or_default_def MaxClientWaiters_def MaxClientManaged_def word_less_nat_alt split: if_splits)

section \<open>The calls of one acquisition\<close>

text \<open>A backend that records the calls made through it and their replies.\<close>

definition logged :: "('e, 's) Backend \<Rightarrow> ('e, 's \<times> (call \<times> reply) list) Backend" where
  "logged B = \<lparr>
     be_TryAcquire = (\<lambda>e k ow ttl (s, tr). case be_TryAcquire B e k ow ttl s of
        (res, s1) \<Rightarrow> (res, s1, tr @ [(CallAcquire k ow ttl, reply_of res)])),
     be_Renew = (\<lambda>e r ttl (s, tr). case be_Renew B e r ttl s of
        (res, s1) \<Rightarrow> (res, s1, tr @ [(CallRenew r ttl, reply_of res)])),
     be_Validate = (\<lambda>e r (s, tr). case be_Validate B e r s of
        (res, s1) \<Rightarrow> (res, s1, tr @ [(CallValidate r, reply_of res)])),
     be_Release = (\<lambda>e r (s, tr). case be_Release B e r s of
        (res, s1) \<Rightarrow> (res, s1, tr @ [(CallRelease r, reply_of_error res)]))\<rparr>"

text \<open>
  One acquisition, seen by its calls: contended attempts of the same call, then the
  attempt that decides.
\<close>

inductive acquire_trace :: "Key \<Rightarrow> string \<Rightarrow> Policy \<Rightarrow> (uint32 \<Rightarrow> 'e attempt) \<Rightarrow> uint32 \<Rightarrow>
    (call \<times> reply) list \<Rightarrow> Handle result \<Rightarrow> bool" for key owner policy env where
  got: "validAcquisition key owner r \<Longrightarrow>
    acquire_trace key owner policy env n [(CallAcquire key owner (TTL policy), Got r)]
      (Inr (newHandleAt policy r (clk_now (at_clocks (env n))) (clk_wall (at_clocks (env n)))))"
| mismatch: "\<not> validAcquisition key owner r \<Longrightarrow>
    acquire_trace key owner policy env n [(CallAcquire key owner (TTL policy), Got r)]
      (Inl (Wrap (Sentinel ErrAmbiguousOutcome) ''acquire response''))"
| failed: "\<not> isContention err \<Longrightarrow>
    acquire_trace key owner policy env n [(CallAcquire key owner (TTL policy), Failed err)] (Inl err)"
| stopped: "x = ErrTimeout \<or> x = ErrCanceled \<Longrightarrow>
    acquire_trace key owner policy env n [(CallAcquire key owner (TTL policy), Failed err)] (Inl (Wrap (Sentinel x) ''acquire''))"
| again: "isContention err \<Longrightarrow> Wait policy \<noteq> 0 \<Longrightarrow> n \<noteq> policy_MaxAttempts policy \<Longrightarrow>
    acquire_trace key owner policy env (n + 1) tr res \<Longrightarrow>
    acquire_trace key owner policy env n ((CallAcquire key owner (TTL policy), Failed err) # tr) res"

lemma acquire_loop_trace:
  assumes "acquire_loop (logged B) key owner policy deadline env n (s, tr0) = (res, s', tr')"
  shows "\<exists>tr. tr' = tr0 @ tr \<and> acquire_trace key owner policy env n tr res"
  using assms
proof (induction "unat (policy_MaxAttempts policy - n)" arbitrary: n s tr0 rule: less_induct)
  case less
  let ?c = "CallAcquire key owner (TTL policy)" and ?a = "env n"
  obtain out s1 where call: "be_TryAcquire (logged B) (at_env ?a) key owner (TTL policy) (s, tr0) =
      (out, s1, tr0 @ [(?c, reply_of out)])"
    by (cases "be_TryAcquire B (at_env ?a) key owner (TTL policy) s") (simp add: logged_def)
  note run = less.prems [unfolded acquire_loop.simps [of _ _ _ _ _ _ n] Let_def call prod.case]
  have stop: "\<exists>tr. tr' = tr0 @ tr \<and> acquire_trace key owner policy env n tr res"
    if "acquire_trace key owner policy env n [(?c, reply_of out)] res" "tr' = tr0 @ [(?c, reply_of out)]"
    using that by blast
  show ?case
  proof (cases out)
    case (Inr r)
    show ?thesis
      by (rule stop) (use run Inr in \<open>auto intro: acquire_trace.got acquire_trace.mismatch split: if_splits\<close>)
  next
    case (Inl err)
    show ?thesis
    proof (cases "isContention err \<and> Wait policy \<noteq> 0 \<and> n \<noteq> policy_MaxAttempts policy \<and>
        acquire_loop (logged B) key owner policy deadline env (n + 1) (s1, tr0 @ [(?c, Failed err)]) = (res, s', tr')")
      case True
      then obtain tr where tr: "tr' = (tr0 @ [(?c, Failed err)]) @ tr" "acquire_trace key owner policy env (n + 1) tr res"
        using less.hyps [of "n + 1"] attempts_left [of n "policy_MaxAttempts policy"] by blast
      then show ?thesis using True acquire_trace.again by fastforce
    next
      case False
      show ?thesis
        by (rule stop) (use run Inl False in
            \<open>auto intro: acquire_trace.failed acquire_trace.stopped split: if_splits option.splits\<close>)
    qed
  qed
qed

lemma acquire_trace_calls:
  assumes "acquire_trace key owner policy env n tr res"
  shows "tr \<noteq> [] \<and> (\<forall>(c, rep) \<in> set tr. c = CallAcquire key owner (TTL policy)) \<and>
    (\<forall>(c, rep) \<in> set (butlast tr). \<exists>err. rep = Failed err \<and> isContention err) \<and>
    length tr \<le> Suc (unat (policy_MaxAttempts policy - n)) \<and> (Wait policy = 0 \<longrightarrow> length tr = 1)"
  using assms
proof induction
  case (again err n tr res)
  then show ?case using attempts_left [of n "policy_MaxAttempts policy"] by auto
qed simp_all

lemma acquire_trace_outcome:
  assumes "acquire_trace key owner policy env n tr res"
  shows "case snd (last tr) of
      Got r \<Rightarrow> if validAcquisition key owner r
        then (\<exists>i. res = Inr (newHandleAt policy r (clk_now (at_clocks (env i))) (clk_wall (at_clocks (env i)))))
        else res = Inl (Wrap (Sentinel ErrAmbiguousOutcome) ''acquire response'')
    | Done \<Rightarrow> False
    | Failed err \<Rightarrow> res = Inl err \<and> \<not> isContention err \<or>
        (\<exists>x \<in> {ErrTimeout, ErrCanceled}. res = Inl (Wrap (Sentinel x) ''acquire''))"
  using assms
proof induction
  case (again err n tr res)
  then show ?case using acquire_trace_calls [OF again(4)] by simp
qed auto

text \<open>Every acquisition that passes its checks is such a loop.\<close>

lemma client_Acquire_cases [consumes 1, case_names refused loop]:
  assumes "client_Acquire B cl ctx newOwner started env key policy s = (res, s')"
  obtains err where "res = Inl err" "s' = s" "\<not> isContention err"
      "ctx \<noteq> Some None \<or> cl_maxWaiters cl \<le> cl_waiters cl \<or> \<not> valid_owner newOwner"
    | owner where "newOwner = Inr owner" "owner \<noteq> ''''" "length owner \<le> 128" "cl_waiters cl < cl_maxWaiters cl"
      "ctx = Some None"
      "acquire_loop B key owner policy (time_Add started (Wait policy)) env 1 s = (res, s')"
proof (cases "ctx \<noteq> Some None \<or> cl_maxWaiters cl \<le> cl_waiters cl \<or> \<not> valid_owner newOwner")
  case True
  then have "s' = s \<and> (\<exists>err. res = Inl err \<and> \<not> isContention err)"
    using assms by (auto simp: client_Acquire_def acquisitionContextError_def errors_Join_def valid_owner_def
        isContention_def errorIs_def split: option.splits if_splits sum.splits)
  then show thesis using that(1) True by blast
next
  case False
  then obtain owner where "newOwner = Inr owner" "owner \<noteq> ''''" "length owner \<le> 128"
    by (auto simp: valid_owner_def split: sum.splits)
  then show thesis using that(2) False assms
    by (simp add: client_Acquire_def acquisitionContextError_def valid_owner_def)
qed

text \<open>
  C29: One call of \<^verbatim>\<open>Acquire\<close> sends the backend nothing but the same acquisition with one
  owner, at most \<^verbatim>\<open>MaxAttempts\<close> times and once without a wait budget, and only after
  contention does it send it again.
\<close>

theorem client_Acquire_calls:
  assumes "client_Acquire (logged B) cl ctx newOwner started env key policy (s, []) = (res, s', tr)"
    and "policy_MaxAttempts policy \<noteq> 0"
  shows "(\<forall>(c, rep) \<in> set tr. \<exists>owner. newOwner = Inr owner \<and> c = CallAcquire key owner (TTL policy)) \<and>
    (\<forall>(c, rep) \<in> set (butlast tr). \<exists>err. rep = Failed err \<and> isContention err) \<and>
    length tr \<le> unat (policy_MaxAttempts policy) \<and> (Wait policy = 0 \<longrightarrow> length tr \<le> 1)"
  using assms(1)
proof (cases rule: client_Acquire_cases)
  case (loop owner)
  from acquire_loop_trace [OF loop(6)] have "acquire_trace key owner policy env 1 tr res" by simp
  moreover have "Suc (unat (policy_MaxAttempts policy - 1)) = unat (policy_MaxAttempts policy)"
    using assms(2) by (simp add: unat_minus_one Suc_pred unat_gt_0)
  ultimately show ?thesis using acquire_trace_calls [of key owner policy env 1 tr res] loop(1) by auto
qed simp


section \<open>Acquisition over a shared backend\<close>

text \<open>
  A backend that other clients use too: before each call of this client it serves the
  calls of the others that come with the environment.
\<close>

definition shared :: "('e, 's) Backend \<Rightarrow> (('e \<times> call) list \<times> 'e, 's) Backend" where
  "shared B = \<lparr>
     be_TryAcquire = (\<lambda>(cs, e) k ow ttl s. be_TryAcquire B e k ow ttl (snd (backend_run B cs s))),
     be_Renew = (\<lambda>(cs, e) r ttl s. be_Renew B e r ttl (snd (backend_run B cs s))),
     be_Validate = (\<lambda>(cs, e) r s. be_Validate B e r (snd (backend_run B cs s))),
     be_Release = (\<lambda>(cs, e) r s. be_Release B e r (snd (backend_run B cs s)))\<rparr>"

lemma acquire_loop_success:
  assumes "acquire_loop B key owner policy deadline env n s = (Inr h, s')" and "P s"
    and step: "\<And>n s err s1. P s \<Longrightarrow> be_TryAcquire B (at_env (env n)) key owner (TTL policy) s = (Inl err, s1) \<Longrightarrow> P s1"
  shows "\<exists>i s0 r. P s0 \<and> be_TryAcquire B (at_env (env i)) key owner (TTL policy) s0 = (Inr r, s') \<and>
    validAcquisition key owner r \<and>
    h = newHandleAt policy r (clk_now (at_clocks (env i))) (clk_wall (at_clocks (env i)))"
  using assms(1,2)
proof (induction "unat (policy_MaxAttempts policy - n)" arbitrary: n s rule: less_induct)
  case less
  obtain out s1 where call: "be_TryAcquire B (at_env (env n)) key owner (TTL policy) s = (out, s1)" by fastforce
  note run = less.prems(1) [unfolded acquire_loop.simps [of _ _ _ _ _ _ n] Let_def call prod.case]
  show ?case
  proof (cases out)
    case (Inr r)
    then have "validAcquisition key owner r" "s' = s1"
      "h = newHandleAt policy r (clk_now (at_clocks (env n))) (clk_wall (at_clocks (env n)))"
      using run by (auto split: if_splits)
    then show ?thesis using less.prems(2) call Inr by blast
  next
    case (Inl err)
    then have "n \<noteq> policy_MaxAttempts policy" "acquire_loop B key owner policy deadline env (n + 1) s1 = (Inr h, s')"
      using run by (auto split: if_splits option.splits)
    then show ?thesis
      using less.hyps [of "n + 1" s1] attempts_left [of n "policy_MaxAttempts policy"]
        step [OF less.prems(2) call [unfolded Inl]] by blast
  qed
qed

context lease_safety
begin

definition shared_ok :: "('e \<times> call) list \<times> 'e \<Rightarrow> bool" where
  "shared_ok x \<longleftrightarrow> (\<forall>(e, c) \<in> set (fst x). env_ok e) \<and> env_ok (snd x)"

text \<open>A handle comes from one acquisition that succeeded in a state the others reached.\<close>

lemma client_Acquire_got:
  assumes "client_Acquire (shared B) cl ctx newOwner started env key policy s = (Inr h, s')"
    and "invar s" and "\<forall>i. shared_ok (at_env (env i))"
  obtains i s0 owner r where "newOwner = Inr owner" "invar s0" "\<And>j. fence s j \<le> fence s0 j"
    "backend_call B (snd (at_env (env i))) (CallAcquire key owner (TTL policy)) s0 = (Got r, s')"
    "validAcquisition key owner r"
    "h = newHandleAt policy r (clk_now (at_clocks (env i))) (clk_wall (at_clocks (env i)))"
  using assms(1)
proof (cases rule: client_Acquire_cases)
  case (loop owner)
  let ?P = "\<lambda>s0. invar s0 \<and> (\<forall>j. fence s j \<le> fence s0 j)"
  have others: "?P (snd (backend_run B (fst (at_env (env i))) s0))" if "?P s0" for i s0
  proof -
    have ok: "\<forall>(e, c) \<in> set (fst (at_env (env i))). env_ok e" using assms(3) by (simp add: shared_ok_def)
    have run: "backend_run B (fst (at_env (env i))) s0 =
        (fst (backend_run B (fst (at_env (env i))) s0), snd (backend_run B (fst (at_env (env i))) s0))" by simp
    show ?thesis using run_invar [OF run _ ok] run_fence_mono [OF run _ ok] that order_trans by blast
  qed
  have call: "be_TryAcquire (shared B) (at_env (env i)) key owner (TTL policy) s0 =
      be_TryAcquire B (snd (at_env (env i))) key owner (TTL policy) (snd (backend_run B (fst (at_env (env i))) s0))" for i s0
    by (simp add: shared_def prod.case_eq_if)
  have step: "?P s1" if "?P s0" "be_TryAcquire (shared B) (at_env (env i)) key owner (TTL policy) s0 = (Inl err, s1)" for i s0 err s1
  proof -
    let ?s = "snd (backend_run B (fst (at_env (env i))) s0)"
    have c: "backend_call B (snd (at_env (env i))) (CallAcquire key owner (TTL policy)) ?s = (Failed err, s1)"
      using that(2) by (simp add: call map_prod_eq)
    have e: "env_ok (snd (at_env (env i)))" using assms(3) by (simp add: shared_ok_def)
    have P: "?P ?s" using others [OF that(1)] .
    show ?thesis using invar_call [OF e _ c] fence_mono [OF e _ c] P order_trans by blast
  qed
  have "?P s" using assms(2) by simp
  from acquire_loop_success [where P = ?P, OF loop(6) this] step
  obtain i s0 r where "?P s0" "be_TryAcquire (shared B) (at_env (env i)) key owner (TTL policy) s0 = (Inr r, s')"
    "validAcquisition key owner r"
    "h = newHandleAt policy r (clk_now (at_clocks (env i))) (clk_wall (at_clocks (env i)))" by blast
  then show thesis using loop(1) others [of s0 i] by (intro that) (simp_all add: call map_prod_eq)
qed simp

end

section \<open>The deadline of the wait\<close>

text \<open>
  When the wait context has run out during a call, \<^verbatim>\<open>Acquire\<close> reports a timeout whatever
  the call reported, an ambiguous outcome included.
\<close>

lemma acquire_deadline_masks:
  assumes "be_TryAcquire B (at_env (env n)) key owner (TTL policy) s = (Inl err, s1)"
    and "0 <s Wait policy" and "at_ctxErr (env n) = None" and "at_waitErr (env n) = Some DeadlineExceeded"
  shows "acquire_loop B key owner policy deadline env n s = (Inl (Wrap (Sentinel ErrTimeout) ''acquire''), s1)"
  using assms by (subst acquire_loop.simps) (simp add: waitDeadlineReached_def wait_error_def)

section \<open>Witnesses\<close>

definition ex_client :: Client where
  "ex_client = \<lparr>cl_clock = wallClock, cl_owners = randomOwners [], cl_sleeper = timerSleeper, cl_retry = randomRetry [],
     cl_waiters = 0, cl_maxWaiters = 1, cl_managed = 0, cl_maxManaged = 1\<rparr>"

text \<open>An owner that waits for a second, retrying after a tenth of it, at most three times.\<close>

definition ex_wait_policy :: Policy where
  "ex_wait_policy = ex_policy\<lparr>Wait := Second, Retry := 100 * Millisecond, policy_MaxAttempts := 3\<rparr>"

definition ex_attempt :: "uint32 \<Rightarrow> mem_env attempt" where
  "ex_attempt n = \<lparr>at_clocks = ex_clocks (int (unat n) * 100000000), at_env = ex_env (int (unat n) * 100000000),
     at_ctxErr = None, at_waitErr = None, at_jitter = 0, at_now = int (unat n) * 100000000, at_sleep = None,
     at_ctxErr2 = None, at_waitErr2 = None\<rparr>"

definition ex_acquire :: "Handle result \<times> mem_store \<times> (call \<times> reply) list" where
  "ex_acquire = client_Acquire (logged memory_backend) ex_client (Some None) (Inr ''y'') 0 ex_attempt ex_key ex_wait_policy
     (snd (memory_TryAcquire (ex_env 10) ex_key ''x'' (150 * Millisecond) ex_store), [])"

text \<open>Against an owner with a lease of 150 milliseconds the second attempt succeeds.\<close>

lemma ex_acquire_second:
  "map snd (snd (snd ex_acquire)) =
     [Failed (Wrap (Sentinel ErrContended) ''try acquire''), Got (ex_record ''y'' 2 200000000 5200000000)]"
  by code_simp

theorem client_Acquire_calls_witness:
  "length (snd (snd ex_acquire)) \<le> 3 \<and>
   isContention (Wrap (Sentinel ErrContended) ''try acquire'')"
proof -
  have "client_Acquire (logged memory_backend) ex_client (Some None) (Inr ''y'') 0 ex_attempt ex_key ex_wait_policy
     (snd (memory_TryAcquire (ex_env 10) ex_key ''x'' (150 * Millisecond) ex_store), []) =
     (fst ex_acquire, fst (snd ex_acquire), snd (snd ex_acquire))"
    by (simp add: ex_acquire_def)
  from client_Acquire_calls [OF this] ex_acquire_second show ?thesis
    by (cases "snd (snd ex_acquire)" rule: rev_cases)
      (auto simp: ex_wait_policy_def isContention_def errorIs_def)
qed


theorem randomOwners_distinct_witness:
  "valid_owner (randomOwners_NewOwner (replicate 24 0)) \<and>
   randomOwners_NewOwner (replicate 24 0) \<noteq> randomOwners_NewOwner (1 # replicate 23 0)"
  using randomOwners_distinct [of "replicate 24 0" "1 # replicate 23 0"] by (simp add: numeral_eq_Suc)

text \<open>
  The delay before a retry, with the default jitter source, never overflows: it is
  the policy's retry interval plus what the source returned, between no jitter and the
  policy's maximum.
\<close>

theorem retry_delay_bounds:
  assumes "wf_Policy policy"
  shows "boundedJitter (randomRetry_Jitter reader (Jitter policy)) (Jitter policy) = randomRetry_Jitter reader (Jitter policy) \<and>
    sint (Retry policy + boundedJitter j (Jitter policy)) = sint (Retry policy) + sint (boundedJitter j (Jitter policy)) \<and>
    sint (Retry policy) \<le> sint (Retry policy + boundedJitter j (Jitter policy)) \<and>
    sint (Retry policy + boundedJitter j (Jitter policy)) \<le> sint (Retry policy) + sint (Jitter policy)"
proof -
  have J: "0 \<le> sint (Jitter policy)" using assms by (simp add: wf_Policy_def)
  have "boundedJitter x (Jitter policy) = x" if "0 \<le> sint x" "sint x \<le> sint (Jitter policy)" for x
    using that by (simp add: boundedJitter_def duration_min_def duration_max_def word_sless_alt)
  then show ?thesis
    using randomRetry_bounds [OF J, of reader] boundedJitter_bounds [OF J, of j] wf_Policy_delay [OF assms] by simp
qed

theorem retry_delay_bounds_witness:
  "sint (Retry ex_wait_policy + boundedJitter (- 5) (Jitter ex_wait_policy)) = 100000000"
proof -
  have "wf_Policy ex_wait_policy"
    by (simp add: ex_wait_policy_def ex_policy_def wf_Policy_def FailureFailClosed_def)
  from retry_delay_bounds [OF this, where j = "- 5" and reader = "[]"] show ?thesis
    by (simp add: ex_wait_policy_def ex_policy_def boundedJitter_def duration_min_def duration_max_def word_sless_alt)
qed

end
