(* ===== verification/Lease_Admission.thy ===== *)
theory Lease_Admission
  imports Lease_Handle
begin

text \<open>
  A handle and a backend together: whenever the handle admits work, its owner and token
  hold the lease in the backend. The locale \<open>lease_timing\<close> adds to the safety contract how
  long a granted lease lasts, up to the grain of the backend's time; the worlds interleave
  the handle's critical sections, the calls of other clients, and requests of this handle
  that take effect after their caller has given up.
\<close>

section \<open>Worlds\<close>

text \<open>
  One handle, its operations in flight with the response they have got, if any, and the
  backend's state. \<open>w_time\<close> is the latest instant of the backend's clock that has been
  reached. \<open>w_released\<close> records that a release has been started.
\<close>

record 's world =
  w_handle :: Handle
  w_flights :: "(flight \<times> response option) list"
  w_store :: 's
  w_time :: instant
  w_released :: bool

text \<open>
  The process's own clock runs \<open>skew\<close> behind the backend's, up to \<open>drift\<close>: a reading \<open>w\<close>
  taken when the backend's clock shows \<open>b\<close> satisfies \<open>b - drift \<le> w + skew \<le> b\<close>.
\<close>

definition reading :: "int \<Rightarrow> int \<Rightarrow> instant \<Rightarrow> clocks \<Rightarrow> bool" where
  "reading skew drift b c \<longleftrightarrow> b - drift \<le> clk_wall c + skew \<and> clk_wall c + skew \<le> b"

fun flight_call :: "duration \<Rightarrow> flight \<Rightarrow> call" where
  "flight_call ttl (FRenew r started wallStarted) = CallRenew r ttl"
| "flight_call ttl (FValidate r) = CallValidate r"
| "flight_call ttl (FRelease r) = CallRelease r"

fun response_of :: "reply \<Rightarrow> response" where
  "response_of (Got r) = RecordResponse (Inr r)"
| "response_of (Failed err) = RecordResponse (Inl err)"
| "response_of Done = ErrorResponse None"

fun release_response :: "reply \<Rightarrow> response" where
  "release_response (Failed err) = ErrorResponse (Some err)"
| "release_response rep = ErrorResponse None"

fun flight_response :: "flight \<Rightarrow> reply \<Rightarrow> response" where
  "flight_response (FRelease r) rep = release_response rep"
| "flight_response _ rep = response_of rep"

fun failed_response :: "flight \<Rightarrow> gerror \<Rightarrow> response" where
  "failed_response (FRelease r) err = ErrorResponse (Some err)"
| "failed_response _ err = RecordResponse (Inl err)"

inductive world_step ::
  "('e, 's) Backend \<Rightarrow> ('e \<Rightarrow> bool) \<Rightarrow> ('e \<Rightarrow> instant) \<Rightarrow> ('e \<Rightarrow> instant) \<Rightarrow> (Key \<Rightarrow> 'i) \<Rightarrow>
   int \<Rightarrow> int \<Rightarrow> 's world \<Rightarrow> 's world \<Rightarrow> bool"
  for B env_ok begins ends ident skew drift where
  foreign_call: "env_ok e \<Longrightarrow> w_time w \<le> begins e \<Longrightarrow>
    \<not> (call_by (rec_Owner (h_record (w_handle w)), rec_Token (h_record (w_handle w))) c \<and>
       ident (call_key c) = ident (rec_Key (h_record (w_handle w)))) \<Longrightarrow>
    backend_call B e c (w_store w) = (rep, s1) \<Longrightarrow>
    world_step B env_ok begins ends ident skew drift w (w\<lparr>w_store := s1, w_time := ends e\<rparr>)"
| poll_state: "w_time w \<le> b \<Longrightarrow> reading skew drift b c \<Longrightarrow>
    world_step B env_ok begins ends ident skew drift w (w\<lparr>w_handle := snd (handle_State c (w_handle w)), w_time := b\<rparr>)"
| begin_request: "w_time w \<le> b \<Longrightarrow> b \<le> b1 \<Longrightarrow> reading skew drift b c \<Longrightarrow> reading skew drift b1 c1 \<Longrightarrow>
    request_begin rq c c1 (w_handle w) = (Inr f, h1) \<Longrightarrow>
    world_step B env_ok begins ends ident skew drift w (w\<lparr>w_handle := h1, w_flights := (f, None) # w_flights w, w_time := b1,
      w_released := w_released w \<or> rq = RqRelease\<rparr>)"
| refuse_request: "w_time w \<le> b \<Longrightarrow> reading skew drift b c \<Longrightarrow>
    request_begin rq c c1 (w_handle w) = (Inl err, h1) \<Longrightarrow>
    world_step B env_ok begins ends ident skew drift w (w\<lparr>w_handle := h1, w_time := b\<rparr>)"
| execute: "(f, None) \<in> set (w_flights w) \<Longrightarrow> env_ok e \<Longrightarrow> w_time w \<le> begins e \<Longrightarrow>
    backend_call B e (flight_call (TTL (h_policy (w_handle w))) f) (w_store w) = (rep, s1) \<Longrightarrow>
    world_step B env_ok begins ends ident skew drift w (w\<lparr>w_store := s1, w_time := ends e,
      w_flights := (f, Some (flight_response f rep)) # remove1 (f, None) (w_flights w)\<rparr>)"
| late_renewal: "env_ok e \<Longrightarrow> w_time w \<le> begins e \<Longrightarrow> same_identity r (h_record (w_handle w)) \<Longrightarrow>
    backend_call B e (CallRenew r (TTL (h_policy (w_handle w)))) (w_store w) = (rep, s1) \<Longrightarrow>
    world_step B env_ok begins ends ident skew drift w (w\<lparr>w_store := s1, w_time := ends e\<rparr>)"
| answered: "(f, Some resp) \<in> set (w_flights w) \<Longrightarrow> w_time w \<le> b \<Longrightarrow> reading skew drift b c \<Longrightarrow>
    flight_finish f c resp (w_handle w) = (err, h1) \<Longrightarrow>
    world_step B env_ok begins ends ident skew drift w (w\<lparr>w_handle := h1,
      w_flights := remove1 (f, Some resp) (w_flights w), w_time := b\<rparr>)"
| abandoned: "(f, resp) \<in> set (w_flights w) \<Longrightarrow> w_time w \<le> b \<Longrightarrow> reading skew drift b c \<Longrightarrow>
    flight_finish f c (failed_response f err0) (w_handle w) = (err, h1) \<Longrightarrow>
    world_step B env_ok begins ends ident skew drift w (w\<lparr>w_handle := h1,
      w_flights := remove1 (f, resp) (w_flights w), w_time := b\<rparr>)"

definition new_world :: "Policy \<Rightarrow> Record \<Rightarrow> instant \<Rightarrow> instant \<Rightarrow> 's \<Rightarrow> instant \<Rightarrow> 's world" where
  "new_world policy r started wallStarted s t =
     \<lparr>w_handle = newHandleAt policy r started wallStarted, w_flights = [], w_store = s, w_time = t, w_released = False\<rparr>"

section \<open>How long a grant lasts\<close>

locale lease_timing = lease_safety +
  fixes grain :: int
  assumes acquire_lasts: "env_ok e \<Longrightarrow> invar s \<Longrightarrow>
      backend_call B e (CallAcquire k ow ttl) s = (Got r, s') \<Longrightarrow> begins e + sint ttl - grain \<le> rec_ExpiresAt r"
    and renew_lasts: "env_ok e \<Longrightarrow> invar s \<Longrightarrow>
      backend_call B e (CallRenew r ttl) s = (Got r', s') \<Longrightarrow> begins e + sint ttl - grain \<le> rec_ExpiresAt r'"
    and renew_keeps: "env_ok e \<Longrightarrow> invar s \<Longrightarrow>
      backend_call B e (CallRenew r ttl) s = (rep, s') \<Longrightarrow> t < begins e + sint ttl - grain \<Longrightarrow>
      live s t (ident (rec_Key r)) = Some (rec_Owner r, rec_Token r) \<Longrightarrow>
      live s' t (ident (rec_Key r)) = Some (rec_Owner r, rec_Token r)"
    and ident_string: "key_String k = key_String k' \<Longrightarrow> ident k = ident k'"

section \<open>The handle's deadlines\<close>

lemma finish_wallDeadline:
  assumes "finishActiveOperation c r err dl wdl h = (res, h1)" "h_state h1 = StateActive"
  shows "h_state h = StateActive \<and> err = None \<and> (h_wallDeadline h1 = h_wallDeadline h \<or> dl \<noteq> 0 \<and> h_wallDeadline h1 = wdl)"
  using assms by (auto elim!: finishActiveOperation_cases)

lemma flight_finish_wallDeadline:
  assumes fin: "flight_finish f c resp h = (err, h1)" and ans: "answers f resp" and act: "h_state h1 = StateActive"
  shows "h_state h = StateActive \<and> (h_wallDeadline h1 = h_wallDeadline h \<or>
    (\<exists>r st wst next0. f = FRenew r st wst \<and> resp = RecordResponse (Inr next0) \<and>
       h_wallDeadline h1 = time_Add wst (policy_budget (h_policy h))))"
proof (cases f)
  case (FRenew r st wst)
  then obtain res where resp: "resp = RecordResponse res" using ans by (cases resp) auto
  let ?b = "policy_budget (h_policy h)"
  obtain next0 err' where chk: "check_response r (Wrap (Sentinel ErrAmbiguousOutcome) ''renew response'') res = (next0, err')"
    and "finishActiveOperation c next0 err' (time_Add st ?b) (time_Add wst ?b) h = (err, h1)"
    using fin FRenew resp by (auto simp: renew_finish_def Let_def split: prod.splits)
  from finish_wallDeadline [OF this(2) act] chk FRenew resp show ?thesis
    by (auto simp: check_response_None)
next
  case (FValidate r)
  then obtain res where resp: "resp = RecordResponse res" using ans by (cases resp) auto
  then obtain next0 err' where "finishActiveOperation c next0 err' 0 0 h = (err, h1)"
    using fin FValidate by (auto simp: validate_finish_def split: prod.splits)
  from finish_wallDeadline [OF this act] show ?thesis by simp
next
  case (FRelease r)
  then obtain e where "resp = ErrorResponse e" using ans by (cases resp) auto
  with FRelease fin act show ?thesis
    by (cases e) (auto simp: release_finish_def Let_def)
qed

lemma answers_failed [simp]: "answers f (failed_response f err)"
  by (cases f) simp_all

lemma answers_reply:
  "backend_call B e (flight_call ttl f) s = (rep, s1) \<Longrightarrow> answers f (flight_response f rep)"
  by (cases f; cases rep) (auto simp: map_prod_eq)

section \<open>The invariant of a world\<close>

definition is_release :: "flight \<Rightarrow> bool" where
  "is_release f \<longleftrightarrow> (\<exists>r. f = FRelease r)"

context lease_timing
begin

text \<open>
  A deadline \<open>D\<close> is covered when the holder keeps the lease until \<open>D\<close> or \<open>D\<close> has passed.
\<close>

definition covered :: "'b \<Rightarrow> instant \<Rightarrow> holder \<Rightarrow> 'c \<Rightarrow> instant \<Rightarrow> bool" where
  "covered s T h i D \<longleftrightarrow> (\<forall>t < D. live s t i = Some h) \<or> D \<le> T"

lemma covered_later: "covered s T h i D \<Longrightarrow> T \<le> T' \<Longrightarrow> covered s T' h i D"
  by (auto simp: covered_def)

lemma covered_foreign:
  assumes "covered s T h i D" "env_ok e" "invar s" "backend_call B e c s = (rep, s1)" "T \<le> begins e"
    and "\<not> (call_by h c \<and> ident (call_key c) = i)"
  shows "covered s1 (ends e) h i D"
proof (cases "ends e < D")
  case True
  then have "\<forall>t < D. live s t i = Some h"
    using assms(1,5) begins_ends [OF assms(2)] by (auto simp: covered_def)
  from call_keeps_holder(1) [OF assms(2-4) this True] assms(6) show ?thesis by (auto simp: covered_def)
qed (simp add: covered_def)

lemma covered_renewal:
  assumes "covered s T (rec_Owner r, rec_Token r) (ident (rec_Key r)) D" "env_ok e" "invar s"
    and "backend_call B e (CallRenew r ttl) s = (rep, s1)" "T \<le> begins e" "D \<le> begins e + sint ttl - grain"
  shows "covered s1 (ends e) (rec_Owner r, rec_Token r) (ident (rec_Key r)) D"
  using assms(1,5,6) begins_ends [OF assms(2)] renew_keeps [OF assms(2-4)] by (auto simp: covered_def)

definition bound :: "Policy \<Rightarrow> Record \<Rightarrow> int \<Rightarrow> int \<Rightarrow> 'b world \<Rightarrow> instant \<Rightarrow> bool" where
  "bound policy r0 skew drift w D \<longleftrightarrow>
     covered (w_store w) (w_time w) (rec_Owner r0, rec_Token r0) (ident (rec_Key r0)) (D + skew + drift) \<and>
     D + skew + drift \<le> w_time w + sint (TTL policy) - grain"

definition world_ok :: "Policy \<Rightarrow> Record \<Rightarrow> int \<Rightarrow> int \<Rightarrow> 'b world \<Rightarrow> bool" where
  "world_ok policy r0 skew drift w \<longleftrightarrow>
     invar (w_store w) \<and> h_policy (w_handle w) = policy \<and>
     handle_ok r0 (w_handle w, map fst (w_flights w)) \<and>
     (\<forall>f resp. (f, Some resp) \<in> set (w_flights w) \<longrightarrow> answers f resp) \<and>
     (\<not> w_released w \<longrightarrow>
        (\<forall>f x. (f, x) \<in> set (w_flights w) \<longrightarrow> \<not> is_release f) \<and>
        (h_state (w_handle w) = StateActive \<longrightarrow> bound policy r0 skew drift w (h_wallDeadline (w_handle w))) \<and>
        (\<forall>r st wst x. (FRenew r st wst, x) \<in> set (w_flights w) \<longrightarrow> wst + skew \<le> w_time w \<and>
           (\<forall>next0. x = Some (RecordResponse (Inr next0)) \<longrightarrow>
              bound policy r0 skew drift w (time_Add wst (policy_budget policy)))))"

lemma bound_later:
  "bound policy r0 skew drift w D \<Longrightarrow> w_time w \<le> T \<Longrightarrow> w_store w' = w_store w \<Longrightarrow> w_time w' = T \<Longrightarrow>
   bound policy r0 skew drift w' D"
  by (auto simp: bound_def intro: covered_later)

lemma bound_foreign:
  assumes "bound policy r0 skew drift w D" "env_ok e" "invar (w_store w)"
    and "backend_call B e c (w_store w) = (rep, w_store w')" "w_time w \<le> begins e" "w_time w' = ends e"
    and "\<not> (call_by (rec_Owner r0, rec_Token r0) c \<and> ident (call_key c) = ident (rec_Key r0))"
  shows "bound policy r0 skew drift w' D"
proof -
  have "covered (w_store w) (w_time w) (rec_Owner r0, rec_Token r0) (ident (rec_Key r0)) (D + skew + drift)"
    and le: "D + skew + drift \<le> w_time w + sint (TTL policy) - grain"
    using assms(1) by (simp_all add: bound_def)
  from covered_foreign [OF this(1) assms(2,3,4,5,7)] le assms(5,6) begins_ends [OF assms(2)]
  show ?thesis by (simp add: bound_def)
qed

lemma bound_renewal:
  assumes "bound policy r0 skew drift w D" "env_ok e" "invar (w_store w)" "same_identity r r0"
    and "backend_call B e (CallRenew r (TTL policy)) (w_store w) = (rep, w_store w')"
    and "w_time w \<le> begins e" "w_time w' = ends e"
  shows "bound policy r0 skew drift w' D"
proof -
  have same: "rec_Owner r = rec_Owner r0" "rec_Token r = rec_Token r0" "ident (rec_Key r) = ident (rec_Key r0)"
    using assms(4) ident_string [of "rec_Key r" "rec_Key r0"] by (simp_all add: same_identity_def)
  have "covered (w_store w) (w_time w) (rec_Owner r, rec_Token r) (ident (rec_Key r)) (D + skew + drift)"
    and le: "D + skew + drift \<le> w_time w + sint (TTL policy) - grain"
    using assms(1) same by (simp_all add: bound_def)
  moreover have "D + skew + drift \<le> begins e + sint (TTL policy) - grain" using le assms(6) by simp
  ultimately have "covered (w_store w') (ends e) (rec_Owner r, rec_Token r) (ident (rec_Key r)) (D + skew + drift)"
    using covered_renewal [OF _ assms(2,3,5,6)] by blast
  with le same assms(6,7) begins_ends [OF assms(2)] show ?thesis by (simp add: bound_def)
qed

end

context lease_timing
begin

lemma world_ok_store:
  assumes ok: "world_ok policy r0 skew drift w" and inv: "invar s1" and time: "w_time w \<le> T"
    and keep: "\<And>D. \<not> w_released w \<Longrightarrow> bound policy r0 skew drift w D \<Longrightarrow>
      bound policy r0 skew drift (w\<lparr>w_store := s1, w_time := T\<rparr>) D"
  shows "world_ok policy r0 skew drift (w\<lparr>w_store := s1, w_time := T\<rparr>)"
  unfolding world_ok_def
proof (intro conjI impI allI, goal_cases)
  case (7 r st wst x)
  then have "wst + skew \<le> w_time w" using ok unfolding world_ok_def by auto
  with time show ?case by simp
next
  case (8 r st wst x next0)
  then have "bound policy r0 skew drift w (time_Add wst (policy_budget policy))"
    using ok unfolding world_ok_def by auto
  with keep 8(1) show ?case by simp
qed (use ok inv keep in \<open>auto simp: world_ok_def\<close>)

lemma world_ok_handle:
  assumes ok: "world_ok policy r0 skew drift w" and time: "w_time w \<le> b"
    and step: "handle_step (w_handle w, map fst (w_flights w)) (h1, map fst fl)"
    and fl: "\<And>f x. (f, x) \<in> set fl \<Longrightarrow> (f, x) \<in> set (w_flights w) \<or>
      x = None \<and> (is_release f \<longrightarrow> rel) \<and> (\<forall>r st wst. f = FRenew r st wst \<longrightarrow> wst + skew \<le> b)"
    and rel: "w_released w \<Longrightarrow> rel"
    and active: "\<not> rel \<Longrightarrow> h_state h1 = StateActive \<Longrightarrow> bound policy r0 skew drift w (h_wallDeadline h1)"
  shows "world_ok policy r0 skew drift (w\<lparr>w_handle := h1, w_flights := fl, w_time := b, w_released := rel\<rparr>)"
proof -
  let ?w = "w\<lparr>w_handle := h1, w_flights := fl, w_time := b, w_released := rel\<rparr>"
  have later: "bound policy r0 skew drift w D \<Longrightarrow> bound policy r0 skew drift ?w D" for D
    by (rule bound_later [of policy r0 skew drift w D b]) (simp_all add: time)
  have hok: "handle_ok r0 (w_handle w, map fst (w_flights w))" "h_policy (w_handle w) = policy"
    using ok by (simp_all add: world_ok_def)
  note inv = handle_step_invariant [OF step hok(1)]
  show ?thesis
    unfolding world_ok_def
  proof (intro conjI impI allI, goal_cases)
    case (4 f resp)
    then show ?case using fl [of f "Some resp"] ok by (auto simp: world_ok_def)
  next
    case (5 f x)
    then show ?case using fl [of f x] ok rel by (auto simp: world_ok_def)
  next
    case 6
    then show ?case using later active by simp
  next
    case (7 r st wst x)
    then have "wst + skew \<le> w_time w \<or> wst + skew \<le> b"
      using fl [of "FRenew r st wst" x] ok rel unfolding world_ok_def by auto
    with time show ?case by auto
  next
    case (8 r st wst x next0)
    then have "bound policy r0 skew drift w (time_Add wst (policy_budget policy))"
      using fl [of "FRenew r st wst" x] ok rel unfolding world_ok_def by auto
    with later show ?case by simp
  qed (use ok inv hok in \<open>auto simp: world_ok_def\<close>)
qed

end

context lease_timing
begin

lemma execute_ok:
  assumes ok: "world_ok policy r0 skew drift w" and mem: "(f, None) \<in> set (w_flights w)"
    and env: "env_ok e" and time: "w_time w \<le> begins e"
    and call: "backend_call B e (flight_call (TTL policy) f) (w_store w) = (rep, s1)"
    and policy: "wf_Policy policy" "grain + drift \<le> sint (SafetyMargin policy)"
  shows "world_ok policy r0 skew drift (w\<lparr>w_store := s1, w_time := ends e,
      w_flights := (f, Some (flight_response f rep)) # remove1 (f, None) (w_flights w)\<rparr>)"
proof -
  let ?w1 = "w\<lparr>w_store := s1, w_time := ends e\<rparr>"
  let ?w = "w\<lparr>w_store := s1, w_time := ends e, w_flights := (f, Some (flight_response f rep)) # remove1 (f, None) (w_flights w)\<rparr>"
  have inv: "invar (w_store w)" and hok: "handle_ok r0 (w_handle w, map fst (w_flights w))"
    using ok by (simp_all add: world_ok_def)
  have fl: "w_flights w = [(f, None)]" and same: "same_identity (flight_record f) r0"
    using hok mem by (auto simp: handle_ok_def length_Suc_conv le_Suc_eq same_identity_def)
  have inv1: "invar s1" using invar_call [OF env inv call] .
  have key: "ident (rec_Key (flight_record f)) = ident (rec_Key r0)"
    using same ident_string [of "rec_Key (flight_record f)" "rec_Key r0"] by (simp add: same_identity_def)
  have ok1: "world_ok policy r0 skew drift ?w1"
  proof (rule world_ok_store [OF ok inv1])
    show "w_time w \<le> ends e" using time begins_ends [OF env] by simp
    fix D assume nrel: "\<not> w_released w" and b: "bound policy r0 skew drift w D"
    have "\<not> is_release f" using ok nrel mem unfolding world_ok_def by blast
    then show "bound policy r0 skew drift ?w1 D"
    proof (cases f)
      case (FRenew r st wst)
      then show ?thesis using bound_renewal [OF b env inv, of r rep ?w1] same call time by simp
    next
      case (FValidate r)
      then show ?thesis using bound_foreign [OF b env inv, of "CallValidate r" rep ?w1] call time by simp
    qed (simp add: is_release_def)
  qed
  have "bound policy r0 skew drift ?w1 (time_Add wst (policy_budget policy))"
    if f: "f = FRenew r st wst" and got: "flight_response f rep = RecordResponse (Inr next0)" and nrel: "\<not> w_released w"
    for r st wst next0
  proof -
    have "rep = Got next0" using got f by (cases rep) auto
    then have call': "backend_call B e (CallRenew r (TTL policy)) (w_store w) = (Got next0, s1)" using call f by simp
    have wst: "wst + skew \<le> w_time w" using ok nrel fl f unfolding world_ok_def by simp
    have D: "time_Add wst (policy_budget policy) = wst + (sint (TTL policy) - sint (SafetyMargin policy))"
      using wf_Policy_budget [OF policy(1)] by (simp add: time_Add_def policy_budget_def)
    have "time_Add wst (policy_budget policy) + skew + drift \<le> begins e + sint (TTL policy) - grain"
      using wst time policy(2) unfolding D by linarith
    moreover note renew_got [OF env inv call'] renew_lasts [OF env inv call']
    ultimately show ?thesis
      using same key f begins_ends [OF env] by (auto simp: bound_def covered_def same_identity_def)
  qed
  then show ?thesis
    using ok1 fl answers_reply [OF call] unfolding world_ok_def bound_def by auto
qed

end

context lease_timing
begin

lemma finish_ok:
  assumes ok: "world_ok policy r0 skew drift w" and mem: "(f, x) \<in> set (w_flights w)"
    and time: "w_time w \<le> b" and ans: "answers f resp"
    and fin: "flight_finish f c resp (w_handle w) = (err, h1)"
    and got: "\<And>next0. resp = RecordResponse (Inr next0) \<Longrightarrow> x = Some resp"
  shows "world_ok policy r0 skew drift (w\<lparr>w_handle := h1, w_flights := remove1 (f, x) (w_flights w), w_time := b\<rparr>)"
proof -
  have hok: "handle_ok r0 (w_handle w, map fst (w_flights w))" "h_policy (w_handle w) = policy"
    using ok by (simp_all add: world_ok_def)
  have fl: "w_flights w = [(f, x)]"
    using hok mem by (auto simp: handle_ok_def length_Suc_conv le_Suc_eq)
  have "world_ok policy r0 skew drift (w\<lparr>w_handle := h1, w_flights := [], w_time := b, w_released := w_released w\<rparr>)"
  proof (rule world_ok_handle [OF ok time])
    show "handle_step (w_handle w, map fst (w_flights w)) (h1, map fst [])"
      using handle_step.complete [of f "map fst (w_flights w)" resp c "w_handle w" err h1] ans fin fl by simp
    assume nrel: "\<not> w_released w" and act: "h_state h1 = StateActive"
    note dl = flight_finish_wallDeadline [OF fin ans act]
    then have "h_state (w_handle w) = StateActive" ..
    then have old: "bound policy r0 skew drift w (h_wallDeadline (w_handle w))"
      using ok nrel unfolding world_ok_def by blast
    show "bound policy r0 skew drift w (h_wallDeadline h1)"
    proof (cases "h_wallDeadline h1 = h_wallDeadline (w_handle w)")
      case True
      with old show ?thesis by simp
    next
      case False
      then obtain r st wst next0 where f: "f = FRenew r st wst" and resp: "resp = RecordResponse (Inr next0)"
        and D: "h_wallDeadline h1 = time_Add wst (policy_budget policy)" using dl hok(2) by auto
      have "(FRenew r st wst, Some (RecordResponse (Inr next0))) \<in> set (w_flights w)"
        using mem got [OF resp] f resp by simp
      then show ?thesis unfolding D using ok nrel unfolding world_ok_def by blast
    qed
  qed simp_all
  with fl show ?thesis by simp
qed

lemma world_step_ok:
  assumes step: "world_step B env_ok begins ends ident skew drift w w'" and ok: "world_ok policy r0 skew drift w"
    and policy: "wf_Policy policy" "grain + drift \<le> sint (SafetyMargin policy)"
  shows "world_ok policy r0 skew drift w'"
proof -
  have inv: "invar (w_store w)" and hok: "handle_ok r0 (w_handle w, map fst (w_flights w))"
    and pol: "h_policy (w_handle w) = policy"
    using ok by (simp_all add: world_ok_def)
  have id: "same_identity r0 (h_record (w_handle w))" using hok by (simp add: handle_ok_def)
  then have holder: "rec_Owner (h_record (w_handle w)) = rec_Owner r0" "rec_Token (h_record (w_handle w)) = rec_Token r0"
    "ident (rec_Key (h_record (w_handle w))) = ident (rec_Key r0)"
    using ident_string [of "rec_Key (h_record (w_handle w))" "rec_Key r0"] by (simp_all add: same_identity_def)
  have active: "bound policy r0 skew drift w (h_wallDeadline (w_handle w))"
    if "\<not> w_released w" "h_state (w_handle w) = StateActive"
    using ok that unfolding world_ok_def by blast
  have expired: "h_state (expireLocked c (w_handle w)) = StateActive \<Longrightarrow> h_state (w_handle w) = StateActive" for c
    by (simp add: expireLocked_active)
  from step show ?thesis
  proof (cases rule: world_step.cases)
    case (foreign_call e c rep s1)
    show ?thesis unfolding foreign_call(1)
    proof (rule world_ok_store [OF ok])
      show "invar s1" using invar_call [OF foreign_call(2) inv foreign_call(5)] .
      show "w_time w \<le> ends e" using foreign_call(3) begins_ends [OF foreign_call(2)] by simp
      show "bound policy r0 skew drift (w\<lparr>w_store := s1, w_time := ends e\<rparr>) D" if "bound policy r0 skew drift w D" for D
        by (rule bound_foreign [OF that foreign_call(2) inv, of c rep])
          (use foreign_call(3,4,5) holder in simp_all)
    qed
  next
    case (poll_state b c)
    have "world_ok policy r0 skew drift (w\<lparr>w_handle := expireLocked c (w_handle w), w_flights := w_flights w,
        w_time := b, w_released := w_released w\<rparr>)"
      by (rule world_ok_handle [OF ok poll_state(2)])
        (use handle_step.poll [of "w_handle w" _ c] active expired in \<open>simp_all add: handle_State_def Let_def\<close>)
    then show ?thesis unfolding poll_state(1) by (simp add: handle_State_def Let_def)
  next
    case (begin_request b b1 c c1 rq f h1)
    note beg = request_begin_Inr [OF begin_request(6)]
    have rel: "is_release f \<longleftrightarrow> rq = RqRelease"
      using begin_request(6) by (cases rq)
        (auto simp: section_defs is_release_def split: option.splits prod.splits if_splits)
    have wst: "wst + skew \<le> b1" if "f = FRenew r st wst" for r st wst
      using begin_request(5,6) that by (cases rq)
        (auto simp: section_defs reading_def split: option.splits prod.splits if_splits)
    have "world_ok policy r0 skew drift (w\<lparr>w_handle := h1, w_flights := (f, None) # w_flights w,
        w_time := b1, w_released := w_released w \<or> rq = RqRelease\<rparr>)"
      by (rule world_ok_handle [OF ok])
        (use begin_request(2,3) handle_step.start [OF begin_request(6)] beg rel wst active in auto)
    then show ?thesis unfolding begin_request(1) by simp
  next
    case (refuse_request b c rq c1 err h1)
    have h1: "h1 = w_handle w \<or> h1 = expireLocked c (w_handle w)" using request_begin_Inl [OF refuse_request(4)] .
    have "world_ok policy r0 skew drift (w\<lparr>w_handle := h1, w_flights := w_flights w,
        w_time := b, w_released := w_released w\<rparr>)"
      by (rule world_ok_handle [OF ok refuse_request(2)])
        (use handle_step.refuse [OF refuse_request(4)] h1 active expired in auto)
    then show ?thesis unfolding refuse_request(1) by simp
  next
    case (execute f e rep s1)
    then show ?thesis using execute_ok [OF ok execute(2,3,4)] pol policy by simp
  next
    case (late_renewal e r rep s1)
    have same: "same_identity r r0" using late_renewal(4) id by (simp add: same_identity_def)
    show ?thesis unfolding late_renewal(1)
    proof (rule world_ok_store [OF ok])
      show "invar s1" using invar_call [OF late_renewal(2) inv late_renewal(5)] .
      show "w_time w \<le> ends e" using late_renewal(3) begins_ends [OF late_renewal(2)] by simp
      show "bound policy r0 skew drift (w\<lparr>w_store := s1, w_time := ends e\<rparr>) D" if "bound policy r0 skew drift w D" for D
        by (rule bound_renewal [OF that late_renewal(2) inv same, of rep])
          (use late_renewal(3,5) pol in simp_all)
    qed
  next
    case (answered f resp b c err h1)
    have "answers f resp" using ok answered(2) unfolding world_ok_def by blast
    then show ?thesis unfolding answered(1) using finish_ok [OF ok answered(2,3) _ answered(5)] by simp
  next
    case (abandoned f resp b c err0 err h1)
    have "failed_response f err0 \<noteq> RecordResponse (Inr next0)" for next0 by (cases f) simp_all
    then show ?thesis unfolding abandoned(1)
      using finish_ok [OF ok abandoned(2,3) answers_failed abandoned(5)] by blast
  qed
qed

lemma new_world_ok:
  assumes "env_ok e1" "invar s0" and got: "backend_call B e1 (CallAcquire k ow (TTL policy)) s0 = (Got r, s1)"
    and started: "wallStarted + skew \<le> begins e1"
    and policy: "wf_Policy policy" "grain + drift \<le> sint (SafetyMargin policy)"
  shows "world_ok policy r skew drift (new_world policy r started wallStarted s1 (ends e1))"
proof -
  note acq = acquire_got [OF assms(1-3)] acquire_lasts [OF assms(1-3)]
  have D: "time_Add wallStarted (policy_budget policy) = wallStarted + (sint (TTL policy) - sint (SafetyMargin policy))"
    using wf_Policy_budget [OF policy(1)] by (simp add: time_Add_def policy_budget_def)
  have "time_Add wallStarted (policy_budget policy) + skew + drift \<le> begins e1 + sint (TTL policy) - grain"
    using started policy(2) unfolding D by linarith
  then show ?thesis
    using acq invar_call [OF assms(1-3)] begins_ends [OF assms(1)] handle_ok_new [of r policy started wallStarted]
    by (auto simp: world_ok_def new_world_def newHandleAt_def Let_def bound_def covered_def)
qed

text \<open>In a world in order, local admission implies ownership.\<close>

lemma world_ok_admits:
  assumes ok: "world_ok policy r skew drift w"
    and poll: "w_time w \<le> b" "reading skew drift b c" "fst (handle_State c (w_handle w)) = StateActive"
    and nrel: "\<not> w_released w"
  shows "live (w_store w) b (ident (rec_Key r)) = Some (rec_Owner r, rec_Token r)"
proof -
  have act: "h_state (w_handle w) = StateActive" "clk_wall c < h_wallDeadline (w_handle w)"
    using poll(3) by (simp_all add: handle_State_def Let_def expireLocked_active)
  then have "bound policy r skew drift w (h_wallDeadline (w_handle w))"
    using ok nrel unfolding world_ok_def by blast
  then have "covered (w_store w) (w_time w) (rec_Owner r, rec_Token r) (ident (rec_Key r)) (h_wallDeadline (w_handle w) + skew + drift)"
    by (simp add: bound_def)
  moreover have "b < h_wallDeadline (w_handle w) + skew + drift"
    using act(2) poll(2) by (simp add: reading_def)
  ultimately show ?thesis using poll(1) by (auto simp: covered_def)
qed

lemma admission_safe:
  assumes "env_ok e1" "invar s0" and got: "backend_call B e1 (CallAcquire k ow (TTL policy)) s0 = (Got r, s1)"
    and started: "wallStarted + skew \<le> begins e1"
    and policy: "wf_Policy policy" "grain + drift \<le> sint (SafetyMargin policy)"
    and run: "(world_step B env_ok begins ends ident skew drift)\<^sup>*\<^sup>*
      (new_world policy r started wallStarted s1 (ends e1)) w"
    and poll: "w_time w \<le> b" "reading skew drift b c" "fst (handle_State c (w_handle w)) = StateActive"
    and nrel: "\<not> w_released w"
  shows "live (w_store w) b (ident k) = Some (ow, rec_Token r)"
proof -
  from run new_world_ok [OF assms(1-3) started policy] have "world_ok policy r skew drift w"
    by (induction rule: rtranclp_induct) (use world_step_ok policy in blast)+
  from world_ok_admits [OF this poll nrel] acquire_got [OF assms(1-3)] show ?thesis by simp
qed

end

end
