(* ===== verification/Sha256.thy ===== *)
theory Sha256
  imports "HOL-Library.Word"
begin

text \<open>
  \<^verbatim>\<open>crypto/sha256.Sum256\<close> of the Go standard library (FIPS 180-4), which the native backends
  and the observer use to derive identities from keys, and \<^verbatim>\<open>encoding/hex.EncodeToString\<close>.
  Bytes are numbers below 256.
\<close>

unbundle bit_operations_syntax

section \<open>Round functions\<close>

type_synonym w32 = "32 word"

definition sha_rotr :: "nat \<Rightarrow> w32 \<Rightarrow> w32" where
  "sha_rotr n x = drop_bit n x OR push_bit (32 - n) x"

definition sha_Ch :: "w32 \<Rightarrow> w32 \<Rightarrow> w32 \<Rightarrow> w32" where
  "sha_Ch x y z = (x AND y) XOR (NOT x AND z)"

definition sha_Maj :: "w32 \<Rightarrow> w32 \<Rightarrow> w32 \<Rightarrow> w32" where
  "sha_Maj x y z = (x AND y) XOR (x AND z) XOR (y AND z)"

definition sha_Sigma0 :: "w32 \<Rightarrow> w32" where
  "sha_Sigma0 x = sha_rotr 2 x XOR sha_rotr 13 x XOR sha_rotr 22 x"

definition sha_Sigma1 :: "w32 \<Rightarrow> w32" where
  "sha_Sigma1 x = sha_rotr 6 x XOR sha_rotr 11 x XOR sha_rotr 25 x"

definition sha_sigma0 :: "w32 \<Rightarrow> w32" where
  "sha_sigma0 x = sha_rotr 7 x XOR sha_rotr 18 x XOR drop_bit 3 x"

definition sha_sigma1 :: "w32 \<Rightarrow> w32" where
  "sha_sigma1 x = sha_rotr 17 x XOR sha_rotr 19 x XOR drop_bit 10 x"

definition sha_K :: "w32 list" where
  "sha_K =
    [
     1116352408, 1899447441, 3049323471, 3921009573, 961987163, 1508970993,
     2453635748, 2870763221, 3624381080, 310598401, 607225278, 1426881987,
     1925078388, 2162078206, 2614888103, 3248222580, 3835390401, 4022224774,
     264347078, 604807628, 770255983, 1249150122, 1555081692, 1996064986,
     2554220882, 2821834349, 2952996808, 3210313671, 3336571891, 3584528711,
     113926993, 338241895, 666307205, 773529912, 1294757372, 1396182291,
     1695183700, 1986661051, 2177026350, 2456956037, 2730485921, 2820302411,
     3259730800, 3345764771, 3516065817, 3600352804, 4094571909, 275423344,
     430227734, 506948616, 659060556, 883997877, 958139571, 1322822218,
     1537002063, 1747873779, 1955562222, 2024104815, 2227730452, 2361852424,
     2428436474, 2756734187, 3204031479, 3329325298]"

section \<open>Padding and the message schedule\<close>

fun be_bytes :: "nat \<Rightarrow> nat \<Rightarrow> nat list" where
  "be_bytes 0 n = []"
| "be_bytes (Suc k) n = be_bytes k (n div 256) @ [n mod 256]"

definition sha_pad :: "nat list \<Rightarrow> nat list" where
  "sha_pad m = m @ [0x80] @ replicate ((119 - length m mod 64) mod 64) 0 @ be_bytes 8 (8 * length m)"

fun be_words :: "nat list \<Rightarrow> w32 list" where
  "be_words (a # b # c # d # bs) =
     word_of_nat (((a * 256 + b) * 256 + c) * 256 + d) # be_words bs"
| "be_words _ = []"

text \<open>The schedule is kept in reverse, newest word first.\<close>

fun sha_schedule :: "nat \<Rightarrow> w32 list \<Rightarrow> w32 list" where
  "sha_schedule 0 ws = ws"
| "sha_schedule (Suc n) ws =
     sha_schedule n ((sha_sigma1 (ws ! 1) + ws ! 6 + sha_sigma0 (ws ! 14) + ws ! 15) # ws)"

type_synonym sha_state = "w32 \<times> w32 \<times> w32 \<times> w32 \<times> w32 \<times> w32 \<times> w32 \<times> w32"

fun sha_round :: "w32 \<times> w32 \<Rightarrow> sha_state \<Rightarrow> sha_state" where
  "sha_round (k, w) (a, b, c, d, e, f, g, h) =
     (let t1 = h + sha_Sigma1 e + sha_Ch e f g + k + w;
          t2 = sha_Sigma0 a + sha_Maj a b c
      in (t1 + t2, a, b, c, d + t1, e, f, g))"

fun sha_add :: "sha_state \<Rightarrow> sha_state \<Rightarrow> sha_state" where
  "sha_add (a, b, c, d, e, f, g, h) (a', b', c', d', e', f', g', h') =
     (a + a', b + b', c + c', d + d', e + e', f + f', g + g', h + h')"

definition sha_block :: "w32 list \<Rightarrow> sha_state \<Rightarrow> sha_state" where
  "sha_block ws st =
     sha_add st (fold sha_round (zip sha_K (rev (sha_schedule 48 (rev ws)))) st)"

function sha_blocks :: "w32 list \<Rightarrow> sha_state \<Rightarrow> sha_state" where
  "sha_blocks ws st =
     (if ws = [] then st else sha_blocks (drop 16 ws) (sha_block (take 16 ws) st))"
  by pat_completeness auto
termination
  by (relation "measure (\<lambda>(ws, st). length ws)") auto

declare sha_blocks.simps [simp del]

definition sha_init :: sha_state where
  "sha_init = (0x6a09e667, 0xbb67ae85, 0x3c6ef372, 0xa54ff53a, 0x510e527f, 0x9b05688c, 0x1f83d9ab, 0x5be0cd19)"

fun sha_bytes :: "sha_state \<Rightarrow> nat list" where
  "sha_bytes (a, b, c, d, e, f, g, h) =
     concat (map (\<lambda>w. be_bytes 4 (unat w)) [a, b, c, d, e, f, g, h])"

definition sha256_Sum256 :: "string \<Rightarrow> nat list" where
  "sha256_Sum256 s = sha_bytes (sha_blocks (be_words (sha_pad (map of_char s))) sha_init)"

section \<open>Hexadecimal\<close>

definition hex_digits :: "char list" where
  "hex_digits = ''0123456789abcdef''"

definition hex_EncodeToString :: "nat list \<Rightarrow> string" where
  "hex_EncodeToString bs = concat (map (\<lambda>b. [hex_digits ! (b div 16 mod 16), hex_digits ! (b mod 16)]) bs)"

section \<open>Shape of digests\<close>

lemma length_be_bytes [simp]: "length (be_bytes k n) = k"
  by (induction k n rule: be_bytes.induct) auto

lemma be_bytes_range: "b \<in> set (be_bytes k n) \<Longrightarrow> b < 256"
  by (induction k n rule: be_bytes.induct) auto

lemma length_sha256 [simp]: "length (sha256_Sum256 s) = 32"
proof -
  have "length (sha_bytes st) = 32" for st
    by (cases st rule: sha_bytes.cases) simp
  then show ?thesis by (simp add: sha256_Sum256_def)
qed

lemma sha256_range: "b \<in> set (sha256_Sum256 s) \<Longrightarrow> b < 256"
proof -
  have "b \<in> set (sha_bytes st) \<Longrightarrow> b < 256" for st
    by (cases st rule: sha_bytes.cases) (auto dest: be_bytes_range)
  then show "b \<in> set (sha256_Sum256 s) \<Longrightarrow> b < 256" by (auto simp: sha256_Sum256_def)
qed

lemma length_hex [simp]: "length (hex_EncodeToString bs) = 2 * length bs"
  by (induction bs) (auto simp: hex_EncodeToString_def)

lemma hex_chars: "set (hex_EncodeToString bs) \<subseteq> set hex_digits"
proof -
  have "hex_digits ! (n mod 16) \<in> set hex_digits" for n
    by (rule nth_mem) (simp add: hex_digits_def)
  then show ?thesis by (auto simp: hex_EncodeToString_def)
qed

end
