(* ===== verification/Strconv.thy ===== *)
theory Strconv
  imports Lease_Errors
begin

text \<open>
  The part of Go's \<^verbatim>\<open>strconv\<close> the native backends use, always in base 10: \<^verbatim>\<open>FormatUint\<close>,
  \<^verbatim>\<open>FormatInt\<close>, \<^verbatim>\<open>ParseUint\<close> and \<^verbatim>\<open>ParseInt\<close> at 64 bits, and \<^verbatim>\<open>Atoi\<close>, with the round trips
  between them. The code only compares parse errors with nil, so a failed parse is \<open>None\<close>.
\<close>

section \<open>Formatting\<close>

definition digit_char :: "nat \<Rightarrow> char" where
  "digit_char d = char_of (48 + d)"

fun digits10 :: "nat \<Rightarrow> string" where
  "digits10 n = (if n < 10 then [digit_char n] else digits10 (n div 10) @ [digit_char (n mod 10)])"

declare digits10.simps [simp del]

definition strconv_FormatUint :: "uint64 \<Rightarrow> string" where
  "strconv_FormatUint w = digits10 (unat w)"

definition strconv_FormatInt :: "int \<Rightarrow> string" where
  "strconv_FormatInt i = (if i < 0 then CHR ''-'' # digits10 (nat (- i)) else digits10 (nat i))"

section \<open>Parsing\<close>

definition digit_value :: "char \<Rightarrow> nat option" where
  "digit_value c = (let n = of_char c in if 48 \<le> n \<and> n \<le> 57 then Some (n - 48) else None)"

fun parse_digits :: "nat \<Rightarrow> string \<Rightarrow> nat option" where
  "parse_digits acc [] = Some acc"
| "parse_digits acc (c # cs) =
     (case digit_value c of None \<Rightarrow> None | Some d \<Rightarrow> parse_digits (acc * 10 + d) cs)"

definition parse_nat :: "string \<Rightarrow> nat option" where
  "parse_nat s = (if s = '''' then None else parse_digits 0 s)"

definition strconv_ParseUint :: "string \<Rightarrow> uint64 option" where
  "strconv_ParseUint s =
     (case parse_nat s of
        None \<Rightarrow> None
      | Some n \<Rightarrow> if n < 2 ^ 64 then Some (word_of_nat n) else None)"

definition strconv_ParseInt :: "string \<Rightarrow> int option" where
  "strconv_ParseInt s =
     (case s of
        [] \<Rightarrow> None
      | c # cs \<Rightarrow>
          if c = CHR ''-'' then
            (case parse_nat cs of
               None \<Rightarrow> None | Some n \<Rightarrow> if n \<le> 2 ^ 63 then Some (- int n) else None)
          else
            (case parse_nat (if c = CHR ''+'' then cs else s) of
               None \<Rightarrow> None | Some n \<Rightarrow> if n < 2 ^ 63 then Some (int n) else None))"

text \<open>On a 64-bit platform \<^verbatim>\<open>Atoi\<close> is \<^verbatim>\<open>ParseInt\<close> at 64 bits.\<close>

definition strconv_Atoi :: "string \<Rightarrow> int option" where
  "strconv_Atoi s = strconv_ParseInt s"

section \<open>Round trips\<close>

lemma digit_value_char [simp]: "d < 10 \<Longrightarrow> digit_value (digit_char d) = Some d"
  by (simp add: digit_value_def digit_char_def Let_def)

lemma digits10_nonempty [simp]: "digits10 n \<noteq> []"
  by (subst digits10.simps) simp

lemma parse_digits_append:
  "parse_digits acc (xs @ ys) = (case parse_digits acc xs of None \<Rightarrow> None | Some n \<Rightarrow> parse_digits n ys)"
  by (induction xs arbitrary: acc) (auto split: option.splits)

lemma parse_digits_digits10: "parse_digits 0 (digits10 n) = Some n"
proof (induction n rule: digits10.induct)
  case (1 n)
  show ?case
  proof (cases "n < 10")
    case True
    then show ?thesis by (simp add: digits10.simps [of n])
  next
    case False
    with 1 show ?thesis by (simp add: digits10.simps [of n] parse_digits_append)
  qed
qed

lemma parse_nat_digits10 [simp]: "parse_nat (digits10 n) = Some n"
  by (simp add: parse_nat_def parse_digits_digits10)

lemma digits10_chars: "c \<in> set (digits10 n) \<Longrightarrow> \<exists>d < 10. c = digit_char d"
proof (induction n rule: digits10.induct)
  case (1 n)
  show ?case
  proof (cases "n < 10")
    case True
    with 1(2) show ?thesis by (auto simp: digits10.simps [of n])
  next
    case False
    with 1 show ?thesis by (auto simp: digits10.simps [of n] intro: exI [of _ "n mod 10"])
  qed
qed

lemma digit_char_not_sign: "d < 10 \<Longrightarrow> digit_char d \<noteq> CHR ''-'' \<and> digit_char d \<noteq> CHR ''+''"
  using digit_value_char [of d] by (auto simp: digit_value_def)

lemma digits10_unsigned: "digits10 n = c # cs \<Longrightarrow> c \<noteq> CHR ''-'' \<and> c \<noteq> CHR ''+''"
  using digits10_chars [of c n] digit_char_not_sign by auto

lemma ParseUint_FormatUint [simp]: "strconv_ParseUint (strconv_FormatUint w) = Some w"
  using unsigned_less [of w] by (simp add: strconv_ParseUint_def strconv_FormatUint_def)

lemma FormatUint_inject [simp]: "strconv_FormatUint a = strconv_FormatUint b \<longleftrightarrow> a = b"
  by (metis ParseUint_FormatUint option.inject)

lemma ParseInt_digits10: "n < 2 ^ 63 \<Longrightarrow> strconv_ParseInt (digits10 n) = Some (int n)"
  using digits10_unsigned [of n] parse_nat_digits10 [of n]
  by (cases "digits10 n") (auto simp: strconv_ParseInt_def)

lemma ParseInt_FormatInt:
  "- (2 ^ 63) \<le> i \<Longrightarrow> i < 2 ^ 63 \<Longrightarrow> strconv_ParseInt (strconv_FormatInt i) = Some i"
  using ParseInt_digits10 [of "nat i"] by (auto simp: strconv_FormatInt_def strconv_ParseInt_def)

end
