(* ===== verification/Valkey_Store.thy ===== *)
theory Valkey_Store
  imports Lease_Backend Sha256 Strconv
begin

text \<open>
  \<^verbatim>\<open>valkey/store.go\<close>, \<^verbatim>\<open>valkey/scripts.go\<close> and \<^verbatim>\<open>valkey/native.go\<close>: the Valkey backend. The Lua
  scripts are translated command by command. The server they run on is not part of the
  repository: its commands are a record of functions that every definition takes as an
  argument, and the locale \<open>valkey_server\<close> states the documented behaviour of those
  commands that the scripts rely on. A script runs atomically at one server time, given in
  microseconds since the Unix epoch.
\<close>

section \<open>The server's commands\<close>

record 'v valkey =
  EXISTS :: "nat \<Rightarrow> string \<Rightarrow> 'v \<Rightarrow> bool"
  INCR :: "nat \<Rightarrow> string \<Rightarrow> 'v \<Rightarrow> 'v result"
  GET :: "nat \<Rightarrow> string \<Rightarrow> 'v \<Rightarrow> string option"
  TIME :: "nat \<Rightarrow> nat \<times> nat"
  HSET :: "nat \<Rightarrow> string \<Rightarrow> (string \<times> string) list \<Rightarrow> 'v \<Rightarrow> 'v"
  HGET :: "nat \<Rightarrow> string \<Rightarrow> string \<Rightarrow> 'v \<Rightarrow> string option"
  PEXPIRE :: "nat \<Rightarrow> string \<Rightarrow> string \<Rightarrow> 'v \<Rightarrow> 'v"
  DEL :: "nat \<Rightarrow> string \<Rightarrow> 'v \<Rightarrow> 'v"
  TOSTRING :: "nat \<Rightarrow> string"

text \<open>
  A script answers with an array of bulk strings, \<open>None\<close> for a nil element, or fails with
  an error reply. \<open>TOSTRING\<close> is Lua's number formatting.
\<close>

type_synonym script_reply = "string option list result"

section \<open>The scripts\<close>

definition script_nowms :: "'v valkey \<Rightarrow> nat \<Rightarrow> nat" where
  "script_nowms S now = (case TIME S now of (sec, usec) \<Rightarrow> sec * 1000 + usec div 1000)"

definition acquireScript ::
  "'v valkey \<Rightarrow> nat \<Rightarrow> string \<Rightarrow> string \<Rightarrow> string \<Rightarrow> string \<Rightarrow> 'v \<Rightarrow> script_reply \<times> 'v" where
  "acquireScript S now key1 key2 argv1 argv2 v =
     (if EXISTS S now key1 v then (Inr [Some ''contended''], v)
      else (case INCR S now key2 v of
          Inl err \<Rightarrow> (Inl err, v)
        | Inr v1 \<Rightarrow>
            (case GET S now key2 v1 of
               None \<Rightarrow> (Inl (Opaque ''Lua arguments must be strings or integers'' []), v1)
             | Some exact \<Rightarrow>
                 (case parse_nat argv2 of
                    None \<Rightarrow> (Inl (Opaque ''Lua arithmetic on a nil value'' []), v1)
                  | Some ttl \<Rightarrow>
                      let nowms = script_nowms S now;
                          expires = nowms + ttl;
                          v2 = HSET S now key1
                            [(''owner'', argv1), (''token'', exact),
                             (''acquired'', TOSTRING S nowms), (''expires'', TOSTRING S expires)] v1;
                          v3 = PEXPIRE S now key1 argv2 v2
                      in (Inr [Some ''ok'', Some exact, Some (TOSTRING S nowms), Some (TOSTRING S expires)], v3)))))"

definition not_owned ::
  "'v valkey \<Rightarrow> nat \<Rightarrow> string \<Rightarrow> string \<Rightarrow> string \<Rightarrow> 'v \<Rightarrow> bool" where
  "not_owned S now key1 argv1 argv2 v \<longleftrightarrow>
     HGET S now key1 ''owner'' v \<noteq> Some argv1 \<or> HGET S now key1 ''token'' v \<noteq> Some argv2"

definition renewScript ::
  "'v valkey \<Rightarrow> nat \<Rightarrow> string \<Rightarrow> string \<Rightarrow> string \<Rightarrow> string \<Rightarrow> 'v \<Rightarrow> script_reply \<times> 'v" where
  "renewScript S now key1 argv1 argv2 argv3 v =
     (if \<not> EXISTS S now key1 v \<or> not_owned S now key1 argv1 argv2 v then (Inr [Some ''stale''], v)
      else (case parse_nat argv3 of
          None \<Rightarrow> (Inl (Opaque ''Lua arithmetic on a nil value'' []), v)
        | Some ttl \<Rightarrow>
            let nowms = script_nowms S now;
                expires = nowms + ttl;
                acquired = HGET S now key1 ''acquired'' v;
                v1 = HSET S now key1 [(''expires'', TOSTRING S expires)] v;
                v2 = PEXPIRE S now key1 argv3 v1
            in (Inr [Some ''ok'', Some argv2, acquired, Some (TOSTRING S expires)], v2)))"

definition validateScript ::
  "'v valkey \<Rightarrow> nat \<Rightarrow> string \<Rightarrow> string \<Rightarrow> string \<Rightarrow> 'v \<Rightarrow> script_reply \<times> 'v" where
  "validateScript S now key1 argv1 argv2 v =
     (if \<not> EXISTS S now key1 v \<or> not_owned S now key1 argv1 argv2 v then (Inr [Some ''stale''], v)
      else (Inr [Some ''ok'', Some argv2, HGET S now key1 ''acquired'' v, HGET S now key1 ''expires'' v], v))"

definition releaseScript ::
  "'v valkey \<Rightarrow> nat \<Rightarrow> string \<Rightarrow> string \<Rightarrow> string \<Rightarrow> 'v \<Rightarrow> script_reply \<times> 'v" where
  "releaseScript S now key1 argv1 argv2 v =
     (if \<not> EXISTS S now key1 v then (Inr [Some ''missing''], v)
      else if not_owned S now key1 argv1 argv2 v then (Inr [Some ''stale''], v)
      else (Inr [Some ''ok''], DEL S now key1 v))"

section \<open>The executor\<close>

datatype operation = opAcquire | opRenew | opValidate | opRelease

record vk_env =
  vk_now :: nat
  vk_ctx :: "ctx_error option"
  vk_ctx_after :: "ctx_error option"
  vk_fate :: fate

fun run_script ::
  "'v valkey \<Rightarrow> nat \<Rightarrow> operation \<Rightarrow> string list \<Rightarrow> string list \<Rightarrow> 'v \<Rightarrow> script_reply \<times> 'v" where
  "run_script S now opAcquire [k1, k2] [a1, a2] v = acquireScript S now k1 k2 a1 a2 v"
| "run_script S now opRenew [k1, k2] [a1, a2, a3] v = renewScript S now k1 a1 a2 a3 v"
| "run_script S now opValidate [k1, k2] [a1, a2] v = validateScript S now k1 a1 a2 v"
| "run_script S now opRelease [k1, k2] [a1, a2] v = releaseScript S now k1 a1 a2 v"
| "run_script S now _ _ _ v = (Inl (Opaque ''unknown valkey lease operation'' []), v)"

definition decode_reply :: "string option list \<Rightarrow> string list result" where
  "decode_reply values0 =
     (if None \<in> set values0 then Inl (Opaque ''valkey nil message'' []) else Inr (map the values0))"

definition native_Exec ::
  "'v valkey \<Rightarrow> vk_env \<Rightarrow> operation \<Rightarrow> string list \<Rightarrow> string list \<Rightarrow> 'v \<Rightarrow> string list result \<times> 'v" where
  "native_Exec S e op keys args v =
     (case vk_fate e of
        LostRequest err \<Rightarrow> (Inl err, v)
      | LostReply err \<Rightarrow> (Inl err, snd (run_script S (vk_now e) op keys args v))
      | Delivered \<Rightarrow>
          (case run_script S (vk_now e) op keys args v of
             (Inl err, v') \<Rightarrow> (Inl err, v')
           | (Inr values0, v') \<Rightarrow> (decode_reply values0, v')))"

section \<open>The store\<close>

definition unix_epoch :: instant where
  "unix_epoch = 62135596800000000000"

definition time_UnixMilli :: "int \<Rightarrow> instant" where
  "time_UnixMilli ms = unix_epoch + ms * 1000000"

definition key_digest :: "Key \<Rightarrow> string" where
  "key_digest key = hex_EncodeToString (take 16 (sha256_Sum256 (key_String key)))"

definition lease_key :: "string \<Rightarrow> string \<Rightarrow> string" where
  "lease_key prefix digest = prefix @ '':'' @ (''{'' @ digest @ ''}'') @ '':lease''"

definition counter_key :: "string \<Rightarrow> string \<Rightarrow> string" where
  "counter_key prefix digest = prefix @ '':'' @ (''{'' @ digest @ ''}'') @ '':counter''"

definition valkey_keys :: "string \<Rightarrow> Key \<Rightarrow> string list" where
  "valkey_keys prefix key = [lease_key prefix (key_digest key), counter_key prefix (key_digest key)]"

definition valkey_newStore :: "bool \<Rightarrow> string \<Rightarrow> string result" where
  "valkey_newStore executor_set prefix =
     (if \<not> executor_set then Inl (Wrap (Sentinel ErrInvalidState) ''valkey options'')
      else if prefix = '''' then Inl (Wrap (Sentinel ErrInvalidState) ''valkey options'')
      else if length prefix > 64 then Inl (Wrap (Sentinel ErrInvalidState) ''valkey options'')
      else if strings_ContainsAny prefix [CHR ''{'', CHR ''}'', CHR 0x00, CHR 0x0D, CHR 0x0A, CHR '' '']
      then Inl (Wrap (Sentinel ErrInvalidState) ''valkey options'')
      else Inr prefix)"

definition valkey_validate ::
  "ctx_error option \<Rightarrow> Key \<Rightarrow> string \<Rightarrow> Token \<Rightarrow> duration \<Rightarrow> gerror option" where
  "valkey_validate ctx key owner token ttl =
     (case ctx of
        Some err \<Rightarrow> Some (Wrap (Sentinel ErrCanceled) ''valkey context'')
      | None \<Rightarrow>
          if key_String key = '''' then Some (Wrap (Sentinel ErrInvalidState) ''valkey input'')
          else if owner = '''' then Some (Wrap (Sentinel ErrInvalidState) ''valkey input'')
          else if length owner > 128 then Some (Wrap (Sentinel ErrInvalidState) ''valkey input'')
          else if token = 0 then Some (Wrap (Sentinel ErrInvalidState) ''valkey input'')
          else if ttl <s Millisecond then Some (Wrap (Sentinel ErrInvalidState) ''valkey input'')
          else None)"

definition valkey_classify :: "ctx_error option \<Rightarrow> gerror \<Rightarrow> bool \<Rightarrow> gerror" where
  "valkey_classify ctx err ambiguous =
     (if ambiguous then failure_Wrap (Sentinel ErrAmbiguousOutcome) err ''valkey operation''
      else if ctx \<noteq> None \<or> errors_Is err (CtxError Canceled) \<or> errors_Is err (CtxError DeadlineExceeded)
      then Wrap (Sentinel ErrCanceled) ''valkey operation''
      else failure_Wrap (Sentinel ErrBackendUnavailable) err ''valkey operation'')"

definition parseRecord :: "Key \<Rightarrow> string \<Rightarrow> string list \<Rightarrow> gerror \<Rightarrow> Record result" where
  "parseRecord key owner reply0 expected =
     (if length reply0 = 1 \<and> hd reply0 \<noteq> ''ok'' then Inl (Wrap expected ''valkey operation'')
      else (case reply0 of
          [r0, r1, r2, r3] \<Rightarrow>
            if r0 \<noteq> ''ok'' then Inl (Wrap (Sentinel ErrBackendUnavailable) ''valkey response'')
            else (case (strconv_ParseUint r1, strconv_ParseInt r2, strconv_ParseInt r3) of
                (Some token, Some acquired, Some expires) \<Rightarrow>
                  if token = 0 then Inl (Wrap (Sentinel ErrBackendUnavailable) ''valkey response'')
                  else if expires \<le> acquired
                  then Inl (Wrap (Sentinel ErrBackendUnavailable) ''valkey response'')
                  else Inr \<lparr>rec_Key = key, rec_Owner = owner, rec_Token = token,
                     rec_AcquiredAt = time_UnixMilli acquired, rec_ExpiresAt = time_UnixMilli expires\<rparr>
              | _ \<Rightarrow> Inl (Wrap (Sentinel ErrBackendUnavailable) ''valkey response''))
        | _ \<Rightarrow> Inl (Wrap (Sentinel ErrBackendUnavailable) ''valkey response'')))"

definition valkey_TryAcquire ::
  "'v valkey \<Rightarrow> string \<Rightarrow> vk_env \<Rightarrow> Key \<Rightarrow> string \<Rightarrow> duration \<Rightarrow> 'v \<Rightarrow> Record result \<times> 'v" where
  "valkey_TryAcquire S prefix e key owner ttl v =
     (case valkey_validate (vk_ctx e) key owner 1 ttl of
        Some err \<Rightarrow> (Inl err, v)
      | None \<Rightarrow>
          (case native_Exec S e opAcquire (valkey_keys prefix key)
                  [owner, strconv_FormatInt (duration_Milliseconds ttl)] v of
             (Inl err, v') \<Rightarrow> (Inl (valkey_classify (vk_ctx_after e) err True), v')
           | (Inr reply0, v') \<Rightarrow> (parseRecord key owner reply0 (Sentinel ErrContended), v')))"

definition valkey_Renew ::
  "'v valkey \<Rightarrow> string \<Rightarrow> vk_env \<Rightarrow> Record \<Rightarrow> duration \<Rightarrow> 'v \<Rightarrow> Record result \<times> 'v" where
  "valkey_Renew S prefix e owned ttl v =
     (case valkey_validate (vk_ctx e) (rec_Key owned) (rec_Owner owned) (rec_Token owned) ttl of
        Some err \<Rightarrow> (Inl err, v)
      | None \<Rightarrow>
          (case native_Exec S e opRenew (valkey_keys prefix (rec_Key owned))
                  [rec_Owner owned, strconv_FormatUint (rec_Token owned),
                   strconv_FormatInt (duration_Milliseconds ttl)] v of
             (Inl err, v') \<Rightarrow> (Inl (valkey_classify (vk_ctx_after e) err True), v')
           | (Inr reply0, v') \<Rightarrow>
               (case parseRecord (rec_Key owned) (rec_Owner owned) reply0 (Sentinel ErrStaleOwner) of
                  Inl err \<Rightarrow> (Inl err, v')
                | Inr record0 \<Rightarrow>
                    if rec_Token record0 \<noteq> rec_Token owned
                    then (Inl (Wrap (Sentinel ErrAmbiguousOutcome) ''valkey renew response''), v')
                    else (Inr record0, v'))))"

definition valkey_Validate ::
  "'v valkey \<Rightarrow> string \<Rightarrow> vk_env \<Rightarrow> Record \<Rightarrow> 'v \<Rightarrow> Record result \<times> 'v" where
  "valkey_Validate S prefix e owned v =
     (case valkey_validate (vk_ctx e) (rec_Key owned) (rec_Owner owned) (rec_Token owned) Millisecond of
        Some err \<Rightarrow> (Inl err, v)
      | None \<Rightarrow>
          (case native_Exec S e opValidate (valkey_keys prefix (rec_Key owned))
                  [rec_Owner owned, strconv_FormatUint (rec_Token owned)] v of
             (Inl err, v') \<Rightarrow> (Inl (valkey_classify (vk_ctx_after e) err False), v')
           | (Inr reply0, v') \<Rightarrow>
               (case parseRecord (rec_Key owned) (rec_Owner owned) reply0 (Sentinel ErrStaleOwner) of
                  Inl err \<Rightarrow> (Inl err, v')
                | Inr record0 \<Rightarrow>
                    if rec_Token record0 \<noteq> rec_Token owned
                    then (Inl (Wrap (Sentinel ErrBackendUnavailable) ''valkey validate response''), v')
                    else (Inr record0, v'))))"

definition valkey_Release ::
  "'v valkey \<Rightarrow> string \<Rightarrow> vk_env \<Rightarrow> Record \<Rightarrow> 'v \<Rightarrow> gerror option \<times> 'v" where
  "valkey_Release S prefix e owned v =
     (case valkey_validate (vk_ctx e) (rec_Key owned) (rec_Owner owned) (rec_Token owned) Millisecond of
        Some err \<Rightarrow> (Some err, v)
      | None \<Rightarrow>
          (case native_Exec S e opRelease (valkey_keys prefix (rec_Key owned))
                  [rec_Owner owned, strconv_FormatUint (rec_Token owned)] v of
             (Inl err, v') \<Rightarrow> (Some (valkey_classify (vk_ctx_after e) err True), v')
           | (Inr reply0, v') \<Rightarrow>
               (case reply0 of
                  [r] \<Rightarrow>
                    if r = ''ok'' \<or> r = ''missing'' then (None, v')
                    else if r = ''stale'' then (Some (Wrap (Sentinel ErrStaleOwner) ''valkey release''), v')
                    else (Some (Wrap (Sentinel ErrBackendUnavailable) ''valkey response''), v')
                | _ \<Rightarrow> (Some (Wrap (Sentinel ErrBackendUnavailable) ''valkey response''), v'))))"

definition valkey_backend :: "'v valkey \<Rightarrow> string \<Rightarrow> (vk_env, 'v) Backend" where
  "valkey_backend S prefix = \<lparr>be_TryAcquire = valkey_TryAcquire S prefix, be_Renew = valkey_Renew S prefix,
     be_Validate = valkey_Validate S prefix, be_Release = valkey_Release S prefix\<rparr>"

section \<open>Guards and cluster hash tags\<close>

record Guard =
  guard_storageKey :: string
  guard_owner :: string
  guard_token :: string

definition valkey_Guard :: "string \<Rightarrow> Record \<Rightarrow> Guard result" where
  "valkey_Guard prefix owned =
     (if key_String (rec_Key owned) = '''' then Inl (Wrap (Sentinel ErrInvalidState) ''valkey guard'')
      else if rec_Owner owned = '''' then Inl (Wrap (Sentinel ErrInvalidState) ''valkey guard'')
      else if length (rec_Owner owned) > 128 then Inl (Wrap (Sentinel ErrInvalidState) ''valkey guard'')
      else if rec_Token owned = 0 then Inl (Wrap (Sentinel ErrInvalidState) ''valkey guard'')
      else Inr \<lparr>guard_storageKey = lease_key prefix (key_digest (rec_Key owned)),
                guard_owner = rec_Owner owned, guard_token = strconv_FormatUint (rec_Token owned)\<rparr>)"

text \<open>The text between the first brace and the next closing one, which selects the cluster slot.\<close>

definition hashTag :: "string \<Rightarrow> string" where
  "hashTag key =
     (case strings_Cut key (CHR ''{'') of
        (_, rest, found) \<Rightarrow>
          if \<not> found then ''''
          else (case strings_Cut rest (CHR ''}'') of (tag, _, closed) \<Rightarrow> if \<not> closed then '''' else tag))"

section \<open>Opening a store\<close>

text \<open>\<^verbatim>\<open>strings.Split\<close> at a one-byte separator, \<^verbatim>\<open>TrimSpace\<close> on ASCII text and \<^verbatim>\<open>CutPrefix\<close>.\<close>

fun strings_Split :: "string \<Rightarrow> char \<Rightarrow> string list" where
  "strings_Split [] sep = [[]]"
| "strings_Split (c # cs) sep =
     (if c = sep then [] # strings_Split cs sep
      else (case strings_Split cs sep of [] \<Rightarrow> [[c]] | l # ls \<Rightarrow> (c # l) # ls))"

definition is_space :: "char \<Rightarrow> bool" where
  "is_space c \<longleftrightarrow> c \<in> set [CHR 0x09, CHR 0x0A, CHR 0x0B, CHR 0x0C, CHR 0x0D, CHR '' '']"

definition strings_TrimSpace :: "string \<Rightarrow> string" where
  "strings_TrimSpace s = rev (dropWhile is_space (rev (dropWhile is_space s)))"

fun strings_CutPrefix :: "string \<Rightarrow> string \<Rightarrow> string option" where
  "strings_CutPrefix s [] = Some s"
| "strings_CutPrefix (c # cs) (p # ps) = (if c = p then strings_CutPrefix cs ps else None)"
| "strings_CutPrefix [] (p # ps) = None"

fun major_in :: "string list \<Rightarrow> int result" where
  "major_in [] = Inl (Opaque ''valkey version missing'' [])"
| "major_in (line # lines) =
     (case strings_CutPrefix (strings_TrimSpace line) ''valkey_version:'' of
        None \<Rightarrow> major_in lines
      | Some version \<Rightarrow>
          (case strings_Cut version (CHR ''.'') of
             (major, _, _) \<Rightarrow>
               (case strconv_Atoi major of None \<Rightarrow> Inl (Opaque ''strconv.Atoi'' []) | Some n \<Rightarrow> Inr n)))"

definition valkeyMajor :: "string \<Rightarrow> int result" where
  "valkeyMajor info = major_in (strings_Split info (CHR 0x0A))"

text \<open>
  \<^verbatim>\<open>Check\<close> asks the server for its \<^verbatim>\<open>INFO server\<close> text and for its eviction policy; the two
  answers, and the state of the context when they fail, are arguments.
\<close>

definition native_Check ::
  "string result \<Rightarrow> ctx_error option \<Rightarrow> (string \<rightharpoonup> string) result \<Rightarrow> ctx_error option \<Rightarrow> gerror option" where
  "native_Check info_reply ctx1 config_reply ctx2 =
     (case info_reply of
        Inl err \<Rightarrow> Some (valkey_classify ctx1 err False)
      | Inr info \<Rightarrow>
          (case valkeyMajor info of
             Inl err \<Rightarrow> Some (failure_Wrap (Sentinel ErrBackendUnavailable) err ''Valkey inspection'')
           | Inr major \<Rightarrow>
               if major < 9
               then Some (failure_Wrap (Sentinel ErrBackendUnavailable)
                      (Opaque ''valkey version is older than 9'' []) ''Valkey inspection'')
               else (case config_reply of
                   Inl err \<Rightarrow> Some (valkey_classify ctx2 err False)
                 | Inr config \<Rightarrow>
                     if config ''maxmemory-policy'' \<noteq> Some ''noeviction''
                     then Some (Wrap (Sentinel ErrBackendUnavailable) ''Valkey eviction policy'')
                     else None)))"

definition valkey_New :: "bool \<Rightarrow> string \<Rightarrow> string result" where
  "valkey_New client_set prefix =
     (if \<not> client_set then Inl (Wrap (Sentinel ErrInvalidState) ''nil valkey client'')
      else valkey_newStore True prefix)"

text \<open>A context argument is \<open>None\<close> for nil and otherwise carries its error.\<close>

definition valkey_Open ::
  "ctx_error option option \<Rightarrow> bool \<Rightarrow> string \<Rightarrow> string result \<Rightarrow> ctx_error option \<Rightarrow>
   (string \<rightharpoonup> string) result \<Rightarrow> ctx_error option \<Rightarrow> string result" where
  "valkey_Open ctx client_set prefix info_reply ctx1 config_reply ctx2 =
     (if \<not> client_set then Inl (Wrap (Sentinel ErrInvalidState) ''nil valkey client'')
      else (case ctx of
          None \<Rightarrow> Inl (Wrap (Sentinel ErrInvalidState) ''valkey context'')
        | Some (Some cerr) \<Rightarrow> Inl (Joined [Wrap (Sentinel ErrCanceled) ''valkey context'', CtxError cerr])
        | Some None \<Rightarrow>
            (case native_Check info_reply ctx1 config_reply ctx2 of
               Some err \<Rightarrow> Inl err
             | None \<Rightarrow> valkey_newStore True prefix)))"

section \<open>What the scripts rely on\<close>

text \<open>
  The server's key space as the scripts see it: the hash under a key with its expiry in
  milliseconds, and the integer value of a string key, 0 when it is absent. A hash whose
  expiry lies before the current millisecond is gone.
\<close>

type_synonym hash = "(string \<rightharpoonup> string) \<times> nat option"

definition live_hash :: "nat \<Rightarrow> hash option \<Rightarrow> (string \<rightharpoonup> string) option" where
  "live_hash ms h =
     (case h of
        None \<Rightarrow> None
      | Some (fs, None) \<Rightarrow> Some fs
      | Some (fs, Some expiry) \<Rightarrow> if ms \<le> expiry then Some fs else None)"

text \<open>
  Documented behaviour of the commands, on keys of the right type: a counter is a string
  key without expiry, a lease a hash. A new hash has no expiry, a write to an existing one
  keeps it, and increments stop at the largest signed 64-bit integer. Numbers below
  \<open>10 ^ 14\<close> are printed by Lua's \<^verbatim>\<open>%.14g\<close> as plain decimals. Error replies of the server do
  not contain the sentinels of this program.
\<close>

locale valkey_server =
  fixes S :: "'v valkey"
    and hash_at :: "'v \<Rightarrow> string \<Rightarrow> hash option"
    and count_at :: "'v \<Rightarrow> string \<Rightarrow> nat"
  assumes exists_law: "count_at v k = 0 \<Longrightarrow> EXISTS S now k v \<longleftrightarrow> live_hash (now div 1000) (hash_at v k) \<noteq> None"
    and hget_law: "count_at v k = 0 \<Longrightarrow>
      HGET S now k f v = (case live_hash (now div 1000) (hash_at v k) of None \<Rightarrow> None | Some h \<Rightarrow> h f)"
    and incr_law: "hash_at v k = None \<Longrightarrow> INCR S now k v = Inr v' \<Longrightarrow>
      count_at v k < 2 ^ 63 - 1 \<and> count_at v' = (count_at v)(k := Suc (count_at v k)) \<and> hash_at v' = hash_at v"
    and incr_ok: "hash_at v k = None \<Longrightarrow> count_at v k < 2 ^ 63 - 1 \<Longrightarrow> \<exists>v'. INCR S now k v = Inr v'"
    and incr_error: "INCR S now k v = Inl err \<Longrightarrow> \<not> errors_Is err (Sentinel sen)"
    and get_law: "hash_at v k = None \<Longrightarrow> count_at v k \<noteq> 0 \<Longrightarrow> GET S now k v = Some (digits10 (count_at v k))"
    and time_law: "TIME S now = (now div 1000000, now mod 1000000)"
    and hset_law: "count_at v k = 0 \<Longrightarrow>
      count_at (HSET S now k fvs v) = count_at v \<and>
      hash_at (HSET S now k fvs v) = (hash_at v)(k :=
        (case live_hash (now div 1000) (hash_at v k) of
           None \<Rightarrow> Some (map_of (rev fvs), None)
         | Some h \<Rightarrow> Some (h ++ map_of (rev fvs), snd (the (hash_at v k)))))"
    and pexpire_law: "count_at v k = 0 \<Longrightarrow> hash_at v k = Some (h, old) \<Longrightarrow>
      live_hash (now div 1000) (hash_at v k) \<noteq> None \<Longrightarrow> parse_nat ms = Some n \<Longrightarrow> 0 < n \<Longrightarrow>
      count_at (PEXPIRE S now k ms v) = count_at v \<and>
      hash_at (PEXPIRE S now k ms v) = (hash_at v)(k := Some (h, Some (now div 1000 + n)))"
    and del_law: "count_at v k = 0 \<Longrightarrow>
      count_at (DEL S now k v) = count_at v \<and> hash_at (DEL S now k v) = (hash_at v)(k := None)"
    and tostring_law: "n < 10 ^ 14 \<Longrightarrow> TOSTRING S n = digits10 n"

section \<open>View and invariant\<close>

definition valkey_instant :: "nat \<Rightarrow> instant" where
  "valkey_instant now = unix_epoch + int now * 1000"

definition valkey_ms :: "instant \<Rightarrow> nat" where
  "valkey_ms t = nat ((t - unix_epoch) div 1000000)"

definition hash_holder :: "(string \<rightharpoonup> string) \<Rightarrow> holder option" where
  "hash_holder h =
     (case (h ''owner'', h ''token'') of
        (Some ow, Some tok) \<Rightarrow> (case strconv_ParseUint tok of None \<Rightarrow> None | Some w \<Rightarrow> Some (ow, w))
      | _ \<Rightarrow> None)"

definition valkey_live ::
  "('v \<Rightarrow> string \<Rightarrow> hash option) \<Rightarrow> string \<Rightarrow> 'v \<Rightarrow> instant \<Rightarrow> string \<Rightarrow> holder option" where
  "valkey_live hash_at prefix v t d =
     (case live_hash (valkey_ms t) (hash_at v (lease_key prefix d)) of
        None \<Rightarrow> None | Some h \<Rightarrow> hash_holder h)"

definition valkey_fence :: "('v \<Rightarrow> string \<Rightarrow> nat) \<Rightarrow> string \<Rightarrow> 'v \<Rightarrow> string \<Rightarrow> nat" where
  "valkey_fence count_at prefix v d = count_at v (counter_key prefix d)"

text \<open>A stored lease has readable times, and its expiry field is the expiry of the hash.\<close>

definition hash_times :: "hash \<Rightarrow> bool" where
  "hash_times hx \<longleftrightarrow> (\<exists>a b. fst hx ''acquired'' = Some (digits10 a) \<and> fst hx ''expires'' = Some (digits10 b) \<and>
     snd hx = Some b \<and> a < 10 ^ 14 \<and> b < 10 ^ 14)"

definition wf_hash :: "nat \<Rightarrow> hash \<Rightarrow> bool" where
  "wf_hash n hx \<longleftrightarrow> hash_times hx \<and>
     (\<exists>ow tok. fst hx ''owner'' = Some ow \<and> fst hx ''token'' = Some (strconv_FormatUint tok) \<and>
        tok \<noteq> 0 \<and> unat tok \<le> n)"

definition valkey_invar ::
  "('v \<Rightarrow> string \<Rightarrow> hash option) \<Rightarrow> ('v \<Rightarrow> string \<Rightarrow> nat) \<Rightarrow> string \<Rightarrow> 'v \<Rightarrow> bool" where
  "valkey_invar hash_at count_at prefix v \<longleftrightarrow>
     (\<forall>d. count_at v (lease_key prefix d) = 0 \<and> hash_at v (counter_key prefix d) = None \<and>
        count_at v (counter_key prefix d) < 2 ^ 63 \<and>
        (\<forall>hx. hash_at v (lease_key prefix d) = Some hx \<longrightarrow> wf_hash (count_at v (counter_key prefix d)) hx))"

text \<open>
  What one exchange must satisfy: the server's clock is before the year 4800, so that all
  times print as plain decimals, and transport errors do not contain the program's own
  sentinels.
\<close>

definition valkey_env_ok :: "vk_env \<Rightarrow> bool" where
  "valkey_env_ok e \<longleftrightarrow> vk_now e div 1000 < 90000000000000 \<and>
     (case vk_fate e of Delivered \<Rightarrow> True | LostRequest err \<Rightarrow> foreign_error err | LostReply err \<Rightarrow> foreign_error err)"

section \<open>Key derivation\<close>

lemma lease_key_inject [simp]: "lease_key p d = lease_key p d' \<longleftrightarrow> d = d'"
  by (simp add: lease_key_def)

lemma counter_key_inject [simp]: "counter_key p d = counter_key p d' \<longleftrightarrow> d = d'"
  by (simp add: counter_key_def)

lemma lease_counter_distinct [simp]: "lease_key p d \<noteq> counter_key p d'" "counter_key p d' \<noteq> lease_key p d"
proof -
  have "last (lease_key p d) = CHR ''e''" "last (counter_key p d') = CHR ''r''"
    by (simp_all add: lease_key_def counter_key_def)
  then show "lease_key p d \<noteq> counter_key p d'" "counter_key p d' \<noteq> lease_key p d" by auto
qed

lemma valkey_ms_instant [simp]: "valkey_ms (valkey_instant now) = now div 1000"
  by (simp add: valkey_ms_def valkey_instant_def zdiv_int)

lemma valkey_ms_mono: "t \<le> t' \<Longrightarrow> valkey_ms t \<le> valkey_ms t'"
  by (simp add: valkey_ms_def nat_mono zdiv_mono1)

lemma valkey_ms_before: "t < time_UnixMilli (int x) \<Longrightarrow> valkey_ms t \<le> x"
proof -
  assume "t < time_UnixMilli (int x)"
  then have "(t - unix_epoch) div 1000000 \<le> int x"
    by (simp add: time_UnixMilli_def)
  then show ?thesis by (simp add: valkey_ms_def)
qed

lemma live_hash_mono:
  "live_hash ms' h = Some fs \<Longrightarrow> ms \<le> ms' \<Longrightarrow> live_hash ms h = Some fs"
  by (auto simp: live_hash_def split: option.splits prod.splits if_splits)

lemma live_hash_Some: "live_hash ms h = Some fs \<Longrightarrow> \<exists>x. h = Some (fs, x)"
  by (auto simp: live_hash_def split: option.splits prod.splits if_splits)

lemma hash_holder_FormatUint:
  "h ''owner'' = Some ow \<Longrightarrow> h ''token'' = Some (strconv_FormatUint tok) \<Longrightarrow> hash_holder h = Some (ow, tok)"
  by (simp add: hash_holder_def)

lemma wf_hash_holder: "wf_hash n (h, x) \<Longrightarrow> hash_holder h = Some (ow, tok) \<Longrightarrow>
   h ''owner'' = Some ow \<and> h ''token'' = Some (strconv_FormatUint tok) \<and> unat tok \<le> n"
  by (auto simp: wf_hash_def hash_holder_FormatUint)

lemma Milliseconds_arg:
  assumes "\<not> ttl <s (1000000 :: duration)"
  shows "parse_nat (strconv_FormatInt (duration_Milliseconds ttl)) = Some (nat (sint ttl div 1000000))"
    and "0 < nat (sint ttl div 1000000)" and "nat (sint ttl div 1000000) < 9300000000000"
proof -
  have ge: "1000000 \<le> sint ttl" using assms by (simp add: word_sless_alt)
  have lt: "sint ttl < 2 ^ 63" by (rule sint64_range)
  have pos: "0 < sint ttl div 1000000" using ge by (simp add: pos_imp_zdiv_pos_iff)
  have ms: "duration_Milliseconds ttl = sint ttl div 1000000"
    using ge by (simp add: duration_Milliseconds_def)
  show "parse_nat (strconv_FormatInt (duration_Milliseconds ttl)) = Some (nat (sint ttl div 1000000))"
    using pos by (simp add: ms strconv_FormatInt_def)
  show "0 < nat (sint ttl div 1000000)" using pos by simp
  have "sint ttl div 1000000 < 9300000000000" using lt by simp
  then show "nat (sint ttl div 1000000) < 9300000000000" by simp
qed

section \<open>The scripts against the server's laws\<close>

context valkey_server
begin

lemma script_nowms_eq [simp]: "script_nowms S now = now div 1000"
proof -
  have "now div 1000000 = now div 1000 div 1000" by (simp add: div_mult2_eq [symmetric])
  moreover have "now mod 1000000 = 1000 * (now div 1000 mod 1000) + now mod 1000"
    using mod_mult2_eq [of now 1000 1000] by simp
  then have "now mod 1000000 div 1000 = now div 1000 mod 1000" by simp
  ultimately have "now div 1000000 * 1000 + now mod 1000000 div 1000 = now div 1000"
    using div_mult_mod_eq [of "now div 1000" 1000] by simp
  then show ?thesis by (simp add: script_nowms_def time_law)
qed

lemma acquireScript_cases:
  assumes inv: "valkey_invar hash_at count_at p v" and ttl: "parse_nat a2 = Some n" "0 < n"
    and small: "now div 1000 + n < 10 ^ 14"
    and run: "acquireScript S now (lease_key p d) (counter_key p d) ow a2 v = (rep, v')"
  obtains (contended) "rep = Inr [Some ''contended'']" "v' = v"
      "live_hash (now div 1000) (hash_at v (lease_key p d)) \<noteq> None"
  | (failed) err where "rep = Inl err" "v' = v" "foreign_error err" "INCR S now (counter_key p d) v = Inl err"
  | (installed) c h where "c = Suc (count_at v (counter_key p d))" "c < 2 ^ 63"
      "rep = Inr [Some ''ok'', Some (digits10 c), Some (digits10 (now div 1000)), Some (digits10 (now div 1000 + n))]"
      "live_hash (now div 1000) (hash_at v (lease_key p d)) = None"
      "hash_at v' = (hash_at v)(lease_key p d := Some (h, Some (now div 1000 + n)))"
      "count_at v' = (count_at v)(counter_key p d := c)"
      "h ''owner'' = Some ow" "h ''token'' = Some (digits10 c)"
      "h ''acquired'' = Some (digits10 (now div 1000))" "hash_times (h, Some (now div 1000 + n))"
proof (cases "EXISTS S now (lease_key p d) v")
  case True
  with inv run show ?thesis
    by (intro contended) (auto simp: acquireScript_def valkey_invar_def exists_law)
next
  case False
  with inv have gone: "live_hash (now div 1000) (hash_at v (lease_key p d)) = None"
    by (simp add: valkey_invar_def exists_law)
  show ?thesis
  proof (cases "INCR S now (counter_key p d) v")
    case (Inl err)
    with False run show ?thesis
      by (intro failed [of err]) (auto simp: acquireScript_def foreign_error_def dest: incr_error)
  next
    case (Inr v1)
    let ?c = "Suc (count_at v (counter_key p d))"
    have c1: "count_at v (counter_key p d) < 2 ^ 63 - 1" "count_at v1 = (count_at v)(counter_key p d := ?c)"
      "hash_at v1 = hash_at v"
      using incr_law [OF _ Inr] inv by (simp_all add: valkey_invar_def)
    have get: "GET S now (counter_key p d) v1 = Some (digits10 ?c)"
      using get_law [of v1 "counter_key p d" now] c1 inv by (simp add: valkey_invar_def)
    let ?fvs = "[(''owner'', ow), (''token'', digits10 ?c), (''acquired'', TOSTRING S (now div 1000)),
      (''expires'', TOSTRING S (now div 1000 + n))]"
    let ?v2 = "HSET S now (lease_key p d) ?fvs v1"
    have zero1: "count_at v1 (lease_key p d) = 0" using c1 inv by (simp add: valkey_invar_def)
    have h2: "count_at ?v2 = count_at v1"
      "hash_at ?v2 = (hash_at v)(lease_key p d := Some (map_of (rev ?fvs), None))"
      using hset_law [OF zero1, of now ?fvs] gone c1 by simp_all
    have h3: "count_at (PEXPIRE S now (lease_key p d) a2 ?v2) = count_at v1"
      "hash_at (PEXPIRE S now (lease_key p d) a2 ?v2) =
         (hash_at v)(lease_key p d := Some (map_of (rev ?fvs), Some (now div 1000 + n)))"
      using pexpire_law [of ?v2 "lease_key p d" "map_of (rev ?fvs)" None now a2 n] h2 ttl zero1
      by (simp_all add: live_hash_def)
    show ?thesis
      using False Inr get ttl run c1 h3 gone tostring_law small
      by (intro installed [of ?c "map_of (rev ?fvs)"])
        (auto simp: acquireScript_def Let_def hash_times_def)
  qed
qed

lemma not_owned_iff:
  assumes "valkey_invar hash_at count_at p v"
    and "live_hash (now div 1000) (hash_at v (lease_key p d)) = Some h"
  shows "not_owned S now (lease_key p d) ow (strconv_FormatUint tok) v \<longleftrightarrow> hash_holder h \<noteq> Some (ow, tok)"
proof -
  obtain x where at: "hash_at v (lease_key p d) = Some (h, x)" using live_hash_Some assms(2) by blast
  with assms(1) have "wf_hash (count_at v (counter_key p d)) (h, x)" by (simp add: valkey_invar_def)
  then obtain ow' tok' where h: "h ''owner'' = Some ow'" "h ''token'' = Some (strconv_FormatUint tok')"
    by (auto simp: wf_hash_def)
  moreover have "HGET S now (lease_key p d) f v = h f" for f
    using hget_law [of v "lease_key p d" now f] assms by (simp add: valkey_invar_def)
  ultimately show ?thesis by (auto simp: not_owned_def hash_holder_FormatUint)
qed

lemma owned_iff:
  assumes inv: "valkey_invar hash_at count_at p v"
  shows "(\<not> EXISTS S now (lease_key p d) v \<or> not_owned S now (lease_key p d) ow (strconv_FormatUint tok) v) \<longleftrightarrow>
    valkey_live hash_at p v (valkey_instant now) d \<noteq> Some (ow, tok)"
  using exists_law [of v "lease_key p d" now] inv not_owned_iff [OF inv, of now d]
  by (cases "live_hash (now div 1000) (hash_at v (lease_key p d))")
    (auto simp: valkey_live_def valkey_invar_def)

lemma renewScript_cases:
  assumes inv: "valkey_invar hash_at count_at p v" and ttl: "parse_nat a3 = Some n" "0 < n"
    and small: "now div 1000 + n < 10 ^ 14"
    and run: "renewScript S now (lease_key p d) ow (strconv_FormatUint tok) a3 v = (rep, v')"
  obtains (stale) "rep = Inr [Some ''stale'']" "v' = v"
      "valkey_live hash_at p v (valkey_instant now) d \<noteq> Some (ow, tok)"
  | (renewed) h h' a where "live_hash (now div 1000) (hash_at v (lease_key p d)) = Some h"
      "hash_holder h = Some (ow, tok)"
      "rep = Inr [Some ''ok'', Some (strconv_FormatUint tok), a, Some (digits10 (now div 1000 + n))]"
      "hash_at v' = (hash_at v)(lease_key p d := Some (h', Some (now div 1000 + n)))"
      "count_at v' = count_at v" "h' ''owner'' = h ''owner''" "h' ''token'' = h ''token''"
      "h' ''acquired'' = h ''acquired''" "hash_times (h', Some (now div 1000 + n))" "a = h ''acquired''"
proof (cases "valkey_live hash_at p v (valkey_instant now) d = Some (ow, tok)")
  case False
  with owned_iff [OF inv, of now d ow tok] run show ?thesis
    by (intro stale) (auto simp: renewScript_def)
next
  case True
  then obtain h where h: "live_hash (now div 1000) (hash_at v (lease_key p d)) = Some h"
    "hash_holder h = Some (ow, tok)"
    by (auto simp: valkey_live_def split: option.splits)
  then obtain x where at: "hash_at v (lease_key p d) = Some (h, x)" using live_hash_Some by blast
  let ?fvs = "[(''expires'', TOSTRING S (now div 1000 + n))]"
  let ?v1 = "HSET S now (lease_key p d) ?fvs v"
  let ?h' = "h(''expires'' \<mapsto> TOSTRING S (now div 1000 + n))"
  have zero: "count_at v (lease_key p d) = 0" using inv by (simp add: valkey_invar_def)
  have h1: "count_at ?v1 = count_at v" "hash_at ?v1 = (hash_at v)(lease_key p d := Some (?h', x))"
    using hset_law [OF zero, of now ?fvs] h at by (simp_all add: map_add_def fun_eq_iff)
  have alive: "live_hash (now div 1000) (Some (?h', x)) \<noteq> None"
    using h(1) at by (auto simp: live_hash_def split: option.splits if_splits)
  have h2: "count_at (PEXPIRE S now (lease_key p d) a3 ?v1) = count_at v"
    "hash_at (PEXPIRE S now (lease_key p d) a3 ?v1) =
       (hash_at v)(lease_key p d := Some (?h', Some (now div 1000 + n)))"
    using pexpire_law [of ?v1 "lease_key p d" ?h' x now a3 n] h1 ttl zero alive by simp_all
  have run': "renewScript S now (lease_key p d) ow (strconv_FormatUint tok) a3 v =
      (Inr [Some ''ok'', Some (strconv_FormatUint tok), HGET S now (lease_key p d) ''acquired'' v,
         Some (TOSTRING S (now div 1000 + n))], PEXPIRE S now (lease_key p d) a3 ?v1)"
    using owned_iff [OF inv, of now d ow tok] True ttl by (simp add: renewScript_def Let_def)
  have get: "HGET S now (lease_key p d) ''acquired'' v = h ''acquired''"
    using hget_law [OF zero, of now "''acquired''"] h(1) by simp
  have "hash_times (h, x)" using inv at by (auto simp: valkey_invar_def wf_hash_def)
  then have times: "hash_times (?h', Some (now div 1000 + n))"
    using tostring_law [OF small] small by (auto simp: hash_times_def)
  show ?thesis
    by (rule renewed [OF h, of "HGET S now (lease_key p d) ''acquired'' v" ?h'])
      (use run run' h2 tostring_law [OF small] get times in auto)
qed

end

lemma classify_ambiguous:
  "foreign_error err \<Longrightarrow> errors_Is (valkey_classify ctx err True) (Sentinel x) \<longleftrightarrow> x = ErrAmbiguousOutcome"
  by (auto simp: valkey_classify_def foreign_error_def)

lemma classify_definite:
  "foreign_error err \<Longrightarrow> errors_Is (valkey_classify ctx err False) (Sentinel x) \<Longrightarrow>
   x = ErrCanceled \<or> x = ErrBackendUnavailable"
  by (auto simp: valkey_classify_def foreign_error_def split: if_splits)

lemma valkey_validate_class:
  "valkey_validate ctx k ow tok ttl = Some err \<Longrightarrow>
   errors_Is err (Sentinel x) \<longleftrightarrow> x = (if ctx = None then ErrInvalidState else ErrCanceled)"
  by (auto simp: valkey_validate_def split: option.splits if_splits)

lemma valkey_validate_ok:
  "valkey_validate ctx k ow tok ttl = None \<Longrightarrow> \<not> ttl <s 1000000 \<and> tok \<noteq> 0"
  by (auto simp: valkey_validate_def split: option.splits if_splits)

lemma parseRecord_ok:
  assumes "0 < c" "c < 2 ^ 63" "x < 10 ^ 14" "a < x"
  shows "parseRecord k ow [''ok'', digits10 c, digits10 a, digits10 x] expected =
    Inr \<lparr>rec_Key = k, rec_Owner = ow, rec_Token = word_of_nat c,
      rec_AcquiredAt = time_UnixMilli (int a), rec_ExpiresAt = time_UnixMilli (int x)\<rparr>"
    and "unat (word_of_nat c :: Token) = c"
proof -
  show u: "unat (word_of_nat c :: Token) = c"
    using assms by (simp add: unsigned_of_nat take_bit_nat_eq_self)
  have "(word_of_nat c :: Token) \<noteq> 0" using u assms(1) by (metis less_irrefl unat_0)
  moreover have "strconv_ParseUint (digits10 c) = Some (word_of_nat c)"
    using assms by (simp add: strconv_ParseUint_def)
  ultimately show "parseRecord k ow [''ok'', digits10 c, digits10 a, digits10 x] expected =
    Inr \<lparr>rec_Key = k, rec_Owner = ow, rec_Token = word_of_nat c,
      rec_AcquiredAt = time_UnixMilli (int a), rec_ExpiresAt = time_UnixMilli (int x)\<rparr>"
    using assms by (simp add: parseRecord_def ParseInt_digits10)
qed

lemma parseRecord_single [simp]:
  "r \<noteq> ''ok'' \<Longrightarrow> parseRecord k ow [r] expected = Inl (Wrap expected ''valkey operation'')"
  by (simp add: parseRecord_def)

lemma parseRecord_fields:
  "parseRecord k ow reply0 expected = Inr r \<Longrightarrow> rec_Key r = k \<and> rec_Owner r = ow"
  by (auto simp: parseRecord_def Let_def split: if_splits list.splits option.splits)

lemma parseRecord_error:
  "parseRecord k ow [''ok'', b, c, d] expected = Inl err \<Longrightarrow> errors_Is err (Sentinel x) \<longleftrightarrow> x = ErrBackendUnavailable"
  by (auto simp: parseRecord_def split: if_splits option.splits)

lemma parseRecord_expires:
  "parseRecord k ow [''ok'', t, a, digits10 x] expected = Inr r \<Longrightarrow> x < 2 ^ 63 \<Longrightarrow>
   rec_ExpiresAt r = time_UnixMilli (int x)"
  by (auto simp: parseRecord_def ParseInt_digits10 split: if_splits option.splits)

section \<open>The operations, case by case\<close>

context valkey_server
begin

lemma valkey_acquire_cases:
  assumes inv: "valkey_invar hash_at count_at p v" and ok: "valkey_env_ok e"
    and run: "valkey_TryAcquire S p e k ow ttl v = (res, v')"
  obtains (refused) err where "res = Inl err" "v' = v"
      "errors_Is err (Sentinel ErrContended) \<Longrightarrow>
         live_hash (vk_now e div 1000) (hash_at v (lease_key p (key_digest k))) \<noteq> None"
  | (installed) c h x where "c = Suc (count_at v (counter_key p (key_digest k)))" "c < 2 ^ 63"
      "live_hash (vk_now e div 1000) (hash_at v (lease_key p (key_digest k))) = None"
      "hash_at v' = (hash_at v)(lease_key p (key_digest k) := Some (h, Some x))"
      "count_at v' = (count_at v)(counter_key p (key_digest k) := c)"
      "h ''owner'' = Some ow" "h ''token'' = Some (digits10 c)"
      "(\<exists>err. res = Inl err \<and> errors_Is err (Sentinel ErrAmbiguousOutcome) \<and> \<not> errors_Is err (Sentinel ErrContended)) \<or>
       res = Inr \<lparr>rec_Key = k, rec_Owner = ow, rec_Token = word_of_nat c,
         rec_AcquiredAt = time_UnixMilli (int (vk_now e div 1000)), rec_ExpiresAt = time_UnixMilli (int x)\<rparr>"
      "vk_now e div 1000 < x" "x = vk_now e div 1000 + nat (sint ttl div 1000000)"
      "h ''acquired'' = Some (digits10 (vk_now e div 1000))" "hash_times (h, Some x)"
proof (cases "valkey_validate (vk_ctx e) k ow 1 ttl")
  case (Some err)
  with run valkey_validate_class [OF Some] show ?thesis
    by (intro refused [of err]) (auto simp: valkey_TryAcquire_def split: if_splits)
next
  case None
  let ?a2 = "strconv_FormatInt (duration_Milliseconds ttl)"
  let ?n = "nat (sint ttl div 1000000)"
  let ?now = "vk_now e"
  note ttl = Milliseconds_arg [of ttl] valkey_validate_ok [OF None]
  have small: "?now div 1000 + ?n < 10 ^ 14" using ttl ok by (simp add: valkey_env_ok_def)
  obtain rep v1 where script: "acquireScript S ?now (lease_key p (key_digest k))
      (counter_key p (key_digest k)) ow ?a2 v = (rep, v1)" by fastforce
  show ?thesis
  proof (cases "vk_fate e")
    case (LostRequest err)
    then have "foreign_error err" using ok by (simp add: valkey_env_ok_def)
    with LostRequest None run show ?thesis
      by (intro refused [of "valkey_classify (vk_ctx_after e) err True"])
        (auto simp: valkey_TryAcquire_def native_Exec_def classify_ambiguous)
  next
    case (LostReply err)
    then have f: "foreign_error err" using ok by (simp add: valkey_env_ok_def)
    have res: "res = Inl (valkey_classify (vk_ctx_after e) err True)" "v' = v1"
      using LostReply None run script
      by (auto simp: valkey_TryAcquire_def native_Exec_def valkey_keys_def)
    show ?thesis
    proof (rule acquireScript_cases [OF inv ttl(1) ttl(2) small script], goal_cases)
      case 3
      then show ?case using res f by (intro refused) (auto simp: classify_ambiguous)
    next
      case (4 err')
      then show ?case using res f by (intro refused) (auto simp: classify_ambiguous)
    next
      case (5 c h)
      then show ?case using res f ttl
        by (intro installed [of c h "?now div 1000 + ?n"]) (auto simp: classify_ambiguous)
    qed (use ttl in auto)
  next
    case Delivered
    have res: "(res, v') = (case rep of
          Inl err \<Rightarrow> (Inl (valkey_classify (vk_ctx_after e) err True), v1)
        | Inr values0 \<Rightarrow> (case decode_reply values0 of
            Inl err \<Rightarrow> (Inl (valkey_classify (vk_ctx_after e) err True), v1)
          | Inr reply0 \<Rightarrow> (parseRecord k ow reply0 (Sentinel ErrContended), v1)))"
      using Delivered None run script
      by (auto simp: valkey_TryAcquire_def native_Exec_def valkey_keys_def split: sum.splits)
    show ?thesis
    proof (rule acquireScript_cases [OF inv ttl(1) ttl(2) small script], goal_cases)
      case 3
      then show ?case using res by (intro refused) (auto simp: decode_reply_def)
    next
      case (4 err')
      then show ?case using res by (intro refused) (auto simp: classify_ambiguous)
    next
      case (5 c h)
      have "parseRecord k ow [''ok'', digits10 c, digits10 (?now div 1000), digits10 (?now div 1000 + ?n)]
          (Sentinel ErrContended) =
        Inr \<lparr>rec_Key = k, rec_Owner = ow, rec_Token = word_of_nat c,
          rec_AcquiredAt = time_UnixMilli (int (?now div 1000)),
          rec_ExpiresAt = time_UnixMilli (int (?now div 1000 + ?n))\<rparr>"
        using 5 small ttl by (intro parseRecord_ok(1)) auto
      then show ?case using res 5 ttl
        by (intro installed [of c h "?now div 1000 + ?n"]) (auto simp: decode_reply_def)
    qed (use ttl in auto)
  qed
qed

end

text \<open>
  The remaining operations. Each either leaves the server as it is, or acts on a lease its
  caller holds; in both cases the reply may be lost.
\<close>

context valkey_server
begin

lemma valkey_renew_cases:
  assumes inv: "valkey_invar hash_at count_at p v" and ok: "valkey_env_ok e"
    and run: "valkey_Renew S p e r ttl v = (res, v')"
  obtains (refused) err where "res = Inl err" "v' = v"
      "errors_Is err (Sentinel ErrStaleOwner) \<Longrightarrow>
         valkey_live hash_at p v (valkey_instant (vk_now e)) (key_digest (rec_Key r)) \<noteq> Some (rec_Owner r, rec_Token r)"
  | (renewed) h h' x where
      "live_hash (vk_now e div 1000) (hash_at v (lease_key p (key_digest (rec_Key r)))) = Some h"
      "hash_holder h = Some (rec_Owner r, rec_Token r)"
      "hash_at v' = (hash_at v)(lease_key p (key_digest (rec_Key r)) := Some (h', Some x))"
      "count_at v' = count_at v" "h' ''owner'' = h ''owner''" "h' ''token'' = h ''token''"
      "\<And>err. res = Inl err \<Longrightarrow> \<not> errors_Is err (Sentinel ErrStaleOwner)"
      "\<And>r'. res = Inr r' \<Longrightarrow> rec_Key r' = rec_Key r \<and> rec_Owner r' = rec_Owner r \<and>
         rec_Token r' = rec_Token r \<and> rec_ExpiresAt r' = time_UnixMilli (int x)"
      "x = vk_now e div 1000 + nat (sint ttl div 1000000)"
      "h' ''acquired'' = h ''acquired''" "hash_times (h', Some x)"
proof (cases "valkey_validate (vk_ctx e) (rec_Key r) (rec_Owner r) (rec_Token r) ttl")
  case (Some err)
  with run valkey_validate_class [OF Some] show ?thesis
    by (intro refused [of err]) (auto simp: valkey_Renew_def split: if_splits)
next
  case None
  let ?k = "lease_key p (key_digest (rec_Key r))"
  let ?a3 = "strconv_FormatInt (duration_Milliseconds ttl)"
  let ?n = "nat (sint ttl div 1000000)"
  let ?now = "vk_now e"
  note ttl = Milliseconds_arg [of ttl] valkey_validate_ok [OF None]
  have small: "?now div 1000 + ?n < 10 ^ 14" using ttl ok by (simp add: valkey_env_ok_def)
  obtain rep v1 where script: "renewScript S ?now ?k (rec_Owner r) (strconv_FormatUint (rec_Token r)) ?a3 v = (rep, v1)"
    by fastforce
  show ?thesis
  proof (cases "vk_fate e")
    case (LostRequest err)
    then have "foreign_error err" using ok by (simp add: valkey_env_ok_def)
    with LostRequest None run show ?thesis
      by (intro refused [of "valkey_classify (vk_ctx_after e) err True"])
        (auto simp: valkey_Renew_def native_Exec_def classify_ambiguous)
  next
    case (LostReply err)
    then have f: "foreign_error err" using ok by (simp add: valkey_env_ok_def)
    have res: "res = Inl (valkey_classify (vk_ctx_after e) err True)" "v' = v1"
      using LostReply None run script by (auto simp: valkey_Renew_def native_Exec_def valkey_keys_def)
    show ?thesis
    proof (rule renewScript_cases [OF inv ttl(1) ttl(2) small script], goal_cases)
      case 3
      then show ?case using res f by (intro refused) (auto simp: classify_ambiguous)
    next
      case (4 h h' a)
      then show ?case using res f
        by (intro renewed [of h h' "?now div 1000 + ?n"]) (auto simp: classify_ambiguous)
    qed (use ttl in auto)
  next
    case Delivered
    have res: "(res, v') = (case rep of
          Inl err \<Rightarrow> (Inl (valkey_classify (vk_ctx_after e) err True), v1)
        | Inr values0 \<Rightarrow> (case decode_reply values0 of
            Inl err \<Rightarrow> (Inl (valkey_classify (vk_ctx_after e) err True), v1)
          | Inr reply0 \<Rightarrow>
              (case parseRecord (rec_Key r) (rec_Owner r) reply0 (Sentinel ErrStaleOwner) of
                 Inl err \<Rightarrow> (Inl err, v1)
               | Inr record0 \<Rightarrow> if rec_Token record0 \<noteq> rec_Token r
                   then (Inl (Wrap (Sentinel ErrAmbiguousOutcome) ''valkey renew response''), v1)
                   else (Inr record0, v1))))"
      using Delivered None run script
      by (auto simp: valkey_Renew_def native_Exec_def valkey_keys_def split: sum.splits)
    show ?thesis
    proof (rule renewScript_cases [OF inv ttl(1) ttl(2) small script], goal_cases)
      case 3
      then show ?case using res by (intro refused) (auto simp: decode_reply_def)
    next
      case (4 h h' a)
      show ?case
      proof (rule renewed [OF 4(1,2), of h' "?now div 1000 + ?n"])
        show "hash_at v' = (hash_at v)(?k := Some (h', Some (?now div 1000 + ?n)))" "count_at v' = count_at v"
          using res 4 by (auto split: sum.splits if_splits)
        show "\<not> errors_Is err (Sentinel ErrStaleOwner)" if "res = Inl err" for err
          using that res 4 by (cases a)
            (auto simp: decode_reply_def classify_ambiguous dest: parseRecord_error split: sum.splits if_splits)
        show "rec_Key r' = rec_Key r \<and> rec_Owner r' = rec_Owner r \<and> rec_Token r' = rec_Token r \<and>
            rec_ExpiresAt r' = time_UnixMilli (int (?now div 1000 + ?n))" if "res = Inr r'" for r'
          using that res 4 small by (cases a)
            (auto simp: decode_reply_def dest: parseRecord_fields parseRecord_expires split: sum.splits if_splits)
      qed (use 4 in auto)
    qed (use ttl in auto)
  qed
qed

end

context valkey_server
begin

lemma valkey_validate_op_cases:
  assumes inv: "valkey_invar hash_at count_at p v" and ok: "valkey_env_ok e"
    and run: "valkey_Validate S p e r v = (res, v')"
  shows "v' = v"
    and "res = Inl err \<Longrightarrow> errors_Is err (Sentinel ErrStaleOwner) \<Longrightarrow>
      valkey_live hash_at p v (valkey_instant (vk_now e)) (key_digest (rec_Key r)) \<noteq> Some (rec_Owner r, rec_Token r)"
    and "res = Inr r' \<Longrightarrow>
      valkey_live hash_at p v (valkey_instant (vk_now e)) (key_digest (rec_Key r)) = Some (rec_Owner r, rec_Token r) \<and>
      rec_Key r' = rec_Key r \<and> rec_Owner r' = rec_Owner r \<and> rec_Token r' = rec_Token r"
proof -
  let ?live = "valkey_live hash_at p v (valkey_instant (vk_now e)) (key_digest (rec_Key r))"
  define rep where "rep = (if ?live \<noteq> Some (rec_Owner r, rec_Token r) then [Some ''stale'']
    else [Some ''ok'', Some (strconv_FormatUint (rec_Token r)),
      HGET S (vk_now e) (lease_key p (key_digest (rec_Key r))) ''acquired'' v,
      HGET S (vk_now e) (lease_key p (key_digest (rec_Key r))) ''expires'' v])"
  have script: "validateScript S (vk_now e) (lease_key p (key_digest (rec_Key r)))
      (rec_Owner r) (strconv_FormatUint (rec_Token r)) v = (Inr rep, v)"
    using owned_iff [OF inv, of "vk_now e" "key_digest (rec_Key r)" "rec_Owner r" "rec_Token r"]
    by (simp add: validateScript_def rep_def)
  have exec: "native_Exec S e opValidate (valkey_keys p (rec_Key r))
      [rec_Owner r, strconv_FormatUint (rec_Token r)] v =
    (case vk_fate e of LostRequest err \<Rightarrow> Inl err | LostReply err \<Rightarrow> Inl err | Delivered \<Rightarrow> decode_reply rep, v)"
    using script by (simp add: native_Exec_def valkey_keys_def split: fate.splits)
  show "v' = v"
    using run exec by (auto simp: valkey_Validate_def split: option.splits sum.splits if_splits)
  show "?live \<noteq> Some (rec_Owner r, rec_Token r)"
    if "res = Inl err" "errors_Is err (Sentinel ErrStaleOwner)"
  proof
    assume "?live = Some (rec_Owner r, rec_Token r)"
    then show False
      using that run exec ok
      by (auto simp: valkey_Validate_def rep_def decode_reply_def valkey_env_ok_def
          dest: valkey_validate_class classify_definite classify_definite [OF foreign_Opaque] parseRecord_error
          split: option.splits sum.splits if_splits fate.splits)
  qed
  show "?live = Some (rec_Owner r, rec_Token r) \<and>
      rec_Key r' = rec_Key r \<and> rec_Owner r' = rec_Owner r \<and> rec_Token r' = rec_Token r"
    if "res = Inr r'"
    using that run exec
    by (auto simp: valkey_Validate_def rep_def decode_reply_def dest: parseRecord_fields
        split: option.splits sum.splits if_splits fate.splits)
qed

lemma valkey_release_cases:
  assumes inv: "valkey_invar hash_at count_at p v" and ok: "valkey_env_ok e"
    and run: "valkey_Release S p e r v = (res, v')"
  obtains (kept) "v' = v"
      "res = None \<Longrightarrow> live_hash (vk_now e div 1000) (hash_at v (lease_key p (key_digest (rec_Key r)))) = None"
  | (deleted) h where
      "live_hash (vk_now e div 1000) (hash_at v (lease_key p (key_digest (rec_Key r)))) = Some h"
      "hash_holder h = Some (rec_Owner r, rec_Token r)"
      "hash_at v' = (hash_at v)(lease_key p (key_digest (rec_Key r)) := None)" "count_at v' = count_at v"
proof -
  let ?k = "lease_key p (key_digest (rec_Key r))"
  let ?args = "[rec_Owner r, strconv_FormatUint (rec_Token r)]"
  have zero: "count_at v ?k = 0" using inv by (simp add: valkey_invar_def)
  obtain rep v1 where script:
    "releaseScript S (vk_now e) ?k (rec_Owner r) (strconv_FormatUint (rec_Token r)) v = (rep, v1)" by fastforce
  have exec: "native_Exec S e opRelease (valkey_keys p (rec_Key r)) ?args v =
      (case vk_fate e of LostRequest err \<Rightarrow> (Inl err, v) | LostReply err \<Rightarrow> (Inl err, v1)
       | Delivered \<Rightarrow> (case rep of Inl err \<Rightarrow> (Inl err, v1) | Inr values0 \<Rightarrow> (decode_reply values0, v1)))"
    using script by (simp add: native_Exec_def valkey_keys_def split: fate.splits sum.splits)
  have refusal: "valkey_validate (vk_ctx e) (rec_Key r) (rec_Owner r) (rec_Token r) 1000000 = None \<or> res \<noteq> None"
    using run by (auto simp: valkey_Release_def split: option.split_asm)
  have v': "v' = v \<or> v' = v1"
    using run exec
    by (auto simp: valkey_Release_def split: option.splits sum.splits if_splits fate.splits list.splits)
  show ?thesis
  proof (cases "live_hash (vk_now e div 1000) (hash_at v ?k)")
    case None
    then have "\<not> EXISTS S (vk_now e) ?k v" using exists_law [OF zero] by simp
    then have "v1 = v" using script by (simp add: releaseScript_def)
    with v' None show ?thesis by (intro kept) auto
  next
    case (Some h)
    then have ex: "EXISTS S (vk_now e) ?k v" using exists_law [OF zero] by simp
    note own = not_owned_iff [OF inv Some, of "rec_Owner r" "rec_Token r"]
    show ?thesis
    proof (cases "hash_holder h = Some (rec_Owner r, rec_Token r)")
      case True
      then have v1: "rep = Inr [Some ''ok'']" "v1 = DEL S (vk_now e) ?k v"
        using script ex own by (auto simp: releaseScript_def)
      show ?thesis
      proof (cases "v' = v1")
        case True': True
        then show ?thesis using True Some v1 del_law [OF zero] by (intro deleted [of h]) auto
      next
        case False
        then have "v' = v" using v' by simp
        moreover have "res \<noteq> None"
          using refusal run exec False v1 by (auto simp: valkey_Release_def decode_reply_def split: fate.splits)
        ultimately show ?thesis by (intro kept) auto
      qed
    next
      case False
      then have v1: "rep = Inr [Some ''stale'']" "v1 = v"
        using script ex own by (auto simp: releaseScript_def)
      have "res \<noteq> None"
        using refusal run exec v1 by (auto simp: valkey_Release_def decode_reply_def split: fate.splits)
      then show ?thesis using v' v1 by (intro kept) auto
    qed
  qed
qed

end

section \<open>The Valkey store is a lease backend\<close>

locale valkey_lease = valkey_server S hash_at count_at
  for S :: "'v valkey" and hash_at :: "'v \<Rightarrow> string \<Rightarrow> hash option" and count_at :: "'v \<Rightarrow> string \<Rightarrow> nat" +
  fixes prefix :: string
begin

lemma backend_simps [simp]:
  "be_TryAcquire (valkey_backend S prefix) = valkey_TryAcquire S prefix"
  "be_Renew (valkey_backend S prefix) = valkey_Renew S prefix"
  "be_Validate (valkey_backend S prefix) = valkey_Validate S prefix"
  "be_Release (valkey_backend S prefix) = valkey_Release S prefix"
  by (simp_all add: valkey_backend_def)

lemma live_other:
  "hash_at v' = (hash_at v)(lease_key prefix d := y) \<Longrightarrow> i \<noteq> d \<Longrightarrow>
   valkey_live hash_at prefix v' t i = valkey_live hash_at prefix v t i"
  by (simp add: valkey_live_def)

lemma live_new:
  assumes "hash_at v' = (hash_at v)(lease_key prefix d := Some (h, Some x))"
    and "h ''owner'' = Some ow" "h ''token'' = Some (strconv_FormatUint tok)"
  shows "valkey_live hash_at prefix v' t d = (if valkey_ms t \<le> x then Some (ow, tok) else None)"
  using assms by (simp add: valkey_live_def live_hash_def hash_holder_FormatUint)

lemma digits10_FormatUint: "c < 2 ^ 63 \<Longrightarrow> digits10 c = strconv_FormatUint (word_of_nat c)"
  by (simp add: strconv_FormatUint_def unsigned_of_nat take_bit_nat_eq_self)

lemma unat_counter: "c < 2 ^ 63 \<Longrightarrow> unat (word_of_nat c :: Token) = c"
  by (simp add: unsigned_of_nat take_bit_nat_eq_self)

lemma invar_lease_update:
  assumes inv: "valkey_invar hash_at count_at prefix v"
    and "hash_at v' = (hash_at v)(lease_key prefix d := Some (h, Some x))"
    and "count_at v' = (count_at v)(counter_key prefix d := c)"
    and "count_at v (counter_key prefix d) \<le> c" "c < 2 ^ 63"
    and "h ''owner'' = Some ow" "h ''token'' = Some (strconv_FormatUint tok)" "tok \<noteq> 0" "unat tok \<le> c"
    and "hash_times (h, Some x)"
  shows "valkey_invar hash_at count_at prefix v'"
proof -
  have "wf_hash n hx \<Longrightarrow> n \<le> n' \<Longrightarrow> wf_hash n' hx" for n n' hx
    by (auto simp: wf_hash_def intro: le_trans)
  with assms show ?thesis
    by (auto simp: valkey_invar_def wf_hash_def split: if_splits)
qed

text \<open>One lemma per operation: invariant, abstract step and frame.\<close>

definition refines_step :: "vk_env \<Rightarrow> call \<Rightarrow> 'v \<Rightarrow> 'v \<Rightarrow> bool" where
  "refines_step e c v v' \<longleftrightarrow> valkey_invar hash_at count_at prefix v' \<and>
     spec_step (valkey_instant (vk_now e)) (valkey_instant (vk_now e)) c
       (valkey_fence count_at prefix v (key_digest (call_key c)), \<lambda>t. valkey_live hash_at prefix v t (key_digest (call_key c)))
       (valkey_fence count_at prefix v' (key_digest (call_key c)), \<lambda>t. valkey_live hash_at prefix v' t (key_digest (call_key c))) \<and>
     (\<forall>i t. i \<noteq> key_digest (call_key c) \<longrightarrow>
        valkey_fence count_at prefix v' i = valkey_fence count_at prefix v i \<and>
        valkey_live hash_at prefix v' t i = valkey_live hash_at prefix v t i)"

lemma refines_unchanged: "valkey_invar hash_at count_at prefix v \<Longrightarrow> refines_step e c v v"
  by (simp add: refines_step_def spec_step.unchanged)

lemma acquire_refines:
  assumes inv: "valkey_invar hash_at count_at prefix v" and ok: "valkey_env_ok e"
    and run: "valkey_TryAcquire S prefix e k ow ttl v = (res, v')"
  shows "refines_step e (CallAcquire k ow ttl) v v'"
  using inv ok run
proof (cases rule: valkey_acquire_cases)
  case refused
  with inv show ?thesis by (simp add: refines_unchanged)
next
  case (installed c h x)
  let ?tok = "word_of_nat c :: Token"
  have tok: "unat ?tok = c" "digits10 c = strconv_FormatUint ?tok" "?tok \<noteq> 0"
    using installed(1,2) unat_counter [of c] digits10_FormatUint [of c] by auto
  have live: "valkey_live hash_at prefix v' t (key_digest k) = (if valkey_ms t \<le> x then Some (ow, ?tok) else None)" for t
    using live_new [OF installed(4,6)] installed(7) tok by simp
  have "valkey_invar hash_at count_at prefix v'"
    using invar_lease_update [OF inv installed(4,5) _ installed(2) installed(6), of ?tok] installed tok by simp
  moreover have "spec_step (valkey_instant (vk_now e)) (valkey_instant (vk_now e)) (CallAcquire k ow ttl)
      (valkey_fence count_at prefix v (key_digest k), \<lambda>t. valkey_live hash_at prefix v t (key_digest k))
      (unat ?tok, \<lambda>t. valkey_live hash_at prefix v' t (key_digest k))"
    using installed tok live
    by (intro spec_step.install) (auto simp: valkey_live_def valkey_fence_def only_holder_def)
  ultimately show ?thesis
    using installed tok live_other [OF installed(4)] by (simp add: refines_step_def valkey_fence_def)
qed

lemma renew_refines:
  assumes inv: "valkey_invar hash_at count_at prefix v" and ok: "valkey_env_ok e"
    and run: "valkey_Renew S prefix e r ttl v = (res, v')"
  shows "refines_step e (CallRenew r ttl) v v'"
  using inv ok run
proof (cases rule: valkey_renew_cases)
  case refused
  with inv show ?thesis by (simp add: refines_unchanged)
next
  case (renewed h h' x)
  let ?d = "key_digest (rec_Key r)"
  obtain y where "hash_at v (lease_key prefix ?d) = Some (h, y)" using live_hash_Some renewed(1) by blast
  then have wf: "wf_hash (count_at v (counter_key prefix ?d)) (h, y)" using inv by (simp add: valkey_invar_def)
  have h: "h ''owner'' = Some (rec_Owner r)" "h ''token'' = Some (strconv_FormatUint (rec_Token r))"
    "unat (rec_Token r) \<le> count_at v (counter_key prefix ?d)"
    using wf_hash_holder [OF wf renewed(2)] by auto
  have nz: "rec_Token r \<noteq> 0" using wf h(2) by (auto simp: wf_hash_def)
  have h': "h' ''owner'' = Some (rec_Owner r)" "h' ''token'' = Some (strconv_FormatUint (rec_Token r))"
    using renewed h by simp_all
  have live: "valkey_live hash_at prefix v' t ?d = (if valkey_ms t \<le> x then Some (rec_Owner r, rec_Token r) else None)" for t
    using live_new [OF renewed(3) h'] .
  have "valkey_invar hash_at count_at prefix v'"
    using invar_lease_update [OF inv renewed(3), of "count_at v (counter_key prefix ?d)", OF _ _ _ h' nz h(3) renewed(11)]
      renewed inv by (simp add: valkey_invar_def)
  moreover have "spec_step (valkey_instant (vk_now e)) (valkey_instant (vk_now e)) (CallRenew r ttl)
      (valkey_fence count_at prefix v ?d, \<lambda>t. valkey_live hash_at prefix v t ?d)
      (valkey_fence count_at prefix v ?d, \<lambda>t. valkey_live hash_at prefix v' t ?d)"
    using renewed live by (intro spec_step.extend) (auto simp: valkey_live_def only_holder_def)
  ultimately show ?thesis
    using renewed live_other [OF renewed(3)] by (simp add: refines_step_def valkey_fence_def)
qed

lemma release_refines:
  assumes inv: "valkey_invar hash_at count_at prefix v" and ok: "valkey_env_ok e"
    and run: "valkey_Release S prefix e r v = (res, v')"
  shows "refines_step e (CallRelease r) v v'"
  using inv ok run
proof (cases rule: valkey_release_cases)
  case kept
  with inv show ?thesis by (simp add: refines_unchanged)
next
  case (deleted h)
  let ?d = "key_digest (rec_Key r)"
  have "valkey_invar hash_at count_at prefix v'"
    using inv deleted by (auto simp: valkey_invar_def)
  moreover have "only_holder (rec_Owner r, rec_Token r) (\<lambda>t. valkey_live hash_at prefix v t ?d)"
    using deleted(1,2) by (auto simp: only_holder_def valkey_live_def dest!: live_hash_Some split: option.splits)
  moreover have "valkey_live hash_at prefix v' t ?d = None" for t
    using deleted by (simp add: valkey_live_def live_hash_def)
  ultimately show ?thesis
    using deleted live_other [OF deleted(3)]
    by (simp add: refines_step_def valkey_fence_def spec_step.vacate)
qed

lemma call_refines:
  assumes "valkey_env_ok e" "valkey_invar hash_at count_at prefix v"
    and "backend_call (valkey_backend S prefix) e c v = (rep, v')"
  shows "refines_step e c v v'"
proof (cases c)
  case (CallAcquire k ow ttl)
  then show ?thesis using assms acquire_refines [OF assms(2,1)]
    by (cases "valkey_TryAcquire S prefix e k ow ttl v") auto
next
  case (CallRenew r ttl)
  then show ?thesis using assms renew_refines [OF assms(2,1)]
    by (cases "valkey_Renew S prefix e r ttl v") auto
next
  case (CallValidate r)
  obtain res w where run: "valkey_Validate S prefix e r v = (res, w)" by fastforce
  with CallValidate assms(3) valkey_validate_op_cases(1) [OF assms(2,1) run] show ?thesis
    using refines_unchanged [OF assms(2)] by simp
next
  case (CallRelease r)
  then show ?thesis using assms release_refines [OF assms(2,1)]
    by (cases "valkey_Release S prefix e r v") auto
qed

lemma live_expires:
  assumes "valkey_live hash_at prefix v t' i = Some h" "t \<le> t'"
  shows "valkey_live hash_at prefix v t i = Some h"
proof -
  have "valkey_ms t \<le> valkey_ms t'" using assms(2) by (rule valkey_ms_mono)
  with assms(1) show ?thesis
    by (auto simp: valkey_live_def live_hash_def split: option.splits if_splits)
qed

lemma live_at_instant: "valkey_live hash_at prefix v (valkey_instant n) d =
    (case live_hash (n div 1000) (hash_at v (lease_key prefix d)) of None \<Rightarrow> None | Some h \<Rightarrow> hash_holder h)"
  by (simp add: valkey_live_def)

lemma live_hash_holder:
  assumes "valkey_invar hash_at count_at prefix v"
    and "live_hash n (hash_at v (lease_key prefix d)) = Some h"
  shows "hash_holder h \<noteq> None"
proof -
  obtain x where "hash_at v (lease_key prefix d) = Some (h, x)" using live_hash_Some assms(2) by blast
  with assms(1) have "wf_hash (count_at v (counter_key prefix d)) (h, x)" by (simp add: valkey_invar_def)
  then show ?thesis by (auto simp: wf_hash_def hash_holder_FormatUint)
qed

lemma live_fence:
  assumes "valkey_invar hash_at count_at prefix v" "valkey_live hash_at prefix v t i = Some (ow, tok)"
  shows "unat tok \<le> valkey_fence count_at prefix v i"
proof -
  obtain h where h: "live_hash (valkey_ms t) (hash_at v (lease_key prefix i)) = Some h"
    "hash_holder h = Some (ow, tok)"
    using assms(2) by (auto simp: valkey_live_def split: option.splits)
  then obtain x where "hash_at v (lease_key prefix i) = Some (h, x)" using live_hash_Some by blast
  with assms(1) have "wf_hash (count_at v (counter_key prefix i)) (h, x)" by (simp add: valkey_invar_def)
  from wf_hash_holder [OF this h(2)] show ?thesis by (simp add: valkey_fence_def)
qed

lemma acquire_got:
  assumes ok: "valkey_env_ok e" and inv: "valkey_invar hash_at count_at prefix v"
    and run: "valkey_TryAcquire S prefix e k ow ttl v = (Inr r, v')"
  shows "rec_Key r = k \<and> rec_Owner r = ow \<and> rec_AcquiredAt r < rec_ExpiresAt r \<and>
      valkey_fence count_at prefix v (key_digest k) < unat (rec_Token r) \<and>
      valkey_fence count_at prefix v' (key_digest k) = unat (rec_Token r) \<and>
      valkey_live hash_at prefix v (valkey_instant (vk_now e)) (key_digest k) = None \<and>
      (\<forall>t < rec_ExpiresAt r. valkey_live hash_at prefix v' t (key_digest k) = Some (ow, rec_Token r))"
  using inv ok run
proof (cases rule: valkey_acquire_cases)
  case refused
  then show ?thesis by simp
next
  case (installed c h x)
  then have r: "r = \<lparr>rec_Key = k, rec_Owner = ow, rec_Token = word_of_nat c,
         rec_AcquiredAt = time_UnixMilli (int (vk_now e div 1000)), rec_ExpiresAt = time_UnixMilli (int x)\<rparr>"
    by simp
  have tok: "unat (word_of_nat c :: Token) = c" "digits10 c = strconv_FormatUint (word_of_nat c)"
    using installed(2) unat_counter digits10_FormatUint by auto
  have "valkey_live hash_at prefix v' t (key_digest k) = Some (ow, word_of_nat c)"
    if "t < time_UnixMilli (int x)" for t
    using live_new [OF installed(4,6), of "word_of_nat c" t] installed(7) tok valkey_ms_before [OF that] by simp
  then show ?thesis
    using r tok installed by (auto simp: valkey_fence_def live_at_instant time_UnixMilli_def)
qed

lemma acquire_failed:
  assumes ok: "valkey_env_ok e" and inv: "valkey_invar hash_at count_at prefix v"
    and run: "valkey_TryAcquire S prefix e k ow ttl v = (Inl err, v')"
  shows "\<not> errors_Is err (Sentinel ErrAmbiguousOutcome) \<Longrightarrow>
      valkey_live hash_at prefix v' t i = valkey_live hash_at prefix v t i"
    and "errors_Is err (Sentinel ErrContended) \<Longrightarrow>
      valkey_live hash_at prefix v (valkey_instant (vk_now e)) (key_digest k) \<noteq> None"
  using inv ok run
  by (cases rule: valkey_acquire_cases;
      auto simp: live_at_instant dest: live_hash_holder [OF inv] split: option.splits)+

lemma renew_got:
  assumes ok: "valkey_env_ok e" and inv: "valkey_invar hash_at count_at prefix v"
    and run: "valkey_Renew S prefix e r ttl v = (Inr r', v')"
  shows "valkey_live hash_at prefix v (valkey_instant (vk_now e)) (key_digest (rec_Key r)) = Some (rec_Owner r, rec_Token r) \<and>
      rec_Key r' = rec_Key r \<and> rec_Owner r' = rec_Owner r \<and> rec_Token r' = rec_Token r \<and>
      (\<forall>t < rec_ExpiresAt r'. valkey_live hash_at prefix v' t (key_digest (rec_Key r)) = Some (rec_Owner r, rec_Token r))"
  using inv ok run
proof (cases rule: valkey_renew_cases)
  case refused
  then show ?thesis by simp
next
  case (renewed h h' x)
  obtain y where "hash_at v (lease_key prefix (key_digest (rec_Key r))) = Some (h, y)"
    using live_hash_Some renewed(1) by blast
  then have wf: "wf_hash (count_at v (counter_key prefix (key_digest (rec_Key r)))) (h, y)"
    using inv by (simp add: valkey_invar_def)
  have h': "h' ''owner'' = Some (rec_Owner r)" "h' ''token'' = Some (strconv_FormatUint (rec_Token r))"
    using wf_hash_holder [OF wf renewed(2)] renewed(5,6) by auto
  have "valkey_live hash_at prefix v' t (key_digest (rec_Key r)) = Some (rec_Owner r, rec_Token r)"
    if "t < time_UnixMilli (int x)" for t
    using live_new [OF renewed(3) h', of t] valkey_ms_before [OF that] by simp
  then show ?thesis
    using renewed(1,2) renewed(8) [OF refl] by (simp add: live_at_instant)
qed

lemma release_done:
  assumes ok: "valkey_env_ok e" and inv: "valkey_invar hash_at count_at prefix v"
    and run: "valkey_Release S prefix e r v = (None, v')" and t: "valkey_instant (vk_now e) \<le> t"
  shows "valkey_live hash_at prefix v' t (key_digest (rec_Key r)) = None"
  using inv ok run
proof (cases rule: valkey_release_cases)
  case kept
  then have "valkey_live hash_at prefix v (valkey_instant (vk_now e)) (key_digest (rec_Key r)) = None"
    by (simp add: live_at_instant)
  with live_expires [OF _ t] kept show ?thesis by (metis not_None_eq)
next
  case (deleted h)
  then show ?thesis by (simp add: valkey_live_def live_hash_def)
qed

lemma renew_stale:
  assumes ok: "valkey_env_ok e" and inv: "valkey_invar hash_at count_at prefix v"
    and run: "valkey_Renew S prefix e r ttl v = (Inl err, v')" "errors_Is err (Sentinel ErrStaleOwner)"
  shows "valkey_live hash_at prefix v (valkey_instant (vk_now e)) (key_digest (rec_Key r)) \<noteq> Some (rec_Owner r, rec_Token r)"
  using inv ok run(1) by (cases rule: valkey_renew_cases) (use run(2) in auto)

end

sublocale valkey_lease \<subseteq> lease: lease_backend "valkey_backend S prefix" "valkey_invar hash_at count_at prefix"
  key_digest "valkey_live hash_at prefix" "valkey_fence count_at prefix"
  "\<lambda>e. valkey_instant (vk_now e)" "\<lambda>e. valkey_instant (vk_now e)" valkey_env_ok
proof (unfold_locales, goal_cases)
  case (2 e s c rep s')
  then show ?case using call_refines by (simp add: refines_step_def)
next
  case (3 e s c rep s')
  then show ?case using call_refines by (simp add: refines_step_def)
next
  case (4 e s c rep s' i t)
  then show ?case using call_refines by (simp add: refines_step_def)
next
  case (5 s t i ow tok)
  then show ?case by (rule live_fence)
next
  case (6 s t' i h t)
  show ?case using 6(2,3) by (rule live_expires)
next
  case (7 e s k ow ttl r s')
  then show ?case using acquire_got by (simp add: map_prod_eq)
next
  case (8 e s k ow ttl err s' t i)
  then show ?case using acquire_failed(1) by (simp add: map_prod_eq)
next
  case (10 e s k ow ttl err s')
  then show ?case using acquire_failed(2) by (simp add: map_prod_eq)
next
  case (9 e s r ttl r' s')
  then show ?case using renew_got by (simp add: map_prod_eq)
next
  case (11 e s r r' s')
  then show ?case using valkey_validate_op_cases(3) by (simp add: map_prod_eq)
next
  case (12 e s c err s' r ttl)
  then show ?case using renew_stale valkey_validate_op_cases(2) by (auto simp: map_prod_eq)
next
  case (13 e s r s' t)
  then show ?case using release_done by (simp add: map_prod_eq)
qed simp

end
