(* ===== verification/Valkey_Safety.thy ===== *)
theory Valkey_Safety
  imports Valkey_Store
begin

text \<open>
  What the Valkey store guarantees on any server that satisfies \<open>valkey_server\<close>: the
  consequences of the backend contract, progress on a vacant key, the cluster slot of its
  keys, its protected-write guards and the checks of \<^verbatim>\<open>Open\<close>. A reference server with hashes
  and counters shows that the server's laws can be met.
\<close>

section \<open>Progress\<close>

context valkey_lease
begin

lemma contract:
  "lease_backend (valkey_backend S prefix) (valkey_invar hash_at count_at prefix)
     key_digest (valkey_live hash_at prefix) (valkey_fence count_at prefix)
     (\<lambda>e. valkey_instant (vk_now e)) (\<lambda>e. valkey_instant (vk_now e)) valkey_env_ok"
  by (rule lease.lease_backend_axioms)

lemmas safety = lease_backend.axioms(1) [OF contract]

lemma acquire_vacant:
  assumes inv: "valkey_invar hash_at count_at prefix v" and ok: "valkey_env_ok e"
    and delivered: "vk_fate e = Delivered" and valid: "valkey_validate (vk_ctx e) k ow 1 ttl = None"
    and vacant: "valkey_live hash_at prefix v (valkey_instant (vk_now e)) (key_digest k) = None"
    and room: "valkey_fence count_at prefix v (key_digest k) < 2 ^ 63 - 1"
  shows "fst (valkey_TryAcquire S prefix e k ow ttl v) =
    Inr \<lparr>rec_Key = k, rec_Owner = ow,
      rec_Token = word_of_nat (Suc (valkey_fence count_at prefix v (key_digest k))),
      rec_AcquiredAt = time_UnixMilli (int (vk_now e div 1000)),
      rec_ExpiresAt = time_UnixMilli (int (vk_now e div 1000 + nat (sint ttl div 1000000)))\<rparr>"
proof -
  let ?d = "key_digest k" and ?now = "vk_now e" and ?n = "nat (sint ttl div 1000000)"
  let ?a2 = "strconv_FormatInt (duration_Milliseconds ttl)"
  note ttl = Milliseconds_arg [of ttl] valkey_validate_ok [OF valid]
  have small: "?now div 1000 + ?n < 10 ^ 14" using ttl ok by (simp add: valkey_env_ok_def)
  have gone: "live_hash (?now div 1000) (hash_at v (lease_key prefix ?d)) = None"
    using vacant by (auto simp: live_at_instant dest: live_hash_holder [OF inv] split: option.splits)
  have "\<exists>v'. INCR S ?now (counter_key prefix ?d) v = Inr v'"
    using incr_ok [of v "counter_key prefix ?d" ?now] inv room by (simp add: valkey_invar_def valkey_fence_def)
  then have incr: "INCR S ?now (counter_key prefix ?d) v \<noteq> Inl err" for err by auto
  obtain rep v1 where script:
    "acquireScript S ?now (lease_key prefix ?d) (counter_key prefix ?d) ow ?a2 v = (rep, v1)" by fastforce
  then have fst_res: "fst (valkey_TryAcquire S prefix e k ow ttl v) =
      (case rep of Inl err \<Rightarrow> Inl (valkey_classify (vk_ctx_after e) err True)
       | Inr values0 \<Rightarrow> (case decode_reply values0 of
            Inl err \<Rightarrow> Inl (valkey_classify (vk_ctx_after e) err True)
          | Inr reply0 \<Rightarrow> parseRecord k ow reply0 (Sentinel ErrContended)))"
    using delivered valid
    by (auto simp: valkey_TryAcquire_def native_Exec_def valkey_keys_def split: sum.splits)
  show ?thesis
  proof (rule acquireScript_cases [OF inv ttl(1) ttl(2) small script], goal_cases)
    case 3
    with gone show ?case by simp
  next
    case (4 err)
    with incr [of err] show ?case by simp
  next
    case (5 c h)
    have "parseRecord k ow [''ok'', digits10 c, digits10 (?now div 1000), digits10 (?now div 1000 + ?n)]
        (Sentinel ErrContended) =
      Inr \<lparr>rec_Key = k, rec_Owner = ow, rec_Token = word_of_nat c,
        rec_AcquiredAt = time_UnixMilli (int (?now div 1000)),
        rec_ExpiresAt = time_UnixMilli (int (?now div 1000 + ?n))\<rparr>"
      using 5 small ttl by (intro parseRecord_ok(1)) auto
    then have "fst (valkey_TryAcquire S prefix e k ow ttl v) =
      Inr \<lparr>rec_Key = k, rec_Owner = ow, rec_Token = word_of_nat c,
        rec_AcquiredAt = time_UnixMilli (int (?now div 1000)),
        rec_ExpiresAt = time_UnixMilli (int (?now div 1000 + ?n))\<rparr>"
      unfolding fst_res 5(3) decode_reply_def by simp
    with 5(1) show ?case by (simp only: valkey_fence_def)
  qed (use ttl in auto)
qed

end

text \<open>The progress contract: delivered exchanges under a usable context.\<close>

definition valkey_calm :: "vk_env \<Rightarrow> bool" where
  "valkey_calm e \<longleftrightarrow> valkey_env_ok e \<and> vk_fate e = Delivered \<and> vk_ctx e = None"

definition valkey_input :: "Key \<Rightarrow> string \<Rightarrow> Token \<Rightarrow> duration \<Rightarrow> bool" where
  "valkey_input k ow tok ttl \<longleftrightarrow> valkey_validate None k ow tok ttl = None"

definition valkey_room :: "('v \<Rightarrow> string \<Rightarrow> nat) \<Rightarrow> string \<Rightarrow> nat \<Rightarrow> 'v \<Rightarrow> Key \<Rightarrow> bool" where
  "valkey_room count_at prefix n v k \<longleftrightarrow> valkey_fence count_at prefix v (key_digest k) + n < 2 ^ 63"

definition valkey_settled ::
  "('v \<Rightarrow> string \<Rightarrow> hash option) \<Rightarrow> string \<Rightarrow> 'v \<Rightarrow> instant \<Rightarrow> string \<Rightarrow> bool" where
  "valkey_settled hash_at prefix v t d \<longleftrightarrow> (\<forall>h x. hash_at v (lease_key prefix d) = Some (h, Some x) \<longrightarrow>
     (\<exists>a. h ''acquired'' = Some (digits10 a) \<and> a \<le> valkey_ms t \<and> a < x))"

definition valkey_lasts :: "vk_env \<Rightarrow> duration \<Rightarrow> instant" where
  "valkey_lasts e ttl = time_UnixMilli (int (vk_now e div 1000) + sint ttl div 1000000)"

definition valkey_gone :: "vk_env \<Rightarrow> duration \<Rightarrow> instant" where
  "valkey_gone e ttl = time_UnixMilli (int (vk_now e div 1000) + sint ttl div 1000000 + 1)"

lemma valkey_lasts_eq:
  assumes "valkey_input k ow tok ttl"
  shows "valkey_lasts e ttl = time_UnixMilli (int (vk_now e div 1000 + nat (sint ttl div 1000000)))"
    "valkey_gone e ttl = time_UnixMilli (int (vk_now e div 1000 + nat (sint ttl div 1000000)) + 1)"
proof -
  have "0 < nat (sint ttl div 1000000)"
    using assms Milliseconds_arg(2) valkey_validate_ok unfolding valkey_input_def by blast
  then show "valkey_lasts e ttl = time_UnixMilli (int (vk_now e div 1000 + nat (sint ttl div 1000000)))"
    "valkey_gone e ttl = time_UnixMilli (int (vk_now e div 1000 + nat (sint ttl div 1000000)) + 1)"
    by (simp_all add: valkey_lasts_def valkey_gone_def)
qed

lemma valkey_ms_after: "time_UnixMilli (int x + 1) \<le> t \<Longrightarrow> \<not> valkey_ms t \<le> x"
  by (simp add: valkey_ms_def time_UnixMilli_def)

lemma FormatUint_digits10: "strconv_FormatUint tok = digits10 (unat tok)"
  by (simp add: strconv_FormatUint_def)

context valkey_lease
begin

lemma calm_reply:
  assumes "valkey_calm e" "run_script S (vk_now e) op (valkey_keys prefix k) args v = (Inr values0, v')" "None \<notin> set values0"
  shows "native_Exec S e op (valkey_keys prefix k) args v = (Inr (map the values0), v')"
  using assms by (simp add: valkey_calm_def native_Exec_def decode_reply_def)

lemma held_hash:
  assumes inv: "valkey_invar hash_at count_at prefix v"
    and live: "valkey_live hash_at prefix v (valkey_instant now) d = Some (ow, tok)"
  obtains h x where "hash_at v (lease_key prefix d) = Some (h, Some x)" "live_hash (now div 1000) (hash_at v (lease_key prefix d)) = Some h"
    "hash_holder h = Some (ow, tok)" "h ''expires'' = Some (digits10 x)" "x < 10 ^ 14" "0 < unat tok" "unat tok < 2 ^ 63"
proof -
  obtain h where h: "live_hash (now div 1000) (hash_at v (lease_key prefix d)) = Some h" "hash_holder h = Some (ow, tok)"
    using live by (auto simp: live_at_instant split: option.splits)
  then obtain y where y: "hash_at v (lease_key prefix d) = Some (h, y)" using live_hash_Some by blast
  then have wf: "wf_hash (count_at v (counter_key prefix d)) (h, y)" and below: "count_at v (counter_key prefix d) < 2 ^ 63"
    using inv by (auto simp: valkey_invar_def)
  then obtain x where x: "h ''expires'' = Some (digits10 x)" "y = Some x" "x < 10 ^ 14"
    by (auto simp: wf_hash_def hash_times_def)
  have "unat tok < 2 ^ 63" using wf_hash_holder [OF wf h(2)] below by simp
  moreover have "tok \<noteq> 0" using wf wf_hash_holder [OF wf h(2)] by (auto simp: wf_hash_def)
  ultimately show thesis using that [of h x] y h x by (simp add: unat_gt_0)
qed

lemma acquire_held:
  assumes calm: "valkey_calm e" and inv: "valkey_invar hash_at count_at prefix v" and input: "valkey_input k ow 1 ttl"
    and held: "valkey_live hash_at prefix v (valkey_instant (vk_now e)) (key_digest k) \<noteq> None"
  shows "valkey_TryAcquire S prefix e k ow ttl v = (Inl (Wrap (Sentinel ErrContended) ''valkey operation''), v)"
proof -
  have "EXISTS S (vk_now e) (lease_key prefix (key_digest k)) v"
    using held inv exists_law [of v "lease_key prefix (key_digest k)" "vk_now e"]
    by (auto simp: live_at_instant valkey_invar_def split: option.splits)
  then have "run_script S (vk_now e) opAcquire (valkey_keys prefix k) [ow, strconv_FormatInt (duration_Milliseconds ttl)] v =
      (Inr [Some ''contended''], v)" by (simp add: valkey_keys_def acquireScript_def)
  from calm_reply [OF calm this] calm input show ?thesis
    by (simp add: valkey_TryAcquire_def valkey_calm_def valkey_input_def)
qed

lemma acquire_granted:
  assumes calm: "valkey_calm e" and inv: "valkey_invar hash_at count_at prefix v" and input: "valkey_input k ow 1 ttl"
    and vacant: "valkey_live hash_at prefix v (valkey_instant (vk_now e)) (key_digest k) = None"
    and room: "valkey_room count_at prefix (Suc n) v k"
  shows "\<exists>r v'. valkey_TryAcquire S prefix e k ow ttl v = (Inr r, v') \<and> valkey_room count_at prefix n v' k \<and>
    valkey_settled hash_at prefix v' (valkey_instant (vk_now e)) (key_digest k) \<and>
    (\<forall>t < valkey_lasts e ttl. valkey_live hash_at prefix v' t (key_digest k) = Some (ow, rec_Token r)) \<and>
    (\<forall>t \<ge> valkey_gone e ttl. valkey_live hash_at prefix v' t (key_digest k) = None)"
proof -
  have pre: "valkey_env_ok e" "vk_fate e = Delivered" "valkey_validate (vk_ctx e) k ow 1 ttl = None"
    "valkey_fence count_at prefix v (key_digest k) < 2 ^ 63 - 1"
    using calm input room by (simp_all add: valkey_calm_def valkey_input_def valkey_room_def)
  obtain r v' where run: "valkey_TryAcquire S prefix e k ow ttl v = (Inr r, v')"
    using acquire_vacant [OF inv pre(1-3) vacant pre(4)] by (cases "valkey_TryAcquire S prefix e k ow ttl v") auto
  from inv pre(1) run show ?thesis
  proof (cases rule: valkey_acquire_cases)
    case (installed c h x)
    have tok: "rec_Token r = word_of_nat c" "h ''token'' = Some (strconv_FormatUint (word_of_nat c))"
      using installed(7,8) digits10_FormatUint [OF installed(2)] by auto
    note live = live_new [OF installed(4,6) tok(2)]
    have "valkey_room count_at prefix n v' k" using installed(1,5) room by (simp add: valkey_room_def valkey_fence_def)
    moreover have "valkey_settled hash_at prefix v' (valkey_instant (vk_now e)) (key_digest k)"
      using installed(4,9,11) by (auto simp: valkey_settled_def)
    ultimately show ?thesis
      using run live tok(1) valkey_lasts_eq [OF input, of e] valkey_ms_before valkey_ms_after installed(10) by auto
  qed simp
qed

lemma renew_live:
  assumes calm: "valkey_calm e" and inv: "valkey_invar hash_at count_at prefix v"
    and input: "valkey_input (rec_Key r) (rec_Owner r) (rec_Token r) ttl"
    and live: "valkey_live hash_at prefix v (valkey_instant (vk_now e)) (key_digest (rec_Key r)) = Some (rec_Owner r, rec_Token r)"
    and settled: "valkey_settled hash_at prefix v (valkey_instant (vk_now e)) (key_digest (rec_Key r))"
  shows "\<exists>r' v'. valkey_Renew S prefix e r ttl v = (Inr r', v') \<and> count_at v' = count_at v \<and>
    valkey_settled hash_at prefix v' (valkey_instant (vk_now e)) (key_digest (rec_Key r)) \<and>
    (\<forall>t < valkey_lasts e ttl. valkey_live hash_at prefix v' t (key_digest (rec_Key r)) = Some (rec_Owner r, rec_Token r)) \<and>
    (\<forall>t \<ge> valkey_gone e ttl. valkey_live hash_at prefix v' t (key_digest (rec_Key r)) = None)"
proof -
  let ?d = "key_digest (rec_Key r)" and ?now = "vk_now e" and ?n = "nat (sint ttl div 1000000)"
  let ?a3 = "strconv_FormatInt (duration_Milliseconds ttl)"
  have ok: "valkey_env_ok e" using calm by (simp add: valkey_calm_def)
  have valid: "valkey_validate None (rec_Key r) (rec_Owner r) (rec_Token r) ttl = None" using input by (simp add: valkey_input_def)
  have ttl: "\<not> ttl <s 1000000" using valkey_validate_ok [OF valid] by simp
  note ms = Milliseconds_arg [OF ttl]
  have small: "?now div 1000 + ?n < 10 ^ 14" using ms ok by (simp add: valkey_env_ok_def)
  obtain h x where held: "hash_at v (lease_key prefix ?d) = Some (h, Some x)"
    "live_hash (?now div 1000) (hash_at v (lease_key prefix ?d)) = Some h" "hash_holder h = Some (rec_Owner r, rec_Token r)"
    "0 < unat (rec_Token r)" "unat (rec_Token r) < 2 ^ 63"
    by (rule held_hash [OF inv live])
  obtain a where a: "h ''acquired'' = Some (digits10 a)" "a \<le> ?now div 1000"
    using settled held(1) by (auto simp: valkey_settled_def)
  obtain rep v' where script:
    "renewScript S ?now (lease_key prefix ?d) (rec_Owner r) (strconv_FormatUint (rec_Token r)) ?a3 v = (rep, v')" by fastforce
  show ?thesis
  proof (rule renewScript_cases [OF inv ms(1,2) small script], goal_cases)
    case 1
    with live show ?case by simp
  next
    case (2 h1 h' a1)
    then have h1: "h1 = h" using held by simp
    have rep: "rep = Inr (map Some [''ok'', digits10 (unat (rec_Token r)), digits10 a, digits10 (?now div 1000 + ?n)])"
      using 2 a h1 by (simp add: FormatUint_digits10)
    have parse: "parseRecord (rec_Key r) (rec_Owner r) [''ok'', digits10 (unat (rec_Token r)), digits10 a, digits10 (?now div 1000 + ?n)]
        (Sentinel ErrStaleOwner) = Inr \<lparr>rec_Key = rec_Key r, rec_Owner = rec_Owner r, rec_Token = word_of_nat (unat (rec_Token r)),
          rec_AcquiredAt = time_UnixMilli (int a), rec_ExpiresAt = time_UnixMilli (int (?now div 1000 + ?n))\<rparr>"
      by (rule parseRecord_ok(1) [OF held(4,5) small]) (use a(2) ms(2) in linarith)
    have "run_script S ?now opRenew (valkey_keys prefix (rec_Key r)) [rec_Owner r, strconv_FormatUint (rec_Token r), ?a3] v =
        (Inr (map Some [''ok'', digits10 (unat (rec_Token r)), digits10 a, digits10 (?now div 1000 + ?n)]), v')"
      using script rep by (simp add: valkey_keys_def)
    from calm_reply [OF calm this] parse
    have run: "\<exists>r'. valkey_Renew S prefix e r ttl v = (Inr r', v')"
      using calm valid by (simp add: valkey_Renew_def valkey_calm_def comp_def)
    have own: "h' ''owner'' = Some (rec_Owner r)" "h' ''token'' = Some (strconv_FormatUint (rec_Token r))"
      using 2 h1 held inv wf_hash_holder [of "count_at v (counter_key prefix ?d)" h "Some x"] by (auto simp: valkey_invar_def)
    have "valkey_settled hash_at prefix v' (valkey_instant ?now) ?d"
      using 2 h1 a ms(2) by (auto simp: valkey_settled_def)
    with run 2(5) live_new [OF 2(4) own] show ?case
      using valkey_lasts_eq [OF input, of e] valkey_ms_before valkey_ms_after by auto
  qed
qed

lemma renew_lost:
  assumes calm: "valkey_calm e" and inv: "valkey_invar hash_at count_at prefix v"
    and input: "valkey_input (rec_Key r) (rec_Owner r) (rec_Token r) ttl"
    and lost: "valkey_live hash_at prefix v (valkey_instant (vk_now e)) (key_digest (rec_Key r)) \<noteq> Some (rec_Owner r, rec_Token r)"
  shows "valkey_Renew S prefix e r ttl v = (Inl (Wrap (Sentinel ErrStaleOwner) ''valkey operation''), v)"
proof -
  have "run_script S (vk_now e) opRenew (valkey_keys prefix (rec_Key r))
      [rec_Owner r, strconv_FormatUint (rec_Token r), strconv_FormatInt (duration_Milliseconds ttl)] v = (Inr [Some ''stale''], v)"
    using owned_iff [OF inv, of "vk_now e" "key_digest (rec_Key r)" "rec_Owner r" "rec_Token r"] lost
    by (simp add: valkey_keys_def renewScript_def)
  from calm_reply [OF calm this] calm input show ?thesis by (simp add: valkey_Renew_def valkey_calm_def valkey_input_def)
qed

lemma validate_lost:
  assumes calm: "valkey_calm e" and inv: "valkey_invar hash_at count_at prefix v"
    and input: "valkey_input (rec_Key r) (rec_Owner r) (rec_Token r) Millisecond"
    and lost: "valkey_live hash_at prefix v (valkey_instant (vk_now e)) (key_digest (rec_Key r)) \<noteq> Some (rec_Owner r, rec_Token r)"
  shows "valkey_Validate S prefix e r v = (Inl (Wrap (Sentinel ErrStaleOwner) ''valkey operation''), v)"
proof -
  have "run_script S (vk_now e) opValidate (valkey_keys prefix (rec_Key r))
      [rec_Owner r, strconv_FormatUint (rec_Token r)] v = (Inr [Some ''stale''], v)"
    using owned_iff [OF inv, of "vk_now e" "key_digest (rec_Key r)" "rec_Owner r" "rec_Token r"] lost
    by (simp add: valkey_keys_def validateScript_def)
  from calm_reply [OF calm this] calm input show ?thesis by (simp add: valkey_Validate_def valkey_calm_def valkey_input_def)
qed

lemma validate_live:
  assumes calm: "valkey_calm e" and inv: "valkey_invar hash_at count_at prefix v"
    and input: "valkey_input (rec_Key r) (rec_Owner r) (rec_Token r) Millisecond"
    and live: "valkey_live hash_at prefix v (valkey_instant (vk_now e)) (key_digest (rec_Key r)) = Some (rec_Owner r, rec_Token r)"
    and settled: "valkey_settled hash_at prefix v (valkey_instant (vk_now e)) (key_digest (rec_Key r))"
  shows "\<exists>r'. valkey_Validate S prefix e r v = (Inr r', v)"
proof -
  let ?d = "key_digest (rec_Key r)" and ?now = "vk_now e"
  obtain h x where held: "hash_at v (lease_key prefix ?d) = Some (h, Some x)"
    "live_hash (?now div 1000) (hash_at v (lease_key prefix ?d)) = Some h" "h ''expires'' = Some (digits10 x)" "x < 10 ^ 14"
    "0 < unat (rec_Token r)" "unat (rec_Token r) < 2 ^ 63"
    by (rule held_hash [OF inv live])
  obtain a where a: "h ''acquired'' = Some (digits10 a)" "a < x"
    using settled held(1) by (auto simp: valkey_settled_def)
  have get: "HGET S ?now (lease_key prefix ?d) f v = h f" for f
    using hget_law [of v "lease_key prefix ?d" ?now f] inv held(2) by (simp add: valkey_invar_def)
  have "run_script S ?now opValidate (valkey_keys prefix (rec_Key r)) [rec_Owner r, strconv_FormatUint (rec_Token r)] v =
      (Inr (map Some [''ok'', digits10 (unat (rec_Token r)), digits10 a, digits10 x]), v)"
    using owned_iff [OF inv, of ?now ?d "rec_Owner r" "rec_Token r"] live get held(3) a
    by (simp add: valkey_keys_def validateScript_def FormatUint_digits10)
  from calm_reply [OF calm this] parseRecord_ok(1) [OF held(5,6,4) a(2), of "rec_Key r" "rec_Owner r" "Sentinel ErrStaleOwner"]
    calm input show ?thesis
    by (simp add: valkey_Validate_def valkey_calm_def valkey_input_def comp_def)
qed

lemma release_replies:
  assumes calm: "valkey_calm e" and inv: "valkey_invar hash_at count_at prefix v"
    and input: "valkey_input (rec_Key r) (rec_Owner r) (rec_Token r) Millisecond"
  defines "live \<equiv> valkey_live hash_at prefix v (valkey_instant (vk_now e)) (key_digest (rec_Key r))"
  shows "valkey_Release S prefix e r v =
    (if live = None then (None, v)
     else if live = Some (rec_Owner r, rec_Token r) then (None, DEL S (vk_now e) (lease_key prefix (key_digest (rec_Key r))) v)
     else (Some (Wrap (Sentinel ErrStaleOwner) ''valkey release''), v))"
proof -
  let ?k = "lease_key prefix (key_digest (rec_Key r))"
  have ex: "EXISTS S (vk_now e) ?k v \<longleftrightarrow> live \<noteq> None"
    using exists_law [of v ?k "vk_now e"] inv live_hash_holder [OF inv, of "vk_now e div 1000" "key_digest (rec_Key r)"]
    by (auto simp: live_def live_at_instant valkey_invar_def split: option.splits)
  note own = owned_iff [OF inv, of "vk_now e" "key_digest (rec_Key r)" "rec_Owner r" "rec_Token r", folded live_def]
  have "\<exists>out v'. run_script S (vk_now e) opRelease (valkey_keys prefix (rec_Key r))
      [rec_Owner r, strconv_FormatUint (rec_Token r)] v = (Inr [Some out], v') \<and>
      (out, v') = (if live = None then (''missing'', v) else if live = Some (rec_Owner r, rec_Token r)
        then (''ok'', DEL S (vk_now e) ?k v) else (''stale'', v))"
    using ex own by (cases live) (auto simp: valkey_keys_def releaseScript_def)
  then obtain out v' where out: "run_script S (vk_now e) opRelease (valkey_keys prefix (rec_Key r))
      [rec_Owner r, strconv_FormatUint (rec_Token r)] v = (Inr [Some out], v')"
    and cases: "(out, v') = (if live = None then (''missing'', v) else if live = Some (rec_Owner r, rec_Token r)
        then (''ok'', DEL S (vk_now e) ?k v) else (''stale'', v))" by blast
  from calm_reply [OF calm out] calm input cases show ?thesis
    by (auto simp: valkey_Release_def valkey_calm_def valkey_input_def split: if_splits)
qed

end

sublocale valkey_lease \<subseteq> progress: lease_progress "valkey_backend S prefix" "valkey_invar hash_at count_at prefix"
  key_digest "valkey_live hash_at prefix" "valkey_fence count_at prefix"
  "\<lambda>e. valkey_instant (vk_now e)" "\<lambda>e. valkey_instant (vk_now e)" valkey_env_ok
  valkey_calm valkey_input "valkey_room count_at prefix" "valkey_settled hash_at prefix" valkey_lasts valkey_gone
proof (unfold_locales, goal_cases)
  case (1 e)
  then show ?case by (simp add: valkey_calm_def)
next
  case (2 s k ow ttl tok)
  then show ?case by (auto simp: valkey_input_def valkey_validate_def unat_gt_0 split: if_splits)
next
  case (3 s t i t')
  then show ?case unfolding valkey_settled_def using valkey_ms_mono [OF 3(2)] le_trans by blast
next
  case (4 e s k ow ttl n)
  then show ?case using acquire_granted by simp
next
  case (5 e s k ow ttl n)
  then show ?case using acquire_held by (simp add: valkey_room_def)
next
  case (6 e s r ttl)
  from renew_live [OF this] show ?case by (auto simp: valkey_room_def valkey_fence_def)
next
  case (7 e s r ttl)
  then show ?case using renew_lost by simp
next
  case (8 e s r)
  then show ?case using validate_live by simp
next
  case (9 e s r)
  then show ?case using validate_lost by simp
next
  case (10 e s r)
  then show ?case using release_replies [OF 10(1-3)] by simp
next
  case (11 e s r h)
  then show ?case using release_replies [OF 11(1-3)] by simp
next
  case (12 e e' s r s')
  have run: "valkey_Release S prefix e r s = (None, s')" using 12(5) by simp
  have ok: "valkey_env_ok e" "vk_ctx e = None" "vk_ctx e' = None" using 12(1,2) by (simp_all add: valkey_calm_def)
  have input: "valkey_input (rec_Key r) (rec_Owner r) (rec_Token r) 1000000"
    using run ok by (auto simp: valkey_Release_def valkey_input_def split: option.splits)
  have "backend_call (valkey_backend S prefix) e (CallRelease r) s = (Done, s')" using run by simp
  then have inv': "valkey_invar hash_at count_at prefix s'"
    by (rule lease.invar_call [OF ok(1) 12(4)])
  from release_done [OF ok(1) 12(4) run 12(3)] release_replies [OF 12(2) inv' input] show ?case by simp
qed

context valkey_lease
begin

lemma progress_contract:
  "lease_progress (valkey_backend S prefix) (valkey_invar hash_at count_at prefix)
     key_digest (valkey_live hash_at prefix) (valkey_fence count_at prefix)
     (\<lambda>e. valkey_instant (vk_now e)) (\<lambda>e. valkey_instant (vk_now e)) valkey_env_ok
     valkey_calm valkey_input (valkey_room count_at prefix) (valkey_settled hash_at prefix) valkey_lasts valkey_gone"
  by (rule progress.lease_progress_axioms)

end

section \<open>Safety\<close>

text \<open>
  C14: Fences of the Valkey store. On any server with the documented behaviour, and
  whatever requests or replies are lost, the tokens handed out for the keys that share a
  digest are strictly increasing and above the retained counter.
\<close>

theorem valkey_fences_increase:
  assumes "valkey_server S hash_at count_at" and "valkey_invar hash_at count_at prefix v"
    and "\<forall>(e, c) \<in> set cs. valkey_env_ok e"
  shows "sorted_wrt (<) (valkey_fence count_at prefix v d #
    acquired_tokens (\<lambda>k. key_digest k = d) (fst (backend_run (valkey_backend S prefix) cs v)))"
  using lease_safety.run_tokens_increase [OF valkey_lease.safety [OF valkey_lease.intro [OF assms(1)]]
      surjective_pairing assms(2,3)] .

text \<open>
  C15: Successor protection in the Valkey store. After an acquisition whose reply arrived,
  and any further exchanges, a record of a key with the same digest and an older fence is
  neither renewed nor validated, and releasing it changes no holder and no counter.
\<close>

theorem valkey_successor_protected:
  assumes "valkey_server S hash_at count_at" and "valkey_invar hash_at count_at prefix v"
    and "valkey_env_ok e1" and "valkey_TryAcquire S prefix e1 k ow ttl v = (Inr r2, v1)"
    and "backend_run (valkey_backend S prefix) cs v1 = (tr, v2)" and "\<forall>(e, c) \<in> set cs. valkey_env_ok e"
    and "key_digest (rec_Key r1) = key_digest k" and "unat (rec_Token r1) < unat (rec_Token r2)"
    and "valkey_env_ok e"
  shows "fst (valkey_Renew S prefix e r1 ttl' v2) \<noteq> Inr r' \<and> fst (valkey_Validate S prefix e r1 v2) \<noteq> Inr r' \<and>
    valkey_live hash_at prefix (snd (valkey_Release S prefix e r1 v2)) t i = valkey_live hash_at prefix v2 t i \<and>
    valkey_fence count_at prefix (snd (valkey_Release S prefix e r1 v2)) i = valkey_fence count_at prefix v2 i"
proof -
  note C = valkey_lease.contract [OF valkey_lease.intro [OF assms(1)]]
  have got: "backend_call (valkey_backend S prefix) e1 (CallAcquire k ow ttl) v = (Got r2, v1)"
    using assms(4) by (simp add: valkey_backend_def)
  show ?thesis
    using lease_backend.successor_protected [OF C assms(3,2) got assms(5-9)] by (simp add: valkey_backend_def)
qed

text \<open>
  Exclusion in the Valkey store. While the server's clock stays before the expiry of an
  acquired lease and its holder neither renews nor releases it, no acquisition of a key
  with its digest succeeds, and the stored hash names the holder until that expiry.
\<close>

theorem valkey_exclusive:
  assumes "valkey_server S hash_at count_at" and "valkey_invar hash_at count_at prefix v"
    and "valkey_env_ok e1" and "valkey_TryAcquire S prefix e1 k ow ttl v = (Inr r, v1)"
    and "backend_run (valkey_backend S prefix) cs v1 = (tr, v2)" and "\<forall>(e, c) \<in> set cs. valkey_env_ok e"
    and "\<forall>(e, c, rep) \<in> set tr. valkey_instant (vk_now e) < rec_ExpiresAt r \<and>
      \<not> (call_by (ow, rec_Token r) c \<and> key_digest (call_key c) = key_digest k)"
  shows "acquired_tokens (\<lambda>k'. key_digest k' = key_digest k) tr = [] \<and>
    (\<forall>t < rec_ExpiresAt r. valkey_live hash_at prefix v2 t (key_digest k) = Some (ow, rec_Token r))"
proof -
  note C = valkey_lease.safety [OF valkey_lease.intro [OF assms(1)]]
  have got: "backend_call (valkey_backend S prefix) e1 (CallAcquire k ow ttl) v = (Got r, v1)"
    using assms(4) by (simp add: valkey_backend_def)
  show ?thesis using lease_safety.exclusive_until_expiry [OF C assms(3,2) got assms(5-7)] .
qed

text \<open>
  Progress of the Valkey store. A delivered acquisition of a vacant key with valid
  input and an unexhausted counter succeeds with the next fence, the server's time and
  the lifetime cut to whole milliseconds.
\<close>

theorem valkey_acquire_vacant:
  assumes "valkey_server S hash_at count_at" and "valkey_invar hash_at count_at prefix v"
    and "valkey_env_ok e" and "vk_fate e = Delivered" and "valkey_validate (vk_ctx e) k ow 1 ttl = None"
    and "valkey_live hash_at prefix v (valkey_instant (vk_now e)) (key_digest k) = None"
    and "valkey_fence count_at prefix v (key_digest k) < 2 ^ 63 - 1"
  shows "fst (valkey_TryAcquire S prefix e k ow ttl v) =
    Inr \<lparr>rec_Key = k, rec_Owner = ow,
      rec_Token = word_of_nat (Suc (valkey_fence count_at prefix v (key_digest k))),
      rec_AcquiredAt = time_UnixMilli (int (vk_now e div 1000)),
      rec_ExpiresAt = time_UnixMilli (int (vk_now e div 1000 + nat (sint ttl div 1000000)))\<rparr>"
  using valkey_lease.acquire_vacant [OF valkey_lease.intro [OF assms(1)] assms(2-7)] .

text \<open>
  C11: The Valkey store serves the owner and nobody else. With delivered scripts: while a
  record's owner and fence hold the lease, its renewal succeeds for the full lifetime and
  its validation and release succeed; when they do not hold it, renewal and validation
  answer \<^verbatim>\<open>ErrStaleOwner\<close> and change nothing, and release does so while someone else holds the
  lease and succeeds without effect when nobody does.
\<close>

theorem valkey_owner_served:
  assumes "valkey_server S hash_at count_at" and "valkey_invar hash_at count_at prefix v" and "valkey_calm e"
    and "valkey_input (rec_Key r) (rec_Owner r) (rec_Token r) ttl"
    and "valkey_settled hash_at prefix v (valkey_instant (vk_now e)) (key_digest (rec_Key r))"
  defines "mine \<equiv> Some (rec_Owner r, rec_Token r)" and "live \<equiv> \<lambda>v t. valkey_live hash_at prefix v t (key_digest (rec_Key r))"
  shows "(live v (valkey_instant (vk_now e)) = mine \<longrightarrow>
      (\<exists>r' v'. valkey_Renew S prefix e r ttl v = (Inr r', v') \<and> (\<forall>t < valkey_lasts e ttl. live v' t = mine)) \<and>
      (\<exists>r'. valkey_Validate S prefix e r v = (Inr r', v)) \<and>
      (\<exists>v'. valkey_Release S prefix e r v = (None, v') \<and> live v' (valkey_instant (vk_now e)) = None)) \<and>
    (live v (valkey_instant (vk_now e)) \<noteq> mine \<longrightarrow>
      (\<exists>err. valkey_Renew S prefix e r ttl v = (Inl err, v) \<and> errors_Is err (Sentinel ErrStaleOwner)) \<and>
      (\<exists>err. valkey_Validate S prefix e r v = (Inl err, v) \<and> errors_Is err (Sentinel ErrStaleOwner)) \<and>
      (\<exists>res. valkey_Release S prefix e r v = (res, v) \<and>
         (if live v (valkey_instant (vk_now e)) = None then res = None else err_is res (Sentinel ErrStaleOwner))))"
proof -
  note vl = valkey_lease.intro [OF assms(1)]
  have ok: "valkey_env_ok e" using assms(3) by (simp add: valkey_calm_def)
  have short: "valkey_input (rec_Key r) (rec_Owner r) (rec_Token r) 1000000"
    using assms(4) by (auto simp: valkey_input_def valkey_validate_def split: if_splits)
  note release = valkey_lease.release_replies [OF vl assms(3,2) short]
  show ?thesis
    unfolding mine_def live_def
  proof (intro conjI impI)
    assume held: "valkey_live hash_at prefix v (valkey_instant (vk_now e)) (key_digest (rec_Key r)) = Some (rec_Owner r, rec_Token r)"
    show "\<exists>r' v'. valkey_Renew S prefix e r ttl v = (Inr r', v') \<and>
        (\<forall>t < valkey_lasts e ttl. valkey_live hash_at prefix v' t (key_digest (rec_Key r)) = Some (rec_Owner r, rec_Token r))"
      using valkey_lease.renew_live [OF vl assms(3,2,4) held assms(5)] by blast
    show "\<exists>r'. valkey_Validate S prefix e r v = (Inr r', v)"
      by (rule valkey_lease.validate_live [OF vl assms(3,2) short held assms(5)])
    show "\<exists>v'. valkey_Release S prefix e r v = (None, v') \<and>
        valkey_live hash_at prefix v' (valkey_instant (vk_now e)) (key_digest (rec_Key r)) = None"
      using release held valkey_lease.release_done [OF vl ok assms(2)] by simp
  next
    assume lost: "valkey_live hash_at prefix v (valkey_instant (vk_now e)) (key_digest (rec_Key r)) \<noteq> Some (rec_Owner r, rec_Token r)"
    show "\<exists>err. valkey_Renew S prefix e r ttl v = (Inl err, v) \<and> errors_Is err (Sentinel ErrStaleOwner)"
      using valkey_lease.renew_lost [OF vl assms(3,2,4) lost] by simp
    show "\<exists>err. valkey_Validate S prefix e r v = (Inl err, v) \<and> errors_Is err (Sentinel ErrStaleOwner)"
      using valkey_lease.validate_lost [OF vl assms(3,2) short lost] by simp
    show "\<exists>res. valkey_Release S prefix e r v = (res, v) \<and>
        (if valkey_live hash_at prefix v (valkey_instant (vk_now e)) (key_digest (rec_Key r)) = None
         then res = None else err_is res (Sentinel ErrStaleOwner))"
      using release lost by simp
  qed
qed

section \<open>Cluster slots, guards and inspection\<close>

lemma strings_Cut_at:
  "c \<notin> set a \<Longrightarrow> strings_Cut (a @ c # b) c = (a, b, True)"
  by (induction a) auto

lemma newStore_prefix:
  "valkey_newStore ok prefix = Inr p \<Longrightarrow> p = prefix \<and> CHR ''{'' \<notin> set prefix"
  by (auto simp: valkey_newStore_def strings_ContainsAny_def list_ex_iff split: if_splits)

lemma key_digest_plain: "CHR ''}'' \<notin> set (key_digest k)" "length (key_digest k) = 32"
  using hex_chars [of "take 16 (sha256_Sum256 (key_String k))"]
  by (auto simp: key_digest_def length_hex length_sha256 hex_digits_def)

text \<open>
  Both keys of a lease lie in one cluster slot. For a store with an accepted prefix the
  hash tag of the lease key and of the counter key is the 32-character digest of the lease
  key's name, which is what makes the scripts atomic on a cluster; different digests or a
  different role give different keys.
\<close>

theorem valkey_keys_same_slot:
  assumes "valkey_New client_set prefix = Inr p" and "valkey_keys p k = [lk, ck]"
  shows "hashTag lk = key_digest k \<and> hashTag ck = key_digest k \<and> length (hashTag lk) = 32 \<and> lk \<noteq> ck"
proof -
  have p: "CHR ''{'' \<notin> set p"
    using assms(1) newStore_prefix by (auto simp: valkey_New_def split: if_splits)
  have "hashTag (p @ '':'' @ (''{'' @ key_digest k @ ''}'') @ rest) = key_digest k" for rest
    using strings_Cut_at [of "CHR ''{''" "p @ '':''" "key_digest k @ CHR ''}'' # rest"] p
      strings_Cut_at [of "CHR ''}''" "key_digest k" rest] key_digest_plain(1)
    by (simp add: hashTag_def)
  then show ?thesis
    using assms(2) key_digest_plain(2) lease_counter_distinct
    by (auto simp: valkey_keys_def lease_key_def counter_key_def)
qed

text \<open>
  C37: A guard names exactly the stored ownership. A writer that compares the hash under
  the guard's storage key with the guard's owner and token, at a server time, finds them
  equal exactly when the guarded record is the current holder at that time.
\<close>

theorem valkey_guard_exact:
  assumes "valkey_server S hash_at count_at" and "valkey_invar hash_at count_at prefix v"
    and "valkey_Guard prefix r = Inr g"
  shows "(EXISTS S now (guard_storageKey g) v \<and>
      HGET S now (guard_storageKey g) ''owner'' v = Some (guard_owner g) \<and>
      HGET S now (guard_storageKey g) ''token'' v = Some (guard_token g)) \<longleftrightarrow>
    valkey_live hash_at prefix v (valkey_instant now) (key_digest (rec_Key r)) = Some (rec_Owner r, rec_Token r)"
proof -
  have "g = \<lparr>guard_storageKey = lease_key prefix (key_digest (rec_Key r)),
      guard_owner = rec_Owner r, guard_token = strconv_FormatUint (rec_Token r)\<rparr>"
    using assms(3) by (simp add: valkey_Guard_def split: if_splits)
  then show ?thesis
    using valkey_server.owned_iff [OF assms(1,2), of now "key_digest (rec_Key r)" "rec_Owner r" "rec_Token r"]
    by (auto simp: not_owned_def)
qed

text \<open>
  \<^verbatim>\<open>Open\<close> returns a store exactly when the client and the context are usable, the server
  reports a version of at least 9 and the \<^verbatim>\<open>noeviction\<close> policy, and the prefix is accepted.
\<close>

theorem valkey_Open_exact:
  "valkey_Open ctx client_set prefix info_reply ctx1 config_reply ctx2 = Inr p \<longleftrightarrow>
     client_set \<and> ctx = Some None \<and> p = prefix \<and> 0 < length prefix \<and> length prefix \<le> 64 \<and>
     set prefix \<inter> {CHR ''{'', CHR ''}'', CHR 0x00, CHR 0x0D, CHR 0x0A, CHR '' ''} = {} \<and>
     (\<exists>info major config. info_reply = Inr info \<and> valkeyMajor info = Inr major \<and> 9 \<le> major \<and>
        config_reply = Inr config \<and> config ''maxmemory-policy'' = Some ''noeviction'')"
  by (auto simp: valkey_Open_def native_Check_def valkey_newStore_def strings_ContainsAny_def list_ex_iff
      split: option.splits sum.splits if_splits)

section \<open>A reference server\<close>

text \<open>Hashes with expiry and counters; expired hashes are dropped when they are next used.\<close>

record ref_space =
  space_hash :: "string \<Rightarrow> hash option"
  space_count :: "string \<Rightarrow> nat"

definition ref_valkey :: "ref_space valkey" where
  "ref_valkey = \<lparr>
     EXISTS = (\<lambda>now k v. live_hash (now div 1000) (space_hash v k) \<noteq> None \<or> space_count v k \<noteq> 0),
     INCR = (\<lambda>now k v. if space_hash v k \<noteq> None then Inl (Opaque ''WRONGTYPE'' [])
        else if space_count v k < 2 ^ 63 - 1
        then Inr (v\<lparr>space_count := (space_count v)(k := Suc (space_count v k))\<rparr>)
        else Inl (Opaque ''ERR increment or decrement would overflow'' [])),
     GET = (\<lambda>now k v. if space_count v k = 0 then None else Some (digits10 (space_count v k))),
     TIME = (\<lambda>now. (now div 1000000, now mod 1000000)),
     HSET = (\<lambda>now k fvs v. v\<lparr>space_hash := (space_hash v)(k :=
        (case live_hash (now div 1000) (space_hash v k) of
           None \<Rightarrow> Some (map_of (rev fvs), None)
         | Some h \<Rightarrow> Some (h ++ map_of (rev fvs), snd (the (space_hash v k)))))\<rparr>),
     HGET = (\<lambda>now k f v. case live_hash (now div 1000) (space_hash v k) of None \<Rightarrow> None | Some h \<Rightarrow> h f),
     PEXPIRE = (\<lambda>now k ms v. case (live_hash (now div 1000) (space_hash v k), parse_nat ms) of
          (Some h, Some n) \<Rightarrow>
            v\<lparr>space_hash := (space_hash v)(k := (if n = 0 then None else Some (h, Some (now div 1000 + n))))\<rparr>
        | _ \<Rightarrow> v),
     DEL = (\<lambda>now k v. v\<lparr>space_hash := (space_hash v)(k := None), space_count := (space_count v)(k := 0)\<rparr>),
     TOSTRING = digits10\<rparr>"

lemma fun_upd_idem_count: "c k = (0 :: nat) \<Longrightarrow> c(k := 0) = c"
  by (rule fun_upd_idem)

interpretation refvk: valkey_lease ref_valkey space_hash space_count prefix for prefix
  by unfold_locales
    (auto simp: ref_valkey_def fun_upd_idem_count live_hash_def
      split: if_splits option.splits)

section \<open>Witnesses\<close>

text \<open>
  A key that was once leased with fence 1 and is vacant; the next owner acquires it for
  five seconds. The digest stays symbolic.
\<close>

definition ex_vkey :: Key where "ex_vkey = \<lparr>key_value = ''a/b''\<rparr>"

definition ex_space :: ref_space where
  "ex_space = \<lparr>space_hash = (\<lambda>_. None),
     space_count = (\<lambda>_. 0)(counter_key ''app'' (key_digest ex_vkey) := 1)\<rparr>"

definition ex_exchange :: "nat \<Rightarrow> vk_env" where
  "ex_exchange ms = \<lparr>vk_now = ms * 1000, vk_ctx = None, vk_ctx_after = None, vk_fate = Delivered\<rparr>"

definition ex_vrecord :: "string \<Rightarrow> Token \<Rightarrow> int \<Rightarrow> int \<Rightarrow> Record" where
  "ex_vrecord ow tok a b = \<lparr>rec_Key = ex_vkey, rec_Owner = ow, rec_Token = tok,
     rec_AcquiredAt = time_UnixMilli a, rec_ExpiresAt = time_UnixMilli b\<rparr>"

definition ex_space1 :: ref_space where
  "ex_space1 = snd (valkey_TryAcquire ref_valkey ''app'' (ex_exchange 1000) ex_vkey ''y'' (5 * Second) ex_space)"

lemma ex_exchange_ok: "ms < 90000000000000 \<Longrightarrow> valkey_env_ok (ex_exchange ms)"
  by (simp add: ex_exchange_def valkey_env_ok_def)

lemma ex_space_invar: "valkey_invar space_hash space_count ''app'' ex_space"
  by (simp add: valkey_invar_def ex_space_def)

lemma ex_space_vacant:
  "valkey_validate (vk_ctx (ex_exchange 1000)) ex_vkey ''y'' 1 (5 * Second) = None"
  "valkey_live space_hash ''app'' ex_space t (key_digest ex_vkey) = None"
  "valkey_fence space_count ''app'' ex_space (key_digest ex_vkey) = 1"
  by (simp_all add: ex_exchange_def valkey_validate_def ex_vkey_def valkey_live_def live_hash_def ex_space_def
      valkey_fence_def word_sless_alt)

lemma ex_space1_got:
  "valkey_TryAcquire ref_valkey ''app'' (ex_exchange 1000) ex_vkey ''y'' (5 * Second) ex_space =
     (Inr (ex_vrecord ''y'' 2 1000 6000), ex_space1)"
proof -
  have "vk_now (ex_exchange 1000) = 1000000" "vk_fate (ex_exchange 1000) = Delivered"
    by (simp_all add: ex_exchange_def)
  then show ?thesis
    using refvk.acquire_vacant [OF ex_space_invar ex_exchange_ok _ ex_space_vacant(1,2)]
    by (simp add: ex_space1_def prod_eq_iff ex_space_vacant ex_vrecord_def)
qed

theorem valkey_fences_increase_witness:
  "sorted_wrt (<) (valkey_fence space_count ''app'' ex_space (key_digest ex_vkey) #
     acquired_tokens (\<lambda>k. key_digest k = key_digest ex_vkey) (fst (backend_run (valkey_backend ref_valkey ''app'')
       [(ex_exchange 1000, CallAcquire ex_vkey ''y'' (5 * Second)),
        (ex_exchange 2000, CallAcquire ex_vkey ''z'' (5 * Second))] ex_space)))"
  by (rule valkey_fences_increase [OF refvk.valkey_server_axioms ex_space_invar]) (simp add: ex_exchange_ok)

theorem valkey_successor_protected_witness:
  "fst (valkey_Renew ref_valkey ''app'' (ex_exchange 2000) (ex_vrecord ''x'' 1 0 900) Second ex_space1) \<noteq>
     Inr (ex_vrecord ''x'' 1 0 3000) \<and>
   fst (valkey_Validate ref_valkey ''app'' (ex_exchange 2000) (ex_vrecord ''x'' 1 0 900) ex_space1) \<noteq>
     Inr (ex_vrecord ''x'' 1 0 3000) \<and>
   valkey_live space_hash ''app'' (snd (valkey_Release ref_valkey ''app'' (ex_exchange 2000)
       (ex_vrecord ''x'' 1 0 900) ex_space1)) 0 (key_digest ex_vkey) =
     valkey_live space_hash ''app'' ex_space1 0 (key_digest ex_vkey) \<and>
   valkey_fence space_count ''app'' (snd (valkey_Release ref_valkey ''app'' (ex_exchange 2000)
       (ex_vrecord ''x'' 1 0 900) ex_space1)) (key_digest ex_vkey) =
     valkey_fence space_count ''app'' ex_space1 (key_digest ex_vkey)"
proof -
  have run: "backend_run (valkey_backend ref_valkey ''app'') [] ex_space1 = ([], ex_space1)" by simp
  show ?thesis
    by (rule valkey_successor_protected [OF refvk.valkey_server_axioms ex_space_invar _ ex_space1_got run])
      (simp_all add: ex_exchange_ok ex_vrecord_def)
qed

theorem valkey_exclusive_witness:
  "valkey_live space_hash ''app'' (snd (backend_run (valkey_backend ref_valkey ''app'')
      [(ex_exchange 2000, CallAcquire ex_vkey ''z'' (5 * Second))] ex_space1))
     (time_UnixMilli 5999) (key_digest ex_vkey) = Some (''y'', 2)"
proof -
  let ?cs = "[(ex_exchange 2000, CallAcquire ex_vkey ''z'' (5 * Second))]"
  obtain tr v2 where run: "backend_run (valkey_backend ref_valkey ''app'') ?cs ex_space1 = (tr, v2)"
    by fastforce
  then have tr: "\<exists>rep. tr = [(ex_exchange 2000, CallAcquire ex_vkey ''z'' (5 * Second), rep)]"
    by (auto split: prod.splits)
  have "valkey_live space_hash ''app'' v2 (time_UnixMilli 5999) (key_digest ex_vkey) = Some (''y'', 2)"
    using valkey_exclusive [OF refvk.valkey_server_axioms ex_space_invar ex_exchange_ok ex_space1_got run] tr
    by (auto simp: ex_exchange_ok ex_vrecord_def ex_exchange_def valkey_instant_def time_UnixMilli_def valkey_env_ok_def)
  with run show ?thesis by simp
qed

theorem valkey_acquire_vacant_witness:
  "fst (valkey_TryAcquire ref_valkey ''app'' (ex_exchange 1000) ex_vkey ''y'' (5 * Second) ex_space) =
     Inr (ex_vrecord ''y'' 2 1000 6000)"
proof -
  have "vk_now (ex_exchange 1000) = 1000000" "vk_fate (ex_exchange 1000) = Delivered"
    by (simp_all add: ex_exchange_def)
  then show ?thesis
    using valkey_acquire_vacant [OF refvk.valkey_server_axioms ex_space_invar ex_exchange_ok _ ex_space_vacant(1,2)]
    by (simp add: ex_space_vacant ex_vrecord_def)
qed

theorem valkey_keys_same_slot_witness:
  "hashTag (lease_key ''app'' (key_digest ex_vkey)) = key_digest ex_vkey"
  using valkey_keys_same_slot [of True "''app''" "''app''" ex_vkey]
  by (simp add: valkey_New_def valkey_newStore_def strings_ContainsAny_def valkey_keys_def)

theorem valkey_guard_exact_witness:
  "(EXISTS ref_valkey 1000000 (lease_key ''app'' (key_digest ex_vkey)) ex_space \<and>
    HGET ref_valkey 1000000 (lease_key ''app'' (key_digest ex_vkey)) ''owner'' ex_space = Some ''x'' \<and>
    HGET ref_valkey 1000000 (lease_key ''app'' (key_digest ex_vkey)) ''token'' ex_space = Some (strconv_FormatUint 1)) \<longleftrightarrow>
   valkey_live space_hash ''app'' ex_space (valkey_instant 1000000) (key_digest ex_vkey) = Some (''x'', 1)"
  using valkey_guard_exact [OF refvk.valkey_server_axioms ex_space_invar, of "ex_vrecord ''x'' 1 0 900"
      "\<lparr>guard_storageKey = lease_key ''app'' (key_digest ex_vkey), guard_owner = ''x'', guard_token = strconv_FormatUint 1\<rparr>" 1000000]
  by (simp add: valkey_Guard_def ex_vrecord_def ex_vkey_def)

section \<open>Refinement\<close>



theorem valkey_owner_served_witness:
  "\<exists>r'. valkey_Validate ref_valkey ''app'' (ex_exchange 2000) (ex_vrecord ''y'' 2 1000 6000) ex_space1 = (Inr r', ex_space1)"
proof -
  have calm: "valkey_calm (ex_exchange 2000)" "valkey_calm (ex_exchange 1000)"
    by (simp_all add: valkey_calm_def ex_exchange_def valkey_env_ok_def)
  have input: "valkey_input ex_vkey ''y'' 2 (5 * Second)" "valkey_input ex_vkey ''y'' 1 (5 * Second)"
    by (simp_all add: valkey_input_def valkey_validate_def ex_vkey_def word_sless_alt)
  have "valkey_room space_count ''app'' (Suc 0) ex_space ex_vkey" by (simp add: valkey_room_def ex_space_vacant)
  from refvk.acquire_granted [OF calm(2) ex_space_invar input(2) ex_space_vacant(2) this] ex_space1_got
  have st: "valkey_settled space_hash ''app'' ex_space1 (valkey_instant 1000000) (key_digest ex_vkey)"
    "\<And>t. t < valkey_lasts (ex_exchange 1000) (5 * Second) \<Longrightarrow>
       valkey_live space_hash ''app'' ex_space1 t (key_digest ex_vkey) = Some (''y'', 2)"
    by (auto simp: ex_exchange_def ex_vrecord_def)
  have inv: "valkey_invar space_hash space_count ''app'' ex_space1"
    using refvk.lease.invar_call [OF ex_exchange_ok ex_space_invar, of 1000 "CallAcquire ex_vkey ''y'' (5 * Second)"
        "Got (ex_vrecord ''y'' 2 1000 6000)" ex_space1] ex_space1_got by simp
  have now: "vk_now (ex_exchange 2000) = 2000000" "vk_now (ex_exchange 1000) = 1000000" by (simp_all add: ex_exchange_def)
  have "valkey_settled space_hash ''app'' ex_space1 (valkey_instant 2000000) (key_digest ex_vkey)"
    using refvk.progress.settled_mono [OF st(1), of "valkey_instant 2000000"] by (simp add: valkey_instant_def)
  moreover have "valkey_live space_hash ''app'' ex_space1 (valkey_instant 2000000) (key_digest ex_vkey) = Some (''y'', 2)"
    by (rule st(2)) (simp add: valkey_lasts_def now valkey_instant_def time_UnixMilli_def)
  ultimately show ?thesis
    using valkey_owner_served [OF refvk.valkey_server_axioms inv calm(1), of "ex_vrecord ''y'' 2 1000 6000" "5 * Second"] input now
    by (simp add: ex_vrecord_def)
qed

end
