(* ===== verification/Postgres_Store.thy ===== *)
theory Postgres_Store
  imports Lease_Backend Sha256
begin

text \<open>
  \<^verbatim>\<open>postgres/store.go\<close> and \<^verbatim>\<open>postgres/migration.go\<close>: the PostgreSQL backend. The two tables are
  maps from key digests to rows, and each SQL statement is a function on them that runs
  as its own transaction at the default isolation level, READ COMMITTED: plain reads see
  the snapshot taken when the statement started, while updates and conflict clauses act
  on the latest version of a row. Every textual \<^verbatim>\<open>clock_timestamp()\<close> is a reading of its own.
\<close>

section \<open>Tables\<close>

text \<open>Timestamps are microseconds since Go's zero time.\<close>

type_synonym digest = "nat list"
type_synonym timestamptz = int
type_synonym bigint = int

record lease_row =
  row_owner :: string
  row_token :: bigint
  row_acquired_at :: timestamptz
  row_expires_at :: timestamptz
  row_active :: bool
  row_updated_at :: timestamptz

record pg_tables =
  lease_fences :: "digest \<rightharpoonup> bigint"
  lease_records :: "digest \<rightharpoonup> lease_row"

definition max_bigint :: bigint where "max_bigint = 9223372036854775807"

text \<open>The CHECK constraints of \<^verbatim>\<open>lease_records\<close>.\<close>

definition row_check :: "lease_row \<Rightarrow> bool" where
  "row_check row \<longleftrightarrow> 1 \<le> length (row_owner row) \<and> length (row_owner row) \<le> 128 \<and>
     0 < row_token row \<and> row_acquired_at row < row_expires_at row"

text \<open>A \<^verbatim>\<open>text\<close> parameter must be valid UTF-8 without NUL.\<close>

definition pg_text :: "string \<Rightarrow> bool" where
  "pg_text s \<longleftrightarrow> utf8_ValidString s \<and> CHR 0x00 \<notin> set s"

definition check_violation :: gerror where
  "check_violation = Opaque ''ERROR: new row violates check constraint (SQLSTATE 23514)'' []"

definition invalid_text :: gerror where
  "invalid_text = Opaque ''ERROR: invalid byte sequence for encoding (SQLSTATE 22021)'' []"

definition interval_ms :: "int \<Rightarrow> int" where
  "interval_ms ms = ms * 1000"

section \<open>Statements\<close>

text \<open>
  \<open>clk i\<close> is the reading of the \<open>i\<close>-th \<^verbatim>\<open>clock_timestamp()\<close> in the order of the statement's text.
  A statement returns its row, \<open>Inr None\<close> for no row, or an error, and the new tables; an
  error rolls every change back.
\<close>

type_synonym 'a query_result = "'a option result"

definition next_fence :: "digest \<Rightarrow> pg_tables \<Rightarrow> bigint option" where
  "next_fence d db =
     (case lease_fences db d of
        None \<Rightarrow> Some 1
      | Some f \<Rightarrow> if f < max_bigint then Some (f + 1) else None)"

definition acquire_outcome :: "digest \<Rightarrow> pg_tables \<Rightarrow> string" where
  "acquire_outcome d snap =
     (case lease_fences snap d of
        None \<Rightarrow> ''contended''
      | Some f \<Rightarrow> if max_bigint \<le> f then ''exhausted'' else ''contended'')"

definition acquireSQL ::
  "(nat \<Rightarrow> timestamptz) \<Rightarrow> pg_tables \<Rightarrow> digest \<Rightarrow> string \<Rightarrow> int \<Rightarrow> pg_tables \<Rightarrow>
   (bigint \<times> timestamptz \<times> timestamptz \<times> string) query_result \<times> pg_tables" where
  "acquireSQL clk snap d ow ms db =
     (if \<not> pg_text ow then (Inl invalid_text, db)
      else (case next_fence d db of
          None \<Rightarrow> (Inr (Some (0, clk 7, clk 8, acquire_outcome d snap)), db)
        | Some f \<Rightarrow>
            let db1 = db\<lparr>lease_fences := (lease_fences db)(d \<mapsto> f)\<rparr>;
                proposed = \<lparr>row_owner = ow, row_token = f, row_acquired_at = clk 0,
                  row_expires_at = clk 1 + interval_ms ms, row_active = True, row_updated_at = clk 2\<rparr>;
                install = (\<lambda>row. if row_check row
                  then (Inr (Some (row_token row, row_acquired_at row, row_expires_at row, ''ok'')),
                        db1\<lparr>lease_records := (lease_records db1)(d \<mapsto> row)\<rparr>)
                  else (Inl check_violation, db))
            in if \<not> row_check proposed then (Inl check_violation, db)
               else (case lease_records db d of
                   None \<Rightarrow> install proposed
                 | Some old \<Rightarrow>
                     if \<not> row_active old \<or> row_expires_at old \<le> clk 6
                     then install \<lparr>row_owner = ow, row_token = f, row_acquired_at = clk 3,
                            row_expires_at = clk 4 + interval_ms ms, row_active = True, row_updated_at = clk 5\<rparr>
                     else (Inr (Some (0, clk 7, clk 8, acquire_outcome d snap)), db1))))"

text \<open>
  The row an \<^verbatim>\<open>UPDATE ... WHERE\<close> acts on: it must satisfy the condition in the snapshot, and
  when another transaction has changed it since, the condition is evaluated again on its
  latest version.
\<close>

definition update_target ::
  "(lease_row \<Rightarrow> bool) \<Rightarrow> (lease_row \<Rightarrow> bool) \<Rightarrow> digest \<Rightarrow> pg_tables \<Rightarrow> pg_tables \<Rightarrow> lease_row option" where
  "update_target p recheck d snap db =
     (case (lease_records snap d, lease_records db d) of
        (Some old, Some cur) \<Rightarrow> if p old \<and> (cur = old \<or> recheck cur) then Some cur else None
      | _ \<Rightarrow> None)"

definition owned_row :: "string \<Rightarrow> bigint \<Rightarrow> timestamptz \<Rightarrow> lease_row \<Rightarrow> bool" where
  "owned_row ow tok now row \<longleftrightarrow> row_owner row = ow \<and> row_token row = tok \<and> row_active row \<and>
     now < row_expires_at row"

definition renewSQL ::
  "(nat \<Rightarrow> timestamptz) \<Rightarrow> pg_tables \<Rightarrow> digest \<Rightarrow> string \<Rightarrow> bigint \<Rightarrow> int \<Rightarrow> pg_tables \<Rightarrow>
   (bigint \<times> timestamptz \<times> timestamptz) query_result \<times> pg_tables" where
  "renewSQL clk snap d ow tok ms db =
     (if \<not> pg_text ow then (Inl invalid_text, db)
      else (case update_target (owned_row ow tok (clk 2)) (owned_row ow tok (clk 3)) d snap db of
          None \<Rightarrow> (Inr None, db)
        | Some row \<Rightarrow>
            let row1 = row\<lparr>row_expires_at := clk 0 + interval_ms ms, row_updated_at := clk 1\<rparr>
            in if row_check row1
               then (Inr (Some (row_token row1, row_acquired_at row1, row_expires_at row1)),
                     db\<lparr>lease_records := (lease_records db)(d \<mapsto> row1)\<rparr>)
               else (Inl check_violation, db)))"

definition validateSQL ::
  "(nat \<Rightarrow> timestamptz) \<Rightarrow> pg_tables \<Rightarrow> digest \<Rightarrow> string \<Rightarrow> bigint \<Rightarrow>
   (bigint \<times> timestamptz \<times> timestamptz) query_result" where
  "validateSQL clk snap d ow tok =
     (if \<not> pg_text ow then Inl invalid_text
      else (case lease_records snap d of
          None \<Rightarrow> Inr None
        | Some row \<Rightarrow>
            if owned_row ow tok (clk 0) row
            then Inr (Some (row_token row, row_acquired_at row, row_expires_at row)) else Inr None))"

definition releaseSQL ::
  "(nat \<Rightarrow> timestamptz) \<Rightarrow> pg_tables \<Rightarrow> digest \<Rightarrow> string \<Rightarrow> bigint \<Rightarrow> pg_tables \<Rightarrow>
   string query_result \<times> pg_tables" where
  "releaseSQL clk snap d ow tok db =
     (if \<not> pg_text ow then (Inl invalid_text, db)
      else
        let held = (\<lambda>row. row_owner row = ow \<and> row_token row = tok \<and> row_active row);
            same_release = (case lease_records snap d of
               None \<Rightarrow> False | Some row \<Rightarrow> row_owner row = ow \<and> row_token row = tok \<and> \<not> row_active row);
            existing = (lease_records snap d \<noteq> None)
        in (case update_target held held d snap db of
              Some row \<Rightarrow> (Inr (Some ''ok''), db\<lparr>lease_records := (lease_records db)(d \<mapsto>
                 row\<lparr>row_active := False, row_updated_at := clk 0\<rparr>)\<rparr>)
            | None \<Rightarrow> (Inr (Some (if same_release then ''idempotent''
                 else if \<not> existing then ''idempotent'' else ''stale'')), db)))"

text \<open>
  Cleanup visits the unlocked rows in the order of \<^verbatim>\<open>updated_at\<close>; which rows are unlocked and
  how ties are ordered is the server's choice, given as the list of digests it visits.
\<close>

definition doomed_row :: "timestamptz \<Rightarrow> lease_row \<Rightarrow> bool" where
  "doomed_row now row \<longleftrightarrow> \<not> row_active row \<and> row_updated_at row < now - interval_ms 3600000"

definition cleanupSQL ::
  "(nat \<Rightarrow> timestamptz) \<Rightarrow> digest list \<Rightarrow> nat \<Rightarrow> pg_tables \<Rightarrow> bigint \<times> pg_tables" where
  "cleanupSQL clk visited batch db =
     (let doomed = take batch (filter (\<lambda>d. case lease_records db d of
            None \<Rightarrow> False | Some row \<Rightarrow> doomed_row (clk 0) row) (remdups visited))
      in (int (length doomed), db\<lparr>lease_records := (\<lambda>d. if d \<in> set doomed then None else lease_records db d)\<rparr>))"

section \<open>The store\<close>

text \<open>
  The environment of one call: its clock readings, which lie between the call's begin and
  end; the snapshot of its statement, \<open>None\<close> when nothing was committed between the
  statement's start and its execution; the caller's context before and after; the fate of
  the exchange; and the rows a cleanup visits.
\<close>

record pg_env =
  pg_clock :: "nat \<Rightarrow> timestamptz"
  pg_begin :: timestamptz
  pg_end :: timestamptz
  pg_snap :: "pg_tables option"
  pg_ctx :: "ctx_error option"
  pg_ctx_after :: "ctx_error option"
  pg_fate :: fate
  pg_visited :: "digest list"

definition snapshot :: "pg_env \<Rightarrow> pg_tables \<Rightarrow> pg_tables" where
  "snapshot e db = (case pg_snap e of None \<Rightarrow> db | Some snap \<Rightarrow> snap)"

text \<open>\<^verbatim>\<open>QueryRow(...).Scan(...)\<close>: no row is \<^verbatim>\<open>pgx.ErrNoRows\<close>.\<close>

definition query_row :: "pg_env \<Rightarrow> (pg_tables \<Rightarrow> 'a query_result \<times> pg_tables) \<Rightarrow> pg_tables \<Rightarrow> 'a result \<times> pg_tables" where
  "query_row e stmt db =
     (case pg_fate e of
        LostRequest err \<Rightarrow> (Inl err, db)
      | LostReply err \<Rightarrow> (Inl err, snd (stmt db))
      | Delivered \<Rightarrow>
          (case stmt db of
             (Inl err, db') \<Rightarrow> (Inl err, db')
           | (Inr None, db') \<Rightarrow> (Inl ErrNoRows, db')
           | (Inr (Some row), db') \<Rightarrow> (Inr row, db')))"

definition pg_instant :: "timestamptz \<Rightarrow> instant" where
  "pg_instant t = t * 1000"

definition pg_digest :: "Key \<Rightarrow> digest" where
  "pg_digest key = sha256_Sum256 (key_String key)"

definition pg_newStore :: "bool \<Rightarrow> unit result" where
  "pg_newStore database_set =
     (if \<not> database_set then Inl (Wrap (Sentinel ErrInvalidState) ''nil postgres database'') else Inr ())"

definition pg_New :: "bool \<Rightarrow> unit result" where
  "pg_New pool_set =
     (if \<not> pool_set then Inl (Wrap (Sentinel ErrInvalidState) ''nil postgres pool'') else pg_newStore True)"

definition pg_validate ::
  "ctx_error option \<Rightarrow> Key \<Rightarrow> string \<Rightarrow> Token \<Rightarrow> duration \<Rightarrow> gerror option" where
  "pg_validate ctx key owner token ttl =
     (case ctx of
        Some err \<Rightarrow> Some (Wrap (Sentinel ErrCanceled) ''postgres context'')
      | None \<Rightarrow>
          if key_String key = '''' then Some (Wrap (Sentinel ErrInvalidState) ''postgres input'')
          else if owner = '''' then Some (Wrap (Sentinel ErrInvalidState) ''postgres input'')
          else if length owner > 128 then Some (Wrap (Sentinel ErrInvalidState) ''postgres input'')
          else if token = 0 then Some (Wrap (Sentinel ErrInvalidState) ''postgres input'')
          else if token > 9223372036854775807 then Some (Wrap (Sentinel ErrInvalidState) ''postgres input'')
          else if ttl <s Millisecond then Some (Wrap (Sentinel ErrInvalidState) ''postgres input'')
          else None)"

definition pg_classify :: "ctx_error option \<Rightarrow> gerror \<Rightarrow> bool \<Rightarrow> gerror" where
  "pg_classify ctx err ambiguous =
     (if ambiguous then failure_Wrap (Sentinel ErrAmbiguousOutcome) err ''postgres operation''
      else if ctx \<noteq> None \<or> errors_Is err (CtxError Canceled) \<or> errors_Is err (CtxError DeadlineExceeded)
      then Wrap (Sentinel ErrCanceled) ''postgres operation''
      else failure_Wrap (Sentinel ErrBackendUnavailable) err ''postgres operation'')"

definition recordFromValues ::
  "Key \<Rightarrow> string \<Rightarrow> bigint \<Rightarrow> timestamptz \<Rightarrow> timestamptz \<Rightarrow> Record result" where
  "recordFromValues key owner token acquiredAt expiresAt =
     (if token \<le> 0 \<or> \<not> acquiredAt < expiresAt
      then Inl (Wrap (Sentinel ErrBackendUnavailable) ''postgres response'')
      else Inr \<lparr>rec_Key = key, rec_Owner = owner, rec_Token = word_of_int token,
             rec_AcquiredAt = pg_instant acquiredAt, rec_ExpiresAt = pg_instant expiresAt\<rparr>)"

definition scanRecord ::
  "Key \<Rightarrow> string \<Rightarrow> (bigint \<times> timestamptz \<times> timestamptz) result \<Rightarrow> Record result" where
  "scanRecord key owner row =
     (case row of
        Inl err \<Rightarrow> Inl err
      | Inr (token, acquiredAt, expiresAt) \<Rightarrow> recordFromValues key owner token acquiredAt expiresAt)"

definition pg_TryAcquire ::
  "pg_env \<Rightarrow> Key \<Rightarrow> string \<Rightarrow> duration \<Rightarrow> pg_tables \<Rightarrow> Record result \<times> pg_tables" where
  "pg_TryAcquire e key owner ttl db =
     (case pg_validate (pg_ctx e) key owner 1 ttl of
        Some err \<Rightarrow> (Inl err, db)
      | None \<Rightarrow>
          (case query_row e (acquireSQL (pg_clock e) (snapshot e db) (pg_digest key) owner
                  (duration_Milliseconds ttl)) db of
             (Inl err, db') \<Rightarrow> (Inl (pg_classify (pg_ctx_after e) err True), db')
           | (Inr (token, acquiredAt, expiresAt, outcome), db') \<Rightarrow>
               (if outcome = ''contended'' then Inl (Wrap (Sentinel ErrContended) ''postgres acquire'')
                else if outcome = ''exhausted''
                then Inl (Wrap (Sentinel ErrBackendUnavailable) ''postgres fence exhausted'')
                else if outcome = ''ok''
                then (case recordFromValues key owner token acquiredAt expiresAt of
                        Inl recordErr \<Rightarrow> Inl (pg_classify (pg_ctx_after e) recordErr True)
                      | Inr record0 \<Rightarrow> Inr record0)
                else Inl (pg_classify (pg_ctx_after e)
                       (Wrap (Sentinel ErrBackendUnavailable) ''postgres acquire response'') True), db')))"

definition pg_Renew ::
  "pg_env \<Rightarrow> Record \<Rightarrow> duration \<Rightarrow> pg_tables \<Rightarrow> Record result \<times> pg_tables" where
  "pg_Renew e owned ttl db =
     (case pg_validate (pg_ctx e) (rec_Key owned) (rec_Owner owned) (rec_Token owned) ttl of
        Some err \<Rightarrow> (Inl err, db)
      | None \<Rightarrow>
          (case query_row e (renewSQL (pg_clock e) (snapshot e db) (pg_digest (rec_Key owned)) (rec_Owner owned)
                  (sint (rec_Token owned)) (duration_Milliseconds ttl)) db of
             (row, db') \<Rightarrow>
               ((case scanRecord (rec_Key owned) (rec_Owner owned) row of
                   Inl err \<Rightarrow>
                     if errors_Is err ErrNoRows then Inl (Wrap (Sentinel ErrStaleOwner) ''postgres renew'')
                     else Inl (pg_classify (pg_ctx_after e) err True)
                 | Inr record0 \<Rightarrow>
                     if rec_Token record0 \<noteq> rec_Token owned
                     then Inl (Wrap (Sentinel ErrAmbiguousOutcome) ''postgres renew response'')
                     else Inr record0), db')))"

definition pg_Validate ::
  "pg_env \<Rightarrow> Record \<Rightarrow> pg_tables \<Rightarrow> Record result \<times> pg_tables" where
  "pg_Validate e owned db =
     (case pg_validate (pg_ctx e) (rec_Key owned) (rec_Owner owned) (rec_Token owned) Millisecond of
        Some err \<Rightarrow> (Inl err, db)
      | None \<Rightarrow>
          (case query_row e (\<lambda>db. (validateSQL (pg_clock e) (snapshot e db) (pg_digest (rec_Key owned))
                  (rec_Owner owned) (sint (rec_Token owned)), db)) db of
             (row, db') \<Rightarrow>
               ((case scanRecord (rec_Key owned) (rec_Owner owned) row of
                   Inl err \<Rightarrow>
                     if errors_Is err ErrNoRows then Inl (Wrap (Sentinel ErrStaleOwner) ''postgres validate'')
                     else Inl (pg_classify (pg_ctx_after e) err False)
                 | Inr record0 \<Rightarrow>
                     if rec_Token record0 \<noteq> rec_Token owned
                     then Inl (Wrap (Sentinel ErrBackendUnavailable) ''postgres validate response'')
                     else Inr record0), db')))"

definition pg_Release :: "pg_env \<Rightarrow> Record \<Rightarrow> pg_tables \<Rightarrow> gerror option \<times> pg_tables" where
  "pg_Release e owned db =
     (case pg_validate (pg_ctx e) (rec_Key owned) (rec_Owner owned) (rec_Token owned) Millisecond of
        Some err \<Rightarrow> (Some err, db)
      | None \<Rightarrow>
          (case query_row e (releaseSQL (pg_clock e) (snapshot e db) (pg_digest (rec_Key owned))
                  (rec_Owner owned) (sint (rec_Token owned))) db of
             (Inl err, db') \<Rightarrow> (Some (pg_classify (pg_ctx_after e) err True), db')
           | (Inr outcome, db') \<Rightarrow>
               (if outcome = ''ok'' \<or> outcome = ''idempotent'' then None
                else if outcome = ''stale'' then Some (Wrap (Sentinel ErrStaleOwner) ''postgres release'')
                else Some (Wrap (Sentinel ErrBackendUnavailable) ''postgres response''), db')))"

definition pg_Cleanup :: "pg_env \<Rightarrow> uint32 \<Rightarrow> pg_tables \<Rightarrow> uint32 result \<times> pg_tables" where
  "pg_Cleanup e batch db =
     (if pg_ctx e \<noteq> None then (Inl (Wrap (Sentinel ErrCanceled) ''postgres cleanup''), db)
      else if batch = 0 \<or> batch > 10000 then (Inl (Wrap (Sentinel ErrInvalidState) ''postgres cleanup''), db)
      else (case query_row e (\<lambda>db. map_prod (\<lambda>n. Inr (Some n)) id
                    (cleanupSQL (pg_clock e) (pg_visited e) (unat batch) db)) db of
          (Inl err, db') \<Rightarrow> (Inl (pg_classify (pg_ctx_after e) err True), db')
        | (Inr count, db') \<Rightarrow>
            if count < 0 \<or> count > int (unat batch)
            then (Inl (Wrap (Sentinel ErrBackendUnavailable) ''postgres cleanup response''), db')
            else (Inr (word_of_int count), db')))"

definition pg_backend :: "(pg_env, pg_tables) Backend" where
  "pg_backend = \<lparr>be_TryAcquire = pg_TryAcquire, be_Renew = pg_Renew,
     be_Validate = pg_Validate, be_Release = pg_Release\<rparr>"

lemma pg_backend_simps [simp]:
  "be_TryAcquire pg_backend = pg_TryAcquire" "be_Renew pg_backend = pg_Renew"
  "be_Validate pg_backend = pg_Validate" "be_Release pg_backend = pg_Release"
  by (simp_all add: pg_backend_def)

section \<open>View and invariant\<close>

definition row_live :: "instant \<Rightarrow> lease_row \<Rightarrow> holder option" where
  "row_live t row = (if row_active row \<and> t < pg_instant (row_expires_at row)
     then Some (row_owner row, word_of_int (row_token row)) else None)"

definition pg_live :: "pg_tables \<Rightarrow> instant \<Rightarrow> digest \<Rightarrow> holder option" where
  "pg_live db t d = (case lease_records db d of None \<Rightarrow> None | Some row \<Rightarrow> row_live t row)"

definition pg_fence :: "pg_tables \<Rightarrow> digest \<Rightarrow> nat" where
  "pg_fence db d = (case lease_fences db d of None \<Rightarrow> 0 | Some f \<Rightarrow> nat f)"

definition pg_invar :: "pg_tables \<Rightarrow> bool" where
  "pg_invar db \<longleftrightarrow>
     (\<forall>d f. lease_fences db d = Some f \<longrightarrow> 0 < f \<and> f \<le> max_bigint) \<and>
     (\<forall>d row. lease_records db d = Some row \<longrightarrow>
        row_check row \<and> (\<exists>f. lease_fences db d = Some f \<and> row_token row \<le> f))"

text \<open>
  What one call must satisfy. The clock readings lie between its begin and its end, and
  errors of the driver and the server are neither this program's sentinels nor
  \<^verbatim>\<open>pgx.ErrNoRows\<close>. The clock need not be monotone within the call.
\<close>

definition driver_error :: "gerror \<Rightarrow> bool" where
  "driver_error err \<longleftrightarrow> foreign_error err \<and> \<not> errors_Is err ErrNoRows"

definition pg_env_ok :: "pg_env \<Rightarrow> bool" where
  "pg_env_ok e \<longleftrightarrow> (\<forall>i. pg_begin e \<le> pg_clock e i \<and> pg_clock e i \<le> pg_end e) \<and>
     (case pg_fate e of Delivered \<Rightarrow> True | LostRequest err \<Rightarrow> driver_error err | LostReply err \<Rightarrow> driver_error err)"

definition pg_serial :: "pg_env \<Rightarrow> bool" where
  "pg_serial e \<longleftrightarrow> pg_env_ok e \<and> pg_snap e = None"

section \<open>The statements, case by case\<close>

lemma driver_errors [simp]: "driver_error check_violation" "driver_error invalid_text"
  by (simp_all add: driver_error_def check_violation_def invalid_text_def)

lemma next_fence_Some:
  assumes "pg_invar db" "next_fence d db = Some f"
  shows "0 < f" "f \<le> max_bigint" "pg_fence db d < nat f" "f < 2 ^ 63"
    "\<forall>g. lease_fences db d = Some g \<longrightarrow> g < f"
proof -
  have "0 < f \<and> f \<le> max_bigint \<and> (\<forall>g. lease_fences db d = Some g \<longrightarrow> 0 < g \<and> g < f)"
    using assms by (fastforce simp: next_fence_def pg_invar_def max_bigint_def split: option.splits if_splits)
  then show "0 < f" "f \<le> max_bigint" "f < 2 ^ 63" "\<forall>g. lease_fences db d = Some g \<longrightarrow> g < f"
    and "pg_fence db d < nat f"
    by (auto simp: max_bigint_def pg_fence_def split: option.splits)
qed

lemma acquireSQL_cases:
  assumes run: "acquireSQL clk snap d ow ms db = (res, db')"
  obtains (failed) err where "res = Inl err" "db' = db" "driver_error err"
  | (exhausted) "res = Inr (Some (0, clk 7, clk 8, acquire_outcome d snap))" "db' = db" "next_fence d db = None"
  | (burned) f row where "next_fence d db = Some f"
      "res = Inr (Some (0, clk 7, clk 8, acquire_outcome d snap))"
      "db' = db\<lparr>lease_fences := (lease_fences db)(d \<mapsto> f)\<rparr>"
      "lease_records db d = Some row" "row_active row" "clk 6 < row_expires_at row"
  | (installed) f row where "next_fence d db = Some f"
      "\<forall>old. lease_records db d = Some old \<longrightarrow> \<not> row_active old \<or> row_expires_at old \<le> clk 6"
      "row_check row" "row_owner row = ow" "row_token row = f" "row_active row"
      "res = Inr (Some (f, row_acquired_at row, row_expires_at row, ''ok''))"
      "db' = db\<lparr>lease_fences := (lease_fences db)(d \<mapsto> f), lease_records := (lease_records db)(d \<mapsto> row)\<rparr>"
      "\<exists>i. row_expires_at row = clk i + interval_ms ms" "\<exists>i. row_acquired_at row = clk i"
proof (cases "pg_text ow \<and> next_fence d db \<noteq> None")
  case False
  then show ?thesis
    using run failed [of invalid_text] exhausted by (cases "pg_text ow") (auto simp: acquireSQL_def)
next
  case True
  then obtain f where f: "next_fence d db = Some f" by auto
  let ?proposed = "\<lparr>row_owner = ow, row_token = f, row_acquired_at = clk 0,
    row_expires_at = clk 1 + interval_ms ms, row_active = True, row_updated_at = clk 2\<rparr>"
  let ?update = "\<lparr>row_owner = ow, row_token = f, row_acquired_at = clk 3,
    row_expires_at = clk 4 + interval_ms ms, row_active = True, row_updated_at = clk 5\<rparr>"
  show ?thesis
  proof (cases "row_check ?proposed")
    case False
    then show ?thesis using True f run by (intro failed [of check_violation]) (auto simp: acquireSQL_def)
  next
    case ok: True
    show ?thesis
    proof (cases "lease_records db d")
      case None
      then show ?thesis using True f run ok
        by (intro installed [of f ?proposed]) (auto simp: acquireSQL_def Let_def)
    next
      case (Some old)
      show ?thesis
      proof (cases "\<not> row_active old \<or> row_expires_at old \<le> clk 6")
        case vacant: True
        show ?thesis
        proof (cases "row_check ?update")
          case False
          then show ?thesis using True f run ok Some vacant
            by (intro failed [of check_violation]) (auto simp: acquireSQL_def Let_def)
        next
          case True': True
          then show ?thesis using True f run ok Some vacant
            by (intro installed [of f ?update]) (auto simp: acquireSQL_def Let_def)
        qed
      next
        case held: False
        then show ?thesis using True f run ok Some
          by (intro burned [of f old]) (auto simp: acquireSQL_def Let_def)
      qed
    qed
  qed
qed

lemma update_target_Some:
  "update_target p q d snap db = Some cur \<Longrightarrow> lease_records db d = Some cur \<and> (p cur \<or> q cur)"
  by (auto simp: update_target_def split: option.splits if_splits)

lemma update_target_serial:
  "update_target p q d db db = (case lease_records db d of None \<Rightarrow> None | Some cur \<Rightarrow> if p cur then Some cur else None)"
  by (simp add: update_target_def split: option.splits)

lemma renewSQL_cases:
  assumes run: "renewSQL clk snap d ow tok ms db = (res, db')"
  obtains (failed) err where "res = Inl err" "db' = db" "driver_error err"
  | (none) "res = Inr None" "db' = db"
      "update_target (owned_row ow tok (clk 2)) (owned_row ow tok (clk 3)) d snap db = None"
  | (renewed) row row1 i where "lease_records db d = Some row" "owned_row ow tok (clk i) row"
      "row_check row1" "row_owner row1 = ow" "row_token row1 = tok" "row_active row1"
      "res = Inr (Some (tok, row_acquired_at row1, row_expires_at row1))"
      "db' = db\<lparr>lease_records := (lease_records db)(d \<mapsto> row1)\<rparr>"
      "row_expires_at row1 = clk 0 + interval_ms ms" "row_acquired_at row1 = row_acquired_at row"
proof (cases "pg_text ow")
  case False
  then show ?thesis using run failed [of invalid_text] by (auto simp: renewSQL_def)
next
  case True
  show ?thesis
  proof (cases "update_target (owned_row ow tok (clk 2)) (owned_row ow tok (clk 3)) d snap db")
    case None
    then show ?thesis using True run none by (auto simp: renewSQL_def)
  next
    case (Some row)
    then have row: "lease_records db d = Some row" "owned_row ow tok (clk 2) row \<or> owned_row ow tok (clk 3) row"
      using update_target_Some by blast+
    let ?row1 = "row\<lparr>row_expires_at := clk 0 + interval_ms ms, row_updated_at := clk 1\<rparr>"
    show ?thesis
    proof (cases "row_check ?row1")
      case False
      then show ?thesis using True Some run failed [of check_violation] by (auto simp: renewSQL_def Let_def)
    next
      case ok: True
      from row(2) show ?thesis
        using True Some run row(1) ok renewed [of row 2 ?row1] renewed [of row 3 ?row1]
        by (auto simp: renewSQL_def Let_def owned_row_def)
    qed
  qed
qed

lemma releaseSQL_cases:
  assumes run: "releaseSQL clk snap d ow tok db = (res, db')"
  obtains (failed) err where "res = Inl err" "db' = db" "driver_error err"
  | (unchanged) out where "res = Inr (Some out)" "db' = db"
      "update_target (\<lambda>row. row_owner row = ow \<and> row_token row = tok \<and> row_active row)
         (\<lambda>row. row_owner row = ow \<and> row_token row = tok \<and> row_active row) d snap db = None"
  | (released) row where "lease_records db d = Some row"
      "row_owner row = ow" "row_token row = tok" "row_active row" "res = Inr (Some ''ok'')"
      "db' = db\<lparr>lease_records := (lease_records db)(d \<mapsto> row\<lparr>row_active := False, row_updated_at := clk 0\<rparr>)\<rparr>"
proof (cases "pg_text ow")
  case False
  then show ?thesis using run failed [of invalid_text] by (auto simp: releaseSQL_def)
next
  case True
  let ?held = "\<lambda>row. row_owner row = ow \<and> row_token row = tok \<and> row_active row"
  show ?thesis
  proof (cases "update_target ?held ?held d snap db")
    case None
    show ?thesis by (rule unchanged [OF _ _ None]) (use True None run in \<open>auto simp: releaseSQL_def Let_def\<close>)
  next
    case (Some row)
    then have "lease_records db d = Some row" "?held row" using update_target_Some by blast+
    with True Some run show ?thesis by (intro released [of row]) (auto simp: releaseSQL_def Let_def)
  qed
qed

section \<open>Every statement is a step of the abstract machine\<close>

definition pg_refines :: "pg_env \<Rightarrow> call \<Rightarrow> pg_tables \<Rightarrow> pg_tables \<Rightarrow> bool" where
  "pg_refines e c db db' \<longleftrightarrow> pg_invar db' \<and>
     spec_step (pg_instant (pg_begin e)) (pg_instant (pg_end e)) c
       (pg_fence db (pg_digest (call_key c)), \<lambda>t. pg_live db t (pg_digest (call_key c)))
       (pg_fence db' (pg_digest (call_key c)), \<lambda>t. pg_live db' t (pg_digest (call_key c))) \<and>
     (\<forall>i t. i \<noteq> pg_digest (call_key c) \<longrightarrow> pg_fence db' i = pg_fence db i \<and> pg_live db' t i = pg_live db t i)"

lemma pg_refines_refl: "pg_invar db \<Longrightarrow> pg_refines e c db db"
  by (simp add: pg_refines_def spec_step.unchanged)

lemma pg_clock_bounds:
  assumes "pg_env_ok e"
  shows "pg_begin e \<le> pg_clock e i" "pg_clock e i \<le> pg_end e"
  using assms by (simp_all add: pg_env_ok_def)

lemma unat_token: "0 < f \<Longrightarrow> f < 2 ^ 63 \<Longrightarrow> unat (word_of_int f :: Token) = nat f"
  by (simp add: unsigned_of_int take_bit_int_eq_self nat_less_iff)

lemma sint_token: "0 < f \<Longrightarrow> f < 2 ^ 63 \<Longrightarrow> sint (word_of_int f :: Token) = f"
  using signed_take_bit64_id [of f] by (simp add: signed_of_int)

lemma invarD:
  assumes "pg_invar db" "lease_records db d = Some row"
  shows "row_check row" "0 < row_token row" "row_token row < 2 ^ 63" "nat (row_token row) \<le> pg_fence db d"
proof -
  obtain f where "row_check row" "lease_fences db d = Some f" "row_token row \<le> f" "f \<le> max_bigint"
    using assms unfolding pg_invar_def by blast
  then show "row_check row" "0 < row_token row" "row_token row < 2 ^ 63" "nat (row_token row) \<le> pg_fence db d"
    by (auto simp: row_check_def max_bigint_def pg_fence_def)
qed

lemma row_live_holder: "row_live t row = None \<or> row_live t row = Some (row_owner row, word_of_int (row_token row))"
  by (simp add: row_live_def)

lemma acquireSQL_refines:
  assumes ok: "pg_env_ok e" and inv: "pg_invar db"
    and run: "acquireSQL (pg_clock e) snap (pg_digest k) ow ms db = (res, db')"
  shows "pg_refines e (CallAcquire k ow ttl) db db'"
  using run
proof (cases rule: acquireSQL_cases)
  case (burned f row)
  note f = next_fence_Some [OF inv burned(1)]
  have "pg_invar db'"
    using inv burned(3) f(1,2,5) by (auto simp: pg_invar_def) (metis order.strict_implies_order order.trans)+
  then show ?thesis
    using burned(3) f(3) by (auto simp: pg_refines_def pg_live_def pg_fence_def intro!: spec_step.burn)
next
  case (installed f row)
  note f = next_fence_Some [OF inv installed(1)]
  have "pg_invar db'"
    using inv installed(3,5,8) f(1,2,5) by (auto simp: pg_invar_def)
  moreover have "spec_step (pg_instant (pg_begin e)) (pg_instant (pg_end e)) (CallAcquire k ow ttl)
      (pg_fence db (pg_digest k), \<lambda>t. pg_live db t (pg_digest k))
      (unat (word_of_int f :: Token), \<lambda>t. pg_live db' t (pg_digest k))"
  proof (rule spec_step.install)
    show "pg_live db (pg_instant (pg_end e)) (pg_digest k) = None"
      using installed(2) pg_clock_bounds(2) [OF ok, of 6]
      by (auto simp: pg_live_def row_live_def pg_instant_def split: option.splits)
    show "pg_fence db (pg_digest k) < unat (word_of_int f :: Token)" using unat_token [OF f(1,4)] f(3) by simp
    show "only_holder (ow, word_of_int f) (\<lambda>t. pg_live db' t (pg_digest k))"
      using installed(4,5,8) by (auto simp: only_holder_def pg_live_def row_live_def)
  qed
  ultimately show ?thesis
    using installed(8) unat_token [OF f(1,4)] by (simp add: pg_refines_def pg_fence_def pg_live_def)
qed (use inv pg_refines_refl in auto)

lemma renewSQL_refines:
  assumes ok: "pg_env_ok e" and inv: "pg_invar db"
    and run: "renewSQL (pg_clock e) snap (pg_digest (rec_Key r)) (rec_Owner r) (sint (rec_Token r)) ms db = (res, db')"
  shows "pg_refines e (CallRenew r ttl) db db'"
  using run
proof (cases rule: renewSQL_cases)
  case (renewed row row1 i)
  obtain f where f: "lease_fences db (pg_digest (rec_Key r)) = Some f" "row_token row \<le> f"
    using inv renewed(1) unfolding pg_invar_def by blast
  have same: "row_owner row = rec_Owner r" "row_token row = sint (rec_Token r)" "row_active row"
    "pg_clock e i < row_expires_at row"
    using renewed(2) by (simp_all add: owned_row_def)
  have "pg_invar db'"
    using inv renewed(3,5,8) f same(2) by (auto simp: pg_invar_def)
  moreover have "spec_step (pg_instant (pg_begin e)) (pg_instant (pg_end e)) (CallRenew r ttl)
      (pg_fence db (pg_digest (rec_Key r)), \<lambda>t. pg_live db t (pg_digest (rec_Key r)))
      (pg_fence db (pg_digest (rec_Key r)), \<lambda>t. pg_live db' t (pg_digest (rec_Key r)))"
    using renewed(1,4,5,8) same pg_clock_bounds(1) [OF ok, of i]
    by (intro spec_step.extend) (auto simp: only_holder_def pg_live_def row_live_def pg_instant_def)
  ultimately show ?thesis
    using renewed(8) by (simp add: pg_refines_def pg_fence_def pg_live_def)
qed (use inv pg_refines_refl in auto)

lemma releaseSQL_refines:
  assumes ok: "pg_env_ok e" and inv: "pg_invar db"
    and run: "releaseSQL (pg_clock e) snap (pg_digest (rec_Key r)) (rec_Owner r) (sint (rec_Token r)) db = (res, db')"
  shows "pg_refines e (CallRelease r) db db'"
  using run
proof (cases rule: releaseSQL_cases)
  case (released row)
  let ?row1 = "row\<lparr>row_active := False, row_updated_at := pg_clock e 0\<rparr>"
  have "row_check ?row1 = row_check row" by (simp add: row_check_def)
  then have "pg_invar db'" using inv released(1,6) by (auto simp: pg_invar_def)
  moreover have "spec_step (pg_instant (pg_begin e)) (pg_instant (pg_end e)) (CallRelease r)
      (pg_fence db (pg_digest (rec_Key r)), \<lambda>t. pg_live db t (pg_digest (rec_Key r)))
      (pg_fence db (pg_digest (rec_Key r)), \<lambda>_. None)"
    using released(1-3) by (intro spec_step.vacate) (auto simp: only_holder_def pg_live_def row_live_def)
  ultimately show ?thesis
    using released(6) by (simp add: pg_refines_def pg_fence_def pg_live_def row_live_def)
qed (use inv pg_refines_refl in auto)

lemma query_row_tables: "query_row e stmt db = (res, db') \<Longrightarrow> db' = db \<or> db' = snd (stmt db)"
  by (auto simp: query_row_def split: fate.splits prod.splits sum.splits option.splits)

lemma pg_call_refines:
  assumes ok: "pg_env_ok e" and inv: "pg_invar db" and call: "backend_call pg_backend e c db = (rep, db')"
  shows "pg_refines e c db db'"
proof (cases c)
  case (CallAcquire k ow ttl)
  let ?stmt = "acquireSQL (pg_clock e) (snapshot e db) (pg_digest k) ow (duration_Milliseconds ttl)"
  have "db' = db \<or> db' = snd (?stmt db)"
    using call query_row_tables [of e ?stmt db] unfolding CallAcquire
    by (auto simp: pg_TryAcquire_def split: option.splits prod.splits sum.splits)
  then show ?thesis
    using acquireSQL_refines [OF ok inv surjective_pairing] pg_refines_refl [OF inv] unfolding CallAcquire by metis
next
  case (CallRenew r ttl)
  let ?stmt = "renewSQL (pg_clock e) (snapshot e db) (pg_digest (rec_Key r)) (rec_Owner r)
    (sint (rec_Token r)) (duration_Milliseconds ttl)"
  have "db' = db \<or> db' = snd (?stmt db)"
    using call query_row_tables [of e ?stmt db] unfolding CallRenew
    by (auto simp: pg_Renew_def split: option.splits prod.splits)
  then show ?thesis
    using renewSQL_refines [OF ok inv surjective_pairing] pg_refines_refl [OF inv] unfolding CallRenew by metis
next
  case (CallValidate r)
  have "db' = db"
    using call query_row_tables [of e "\<lambda>db. (validateSQL (pg_clock e) (snapshot e db) (pg_digest (rec_Key r))
        (rec_Owner r) (sint (rec_Token r)), db)" db] unfolding CallValidate
    by (auto simp: pg_Validate_def split: option.splits prod.splits)
  with inv show ?thesis by (simp add: pg_refines_refl)
next
  case (CallRelease r)
  let ?stmt = "releaseSQL (pg_clock e) (snapshot e db) (pg_digest (rec_Key r)) (rec_Owner r) (sint (rec_Token r))"
  have "db' = db \<or> db' = snd (?stmt db)"
    using call query_row_tables [of e ?stmt db] unfolding CallRelease
    by (auto simp: pg_Release_def split: option.splits prod.splits sum.splits)
  then show ?thesis
    using releaseSQL_refines [OF ok inv surjective_pairing] pg_refines_refl [OF inv] unfolding CallRelease by metis
qed

section \<open>What the replies say\<close>

lemma pg_classify_ambiguous [simp]: "errors_Is (pg_classify ctx err True) (Sentinel ErrAmbiguousOutcome)"
  by (simp add: pg_classify_def)

lemma pg_classify_not:
  "driver_error err \<Longrightarrow> errors_Is (pg_classify ctx err amb) (Sentinel x) \<Longrightarrow>
   x = ErrAmbiguousOutcome \<or> x = ErrCanceled \<or> x = ErrBackendUnavailable"
  by (auto simp: pg_classify_def driver_error_def foreign_error_def split: if_splits)

lemma pg_validate_class:
  "pg_validate ctx k ow tok ttl = Some err \<Longrightarrow>
   errors_Is err (Sentinel x) \<longleftrightarrow> x = (if ctx = None then ErrInvalidState else ErrCanceled)"
  by (auto simp: pg_validate_def split: option.splits if_splits)

lemma pg_validate_token:
  "pg_validate ctx k ow tok ttl = None \<Longrightarrow> 0 < sint tok \<and> word_of_int (sint tok) = tok"
proof -
  assume "pg_validate ctx k ow tok ttl = None"
  then have "tok \<noteq> 0" "tok \<le> 9223372036854775807"
    by (auto simp: pg_validate_def not_less split: option.splits if_splits)
  then have "uint tok \<le> 9223372036854775807" "uint tok \<noteq> 0"
    by (simp_all add: word_le_def unsigned_eq_0_iff)
  then have "uint tok < 2 ^ 63" "0 < uint tok" using uint_ge_0 [of tok] by (simp, linarith)
  moreover have "sint tok = signed_take_bit 63 (uint tok)" by (simp add: sint_uint)
  ultimately have "sint tok = uint tok" using signed_take_bit64_id [of "uint tok"] by simp
  with \<open>0 < uint tok\<close> show ?thesis by simp
qed

text \<open>One delivered statement, and what it was if the caller got no error.\<close>

lemma query_row_Inr:
  "query_row e stmt db = (Inr row, db') \<longleftrightarrow> pg_fate e = Delivered \<and> stmt db = (Inr (Some row), db')"
  by (auto simp: query_row_def split: fate.splits prod.splits sum.splits option.splits)

lemma query_row_Inl:
  assumes "query_row e stmt db = (Inl err, db')" and "pg_env_ok e"
    and "\<And>err' db''. stmt db = (Inl err', db'') \<Longrightarrow> driver_error err'"
  shows "driver_error err \<or> pg_fate e = Delivered \<and> err = ErrNoRows \<and> stmt db = (Inr None, db')"
  using assms by (auto simp: query_row_def pg_env_ok_def split: fate.splits prod.splits sum.splits option.splits)

lemma acquireSQL_driver_error:
  "acquireSQL clk snap d ow ms db = (Inl err, db') \<Longrightarrow> driver_error err \<and> db' = db"
  by (erule acquireSQL_cases) auto

lemma acquireSQL_row: "acquireSQL clk snap d ow ms db \<noteq> (Inr None, db')"
  by (rule notI) (erule acquireSQL_cases, auto)

lemma pg_acquire_got:
  assumes ok: "pg_env_ok e" and inv: "pg_invar db" and run: "pg_TryAcquire e k ow ttl db = (Inr r, db')"
  shows "rec_Key r = k \<and> rec_Owner r = ow \<and> rec_AcquiredAt r < rec_ExpiresAt r \<and>
    pg_fence db (pg_digest k) < unat (rec_Token r) \<and> pg_fence db' (pg_digest k) = unat (rec_Token r) \<and>
    pg_live db (pg_instant (pg_end e)) (pg_digest k) = None \<and>
    (\<forall>t < rec_ExpiresAt r. pg_live db' t (pg_digest k) = Some (ow, rec_Token r))"
proof -
  obtain tok a x where stmt: "acquireSQL (pg_clock e) (snapshot e db) (pg_digest k) ow (duration_Milliseconds ttl) db =
      (Inr (Some (tok, a, x, ''ok'')), db')"
    and r: "recordFromValues k ow tok a x = Inr r"
    using run by (auto simp: pg_TryAcquire_def query_row_Inr
        split: option.splits prod.splits sum.splits if_splits)
  from stmt show ?thesis
  proof (cases rule: acquireSQL_cases)
    case (installed f row)
    note f = next_fence_Some [OF inv installed(1)]
    have "tok = f" "a = row_acquired_at row" "x = row_expires_at row" using installed(7) by simp_all
    moreover have "pg_live db (pg_instant (pg_end e)) (pg_digest k) = None"
      using installed(2) pg_clock_bounds(2) [OF ok, of 6]
      by (auto simp: pg_live_def row_live_def pg_instant_def split: option.splits)
    ultimately show ?thesis
      using r installed(4,5,6,8) f(3) unat_token [OF f(1,4)]
      by (auto simp: recordFromValues_def pg_instant_def pg_fence_def pg_live_def row_live_def split: if_splits)
  qed (auto simp: acquire_outcome_def split: option.splits if_splits)
qed

lemma pg_acquire_failed:
  assumes ok: "pg_env_ok e" and inv: "pg_invar db" and run: "pg_TryAcquire e k ow ttl db = (Inl err, db')"
    and "\<not> errors_Is err (Sentinel ErrAmbiguousOutcome)"
  shows "pg_live db' t i = pg_live db t i"
proof (cases "pg_validate (pg_ctx e) k ow 1 ttl")
  case (Some err')
  with run show ?thesis by (simp add: pg_TryAcquire_def)
next
  case None
  obtain tok a x out where stmt: "acquireSQL (pg_clock e) (snapshot e db) (pg_digest k) ow (duration_Milliseconds ttl) db =
      (Inr (Some (tok, a, x, out)), db')" and "out \<noteq> ''ok''"
    using run None assms(4) by (auto simp: pg_TryAcquire_def query_row_Inr
        split: prod.splits sum.splits if_splits)
  then show ?thesis by (cases rule: acquireSQL_cases) (auto simp: pg_live_def)
qed

lemma pg_acquire_contended:
  assumes serial: "pg_serial e" and inv: "pg_invar db" and run: "pg_TryAcquire e k ow ttl db = (Inl err, db')"
    and err: "errors_Is err (Sentinel ErrContended)"
  shows "pg_live db (pg_instant (pg_begin e)) (pg_digest k) \<noteq> None"
proof (cases "pg_validate (pg_ctx e) k ow 1 ttl")
  case (Some err')
  with run err pg_validate_class [OF Some] show ?thesis by (simp add: pg_TryAcquire_def split: if_splits)
next
  case None
  let ?stmt = "acquireSQL (pg_clock e) db (pg_digest k) ow (duration_Milliseconds ttl)"
  have ok: "pg_env_ok e" and snap: "snapshot e db = db" using serial by (simp_all add: pg_serial_def snapshot_def)
  obtain q db1 where q: "query_row e ?stmt db = (q, db1)" by fastforce
  show ?thesis
  proof (cases q)
    case (Inl err')
    then have "err = pg_classify (pg_ctx_after e) err' True" using run None q snap by (simp add: pg_TryAcquire_def)
    moreover have "driver_error err'"
      using query_row_Inl [OF q [unfolded Inl] ok] acquireSQL_driver_error acquireSQL_row by blast
    ultimately show ?thesis using err by (auto dest: pg_classify_not)
  next
    case (Inr row)
    then obtain tok a x where "?stmt db = (Inr (Some (tok, a, x, ''contended'')), db')"
      using run None q snap err
      by (cases row) (auto simp: pg_TryAcquire_def query_row_Inr recordFromValues_def pg_classify_def
          split: if_splits sum.splits)
    then show ?thesis
    proof (cases rule: acquireSQL_cases)
      case exhausted
      then show ?thesis by (auto simp: next_fence_def acquire_outcome_def split: option.splits if_splits)
    next
      case (burned f row')
      then show ?thesis using pg_clock_bounds(1) [OF ok, of 6]
        by (auto simp: pg_live_def row_live_def pg_instant_def)
    qed auto
  qed
qed

lemma pg_live_iff:
  assumes "pg_invar db"
  shows "pg_live db t d = Some (ow, tok) \<longleftrightarrow> (\<exists>row. lease_records db d = Some row \<and> row_active row \<and>
    t < pg_instant (row_expires_at row) \<and> row_owner row = ow \<and> row_token row = sint tok)"
  using sint_token [OF invarD(2,3) [OF assms]]
  by (auto simp: pg_live_def row_live_def split: option.splits)

lemma scanRecord_Inr:
  "scanRecord k ow row = Inr r \<longleftrightarrow> (\<exists>tok a x. row = Inr (tok, a, x) \<and> 0 < tok \<and> a < x \<and>
     r = \<lparr>rec_Key = k, rec_Owner = ow, rec_Token = word_of_int tok,
       rec_AcquiredAt = pg_instant a, rec_ExpiresAt = pg_instant x\<rparr>)"
  by (auto simp: scanRecord_def recordFromValues_def split: sum.splits prod.splits)

lemma scanRecord_Inl:
  "scanRecord k ow row = Inl err \<Longrightarrow> row = Inl err \<or>
     (\<exists>v. row = Inr v) \<and> err = Wrap (Sentinel ErrBackendUnavailable) ''postgres response''"
  by (auto simp: scanRecord_def recordFromValues_def split: sum.splits prod.splits if_splits)

lemma pg_renew_got:
  assumes ok: "pg_env_ok e" and inv: "pg_invar db" and run: "pg_Renew e r ttl db = (Inr r', db')"
  shows "pg_live db (pg_instant (pg_begin e)) (pg_digest (rec_Key r)) = Some (rec_Owner r, rec_Token r) \<and>
    rec_Key r' = rec_Key r \<and> rec_Owner r' = rec_Owner r \<and> rec_Token r' = rec_Token r \<and>
    (\<forall>t < rec_ExpiresAt r'. pg_live db' t (pg_digest (rec_Key r)) = Some (rec_Owner r, rec_Token r))"
proof -
  let ?stmt = "renewSQL (pg_clock e) (snapshot e db) (pg_digest (rec_Key r)) (rec_Owner r)
    (sint (rec_Token r)) (duration_Milliseconds ttl)"
  have valid: "pg_validate (pg_ctx e) (rec_Key r) (rec_Owner r) (rec_Token r) ttl = None"
    using run by (auto simp: pg_Renew_def split: option.splits)
  note tok = pg_validate_token [OF valid]
  obtain t a x where stmt: "?stmt db = (Inr (Some (t, a, x)), db')" and r': "r' = \<lparr>rec_Key = rec_Key r,
      rec_Owner = rec_Owner r, rec_Token = word_of_int t, rec_AcquiredAt = pg_instant a, rec_ExpiresAt = pg_instant x\<rparr>"
    "rec_Token r' = rec_Token r"
    using run valid by (auto simp: pg_Renew_def query_row_Inr scanRecord_Inr split: prod.splits sum.splits if_splits)
  from stmt show ?thesis
  proof (cases rule: renewSQL_cases)
    case (renewed row row1 i)
    then show ?thesis
      using r' tok pg_clock_bounds(1) [OF ok, of i]
      by (auto simp: pg_live_def row_live_def pg_instant_def owned_row_def)
  qed auto
qed

lemma renewSQL_driver_error: "renewSQL clk snap d ow tok ms db = (Inl err, db') \<Longrightarrow> driver_error err"
  by (erule renewSQL_cases) auto

lemma pg_renew_stale:
  assumes serial: "pg_serial e" and inv: "pg_invar db" and run: "pg_Renew e r ttl db = (Inl err, db')"
    and err: "errors_Is err (Sentinel ErrStaleOwner)"
  shows "pg_live db (pg_instant (pg_end e)) (pg_digest (rec_Key r)) \<noteq> Some (rec_Owner r, rec_Token r)"
proof (cases "pg_validate (pg_ctx e) (rec_Key r) (rec_Owner r) (rec_Token r) ttl")
  case (Some err')
  with run err pg_validate_class [OF Some] show ?thesis by (simp add: pg_Renew_def split: if_splits)
next
  case None
  let ?stmt = "renewSQL (pg_clock e) db (pg_digest (rec_Key r)) (rec_Owner r) (sint (rec_Token r)) (duration_Milliseconds ttl)"
  have ok: "pg_env_ok e" and snap: "snapshot e db = db" using serial by (simp_all add: pg_serial_def snapshot_def)
  obtain q db1 where q: "query_row e ?stmt db = (q, db1)" by fastforce
  have res: "Inl err = (case scanRecord (rec_Key r) (rec_Owner r) q of
      Inl err \<Rightarrow> if errors_Is err ErrNoRows then Inl (Wrap (Sentinel ErrStaleOwner) ''postgres renew'')
        else Inl (pg_classify (pg_ctx_after e) err True)
    | Inr record0 \<Rightarrow> if rec_Token record0 \<noteq> rec_Token r
        then Inl (Wrap (Sentinel ErrAmbiguousOutcome) ''postgres renew response'') else Inr record0)"
    using run None q snap by (simp add: pg_Renew_def)
  then obtain err1 where scan: "scanRecord (rec_Key r) (rec_Owner r) q = Inl err1"
    using err by (auto split: sum.splits if_splits)
  have "\<not> driver_error err1 \<and> err1 \<noteq> Wrap (Sentinel ErrBackendUnavailable) ''postgres response''"
    using res scan err pg_classify_not [of err1 "pg_ctx_after e" True ErrStaleOwner]
    by (auto simp: driver_error_def pg_classify_def Wrap_def failure_Wrap_def split: if_splits)
  then have "q = Inl err1" "\<not> driver_error err1" using scanRecord_Inl [OF scan] by auto
  then have "?stmt db = (Inr None, db1)"
    using query_row_Inl [OF q [unfolded \<open>q = Inl err1\<close>] ok] renewSQL_driver_error by blast
  then show ?thesis
  proof (cases rule: renewSQL_cases)
    case none
    then show ?thesis
      using pg_clock_bounds(2) [OF ok, of 2]
      by (auto simp: update_target_serial pg_live_iff [OF inv] owned_row_def pg_instant_def
          split: option.splits if_splits)
  qed auto
qed

lemma pg_validate_got:
  assumes serial: "pg_serial e" and inv: "pg_invar db" and run: "pg_Validate e r db = (Inr r', db')"
  shows "pg_live db (pg_instant (pg_begin e)) (pg_digest (rec_Key r)) = Some (rec_Owner r, rec_Token r) \<and>
    rec_Key r' = rec_Key r \<and> rec_Owner r' = rec_Owner r \<and> rec_Token r' = rec_Token r"
proof -
  have ok: "pg_env_ok e" and snap: "snapshot e db = db" using serial by (simp_all add: pg_serial_def snapshot_def)
  obtain v where "validateSQL (pg_clock e) db (pg_digest (rec_Key r)) (rec_Owner r) (sint (rec_Token r)) = Inr (Some v)"
    and r': "rec_Key r' = rec_Key r" "rec_Owner r' = rec_Owner r" "rec_Token r' = rec_Token r"
    using run snap by (auto simp: pg_Validate_def query_row_Inr scanRecord_Inr
        split: option.splits prod.splits sum.splits if_splits)
  then show ?thesis
    using pg_clock_bounds(1) [OF ok, of 0]
    by (auto simp: validateSQL_def pg_live_iff [OF inv] owned_row_def pg_instant_def split: option.splits if_splits)
qed

lemma pg_validate_stale:
  assumes serial: "pg_serial e" and inv: "pg_invar db" and run: "pg_Validate e r db = (Inl err, db')"
    and err: "errors_Is err (Sentinel ErrStaleOwner)"
  shows "pg_live db (pg_instant (pg_end e)) (pg_digest (rec_Key r)) \<noteq> Some (rec_Owner r, rec_Token r)"
proof (cases "pg_validate (pg_ctx e) (rec_Key r) (rec_Owner r) (rec_Token r) 1000000")
  case (Some err')
  with run err pg_validate_class [OF Some] show ?thesis by (simp add: pg_Validate_def split: if_splits)
next
  case None
  let ?query = "validateSQL (pg_clock e) db (pg_digest (rec_Key r)) (rec_Owner r) (sint (rec_Token r))"
  have ok: "pg_env_ok e" and snap: "\<And>db. snapshot e db = db" using serial by (simp_all add: pg_serial_def snapshot_def)
  let ?stmt = "\<lambda>db. (validateSQL (pg_clock e) db (pg_digest (rec_Key r)) (rec_Owner r) (sint (rec_Token r)), db)"
  obtain q db1 where q: "query_row e ?stmt db = (q, db1)" by fastforce
  have res: "Inl err = (case scanRecord (rec_Key r) (rec_Owner r) q of
      Inl err \<Rightarrow> if errors_Is err ErrNoRows then Inl (Wrap (Sentinel ErrStaleOwner) ''postgres validate'')
        else Inl (pg_classify (pg_ctx_after e) err False)
    | Inr record0 \<Rightarrow> if rec_Token record0 \<noteq> rec_Token r
        then Inl (Wrap (Sentinel ErrBackendUnavailable) ''postgres validate response'') else Inr record0)"
    using run None q snap by (simp add: pg_Validate_def)
  then obtain err1 where scan: "scanRecord (rec_Key r) (rec_Owner r) q = Inl err1"
    using err by (auto split: sum.splits if_splits)
  have "\<not> driver_error err1 \<and> err1 \<noteq> Wrap (Sentinel ErrBackendUnavailable) ''postgres response''"
    using res scan err pg_classify_not [of err1 "pg_ctx_after e" False ErrStaleOwner]
    by (auto simp: driver_error_def pg_classify_def Wrap_def failure_Wrap_def split: if_splits)
  then have "q = Inl err1" "\<not> driver_error err1" using scanRecord_Inl [OF scan] by auto
  moreover have "driver_error err'" if "?stmt db = (Inl err', db'')" for err' db''
    using that by (auto simp: validateSQL_def split: option.splits if_splits)
  ultimately have "?query = Inr None"
    using query_row_Inl [OF q [unfolded \<open>q = Inl err1\<close>] ok] by blast
  then show ?thesis
    using pg_clock_bounds(2) [OF ok, of 0]
    by (auto simp: validateSQL_def pg_live_iff [OF inv] owned_row_def pg_instant_def split: option.splits if_splits)
qed

lemma pg_release_done:
  assumes serial: "pg_serial e" and inv: "pg_invar db" and run: "pg_Release e r db = (None, db')"
  shows "pg_live db' t (pg_digest (rec_Key r)) \<noteq> Some (rec_Owner r, rec_Token r)"
proof -
  have snap: "snapshot e db = db" using serial by (simp add: pg_serial_def snapshot_def)
  have inv': "pg_invar db'"
    using pg_call_refines [of e db "CallRelease r" Done db'] serial inv run by (simp add: pg_refines_def pg_serial_def)
  obtain out where stmt: "releaseSQL (pg_clock e) db (pg_digest (rec_Key r)) (rec_Owner r) (sint (rec_Token r)) db =
      (Inr (Some out), db')" and out: "out = ''ok'' \<or> out = ''idempotent''"
    using run snap by (auto simp: pg_Release_def query_row_Inr split: option.splits prod.splits sum.splits if_splits)
  from stmt show ?thesis
  proof (cases rule: releaseSQL_cases)
    case (unchanged out)
    then show ?thesis
      by (auto simp: update_target_serial pg_live_iff [OF inv] split: option.splits if_splits)
  next
    case (released row)
    then show ?thesis by (simp add: pg_live_def row_live_def)
  qed simp
qed

section \<open>Interpretations\<close>

text \<open>
  Overlapping statements: whatever snapshots they read, the tables obey the safety
  contract. Statements that do not overlap obey the full one.
\<close>

interpretation pgs: lease_safety pg_backend pg_invar pg_digest pg_live pg_fence
  "\<lambda>e. pg_instant (pg_begin e)" "\<lambda>e. pg_instant (pg_end e)" pg_env_ok
proof (unfold_locales, goal_cases)
  case (1 e)
  then show ?case using pg_clock_bounds [OF 1, of 0] by (simp add: pg_instant_def)
next
  case (2 e s c rep s')
  then show ?case using pg_call_refines by (simp add: pg_refines_def)
next
  case (3 e s c rep s')
  then show ?case using pg_call_refines by (simp add: pg_refines_def)
next
  case (4 e s c rep s' i t)
  then show ?case using pg_call_refines by (simp add: pg_refines_def)
next
  case (5 s t i ow tok)
  then obtain row where "lease_records s i = Some row" "tok = word_of_int (row_token row)"
    by (auto simp: pg_live_def row_live_def split: option.splits if_splits)
  then show ?case using invarD [OF 5(1)] unat_token by metis
next
  case (6 s t' i h t)
  then show ?case by (auto simp: pg_live_def row_live_def split: option.splits if_splits)
next
  case (7 e s k ow ttl r s')
  then show ?case using pg_acquire_got by (simp add: map_prod_eq)
next
  case (8 e s k ow ttl err s' t i)
  then show ?case using pg_acquire_failed by (simp add: map_prod_eq)
next
  case (9 e s r ttl r' s')
  then show ?case using pg_renew_got by (simp add: map_prod_eq)
qed

lemma pg_serial_ok: "pg_serial e \<Longrightarrow> pg_env_ok e"
  by (simp add: pg_serial_def)

interpretation pg: lease_backend pg_backend pg_invar pg_digest pg_live pg_fence
  "\<lambda>e. pg_instant (pg_begin e)" "\<lambda>e. pg_instant (pg_end e)" pg_serial
proof (unfold_locales, goal_cases)
  case (1 e)
  then show ?case using pgs.begins_ends pg_serial_ok by blast
next
  case (2 e s c rep s')
  then show ?case using pgs.invar_call pg_serial_ok by blast
next
  case (3 e s c rep s')
  then show ?case using pgs.simulates pg_serial_ok by blast
next
  case (4 e s c rep s' i t)
  then show ?case using pgs.frame pg_serial_ok by blast
next
  case (5 s t i ow tok)
  then show ?case by (rule pgs.live_fence)
next
  case (6 s t' i h t)
  then show ?case by (rule pgs.live_expires)
next
  case (7 e s k ow ttl r s')
  then show ?case using pgs.acquire_got pg_serial_ok by blast
next
  case (8 e s k ow ttl err s' t i)
  then show ?case using pgs.acquire_failed pg_serial_ok by blast
next
  case (9 e s r ttl r' s')
  then show ?case using pgs.renew_got pg_serial_ok by blast
next
  case (10 e s k ow ttl err s')
  then show ?case using pg_acquire_contended by (simp add: map_prod_eq)
next
  case (11 e s r r' s')
  then show ?case using pg_validate_got by (simp add: map_prod_eq)
next
  case (12 e s c err s' r ttl)
  then show ?case using pg_renew_stale pg_validate_stale by (auto simp: map_prod_eq)
next
  case (13 e s r s' t)
  then show ?case using pg_release_done by (simp add: map_prod_eq)
qed

section \<open>Schema\<close>

text \<open>
  \<^verbatim>\<open>postgres/migration.go\<close>: the DDL value. The checks of its columns are what \<open>row_check\<close> and
  the invariant of the tables state; the migration library's constructor is an argument.
\<close>

record Migration =
  mig_Version :: nat
  mig_Name :: string
  mig_Up :: string
  mig_Down :: string

definition SchemaMigration :: Migration where
  "SchemaMigration = \<lparr>mig_Version = 1, mig_Name = ''create_fenced_leases'',
     mig_Up = join_lines [
       ''CREATE TABLE lease_fences ('',
       ''    key_digest bytea PRIMARY KEY,'',
       ''    fencing_token bigint NOT NULL CHECK (fencing_token > 0)'',
       '');'',
       ''CREATE TABLE lease_records ('',
       ''    key_digest bytea PRIMARY KEY REFERENCES lease_fences (key_digest),'',
       ''    owner text NOT NULL CHECK (octet_length(owner) BETWEEN 1 AND 128),'',
       ''    fencing_token bigint NOT NULL CHECK (fencing_token > 0),'',
       ''    acquired_at timestamptz NOT NULL,'',
       ''    expires_at timestamptz NOT NULL,'',
       ''    active boolean NOT NULL,'',
       ''    updated_at timestamptz NOT NULL,'',
       ''    CHECK (expires_at > acquired_at)'',
       '');'',
       ''CREATE INDEX lease_records_expiry_idx'',
       ''    ON lease_records (expires_at) WHERE active;'',
       ''CREATE INDEX lease_records_cleanup_idx'',
       ''    ON lease_records (updated_at) WHERE NOT active;''],
     mig_Down = join_lines [
       ''DROP TABLE lease_records;'',
       ''DROP TABLE lease_fences;'']\<rparr>"

datatype transaction_mode = TransactionModeDefault

definition GoMigration :: "(nat \<Rightarrow> string \<Rightarrow> transaction_mode \<Rightarrow> string \<Rightarrow> string \<Rightarrow> 'm result) \<Rightarrow> 'm result" where
  "GoMigration NewMigration =
     (let migration = SchemaMigration
      in NewMigration (mig_Version migration) (mig_Name migration) TransactionModeDefault (mig_Up migration) (mig_Down migration))"

end
