(* ===== verification/Postgres_Safety.thy ===== *)
theory Postgres_Safety
  imports Postgres_Store
begin

text \<open>
  What the PostgreSQL store guarantees: the consequences of the safety contract for
  overlapping statements, idempotent release for statements that do not overlap, progress
  on a vacant key, and cleanup that keeps every fence.
\<close>

section \<open>Overlapping statements\<close>

text \<open>
  C12: Fences of the PostgreSQL store. Whatever snapshots overlapping statements read,
  however the server's clock moves and whichever replies are lost, the tokens handed out
  for one key digest are strictly increasing and above the retained fence.
\<close>

theorem pg_fences_increase:
  assumes "pg_invar db" and "\<forall>(e, c) \<in> set cs. pg_env_ok e"
  shows "sorted_wrt (<) (pg_fence db d #
    acquired_tokens (\<lambda>k. pg_digest k = d) (fst (backend_run pg_backend cs db)))"
  by (rule pgs.run_tokens_increase [OF surjective_pairing assms])

text \<open>
  C13: Successor protection in the PostgreSQL store. After an acquisition, and any further
  statements with any snapshots, a record of the same digest with an older fence is not
  renewed, and releasing it changes no holder and no fence.
\<close>

theorem pg_successor_protected:
  assumes "pg_invar db" and "pg_env_ok e1" and "pg_TryAcquire e1 k ow ttl db = (Inr r2, db1)"
    and "backend_run pg_backend cs db1 = (tr, db2)" and "\<forall>(e, c) \<in> set cs. pg_env_ok e"
    and "pg_digest (rec_Key r1) = pg_digest k" and "unat (rec_Token r1) < unat (rec_Token r2)"
    and "pg_env_ok e"
  shows "fst (pg_Renew e r1 ttl' db2) \<noteq> Inr r' \<and>
    pg_live (snd (pg_Release e r1 db2)) t i = pg_live db2 t i \<and>
    pg_fence (snd (pg_Release e r1 db2)) i = pg_fence db2 i"
proof -
  have got: "backend_call pg_backend e1 (CallAcquire k ow ttl) db = (Got r2, db1)" using assms(3) by simp
  show ?thesis using pgs.successor_kept [OF assms(2,1) got assms(4-8)] by simp
qed

text \<open>
  Exclusion in the PostgreSQL store. While the server's clock stays before the expiry
  of an acquired lease and its holder neither renews nor releases it, no acquisition of
  its digest succeeds, whatever the overlapping statements are.
\<close>

theorem pg_exclusive:
  assumes "pg_invar db" and "pg_env_ok e1" and "pg_TryAcquire e1 k ow ttl db = (Inr r, db1)"
    and "backend_run pg_backend cs db1 = (tr, db2)" and "\<forall>(e, c) \<in> set cs. pg_env_ok e"
    and "\<forall>(e, c, rep) \<in> set tr. pg_instant (pg_end e) < rec_ExpiresAt r \<and>
      \<not> (call_by (ow, rec_Token r) c \<and> pg_digest (call_key c) = pg_digest k)"
  shows "acquired_tokens (\<lambda>k'. pg_digest k' = pg_digest k) tr = [] \<and>
    (\<forall>t < rec_ExpiresAt r. pg_live db2 t (pg_digest k) = Some (ow, rec_Token r))"
proof -
  have got: "backend_call pg_backend e1 (CallAcquire k ow ttl) db = (Got r, db1)" using assms(3) by simp
  show ?thesis using pgs.exclusive_until_expiry [OF assms(2,1) got assms(4-6)] .
qed

section \<open>Cleanup\<close>

lemma cleanupSQL_effect:
  assumes "cleanupSQL clk visited batch db = (n, db')"
  shows "lease_fences db' = lease_fences db" "0 \<le> n" "n \<le> int batch"
    "lease_records db' d = lease_records db d \<or>
     lease_records db' d = None \<and> (\<exists>row. lease_records db d = Some row \<and> doomed_row (clk 0) row)"
proof -
  define doomed where "doomed = take batch (filter (\<lambda>d. case lease_records db d of
    None \<Rightarrow> False | Some row \<Rightarrow> doomed_row (clk 0) row) (remdups visited))"
  have "d \<in> set doomed \<Longrightarrow> \<exists>row. lease_records db d = Some row \<and> doomed_row (clk 0) row"
    by (auto simp: doomed_def dest!: in_set_takeD split: option.splits)
  moreover have "n = int (length doomed)" "length doomed \<le> batch"
    "db' = db\<lparr>lease_records := (\<lambda>d. if d \<in> set doomed then None else lease_records db d)\<rparr>"
    using assms by (simp_all add: cleanupSQL_def Let_def doomed_def)
  ultimately show "lease_fences db' = lease_fences db" "0 \<le> n" "n \<le> int batch"
    "lease_records db' d = lease_records db d \<or>
     lease_records db' d = None \<and> (\<exists>row. lease_records db d = Some row \<and> doomed_row (clk 0) row)"
    by simp_all
qed

lemma cleanup_keeps:
  assumes inv: "pg_invar db"
    and eff: "lease_fences db' = lease_fences db"
      "\<And>d. lease_records db' d = lease_records db d \<or>
       lease_records db' d = None \<and> (\<exists>row. lease_records db d = Some row \<and> \<not> row_active row)"
  shows "pg_invar db' \<and> pg_fence db' i = pg_fence db i \<and> pg_live db' t i = pg_live db t i"
proof (intro conjI)
  show "pg_invar db'" unfolding pg_invar_def eff(1)
    using inv eff(2) unfolding pg_invar_def by (metis option.distinct(1))
  show "pg_fence db' i = pg_fence db i" by (simp add: pg_fence_def eff(1))
  show "pg_live db' t i = pg_live db t i"
    using eff(2) [of i] by (auto simp: pg_live_def row_live_def)
qed

text \<open>
  C35: Cleanup never touches ownership. Whatever rows the server visits and whether or not
  its reply arrives, cleanup keeps the invariant, every fence and the holder of every key
  at every instant; a reported count is at most the batch.
\<close>

theorem pg_cleanup_keeps:
  assumes "pg_invar db" and "pg_Cleanup e batch db = (res, db')"
  shows "pg_invar db' \<and> pg_fence db' i = pg_fence db i \<and> pg_live db' t i = pg_live db t i \<and>
    (case res of Inl err \<Rightarrow> True | Inr n \<Rightarrow> n \<le> batch)"
proof (cases "pg_ctx e \<noteq> None \<or> batch = 0 \<or> batch > 10000")
  case True
  then show ?thesis using assms by (auto simp: pg_Cleanup_def split: if_splits)
next
  case False
  let ?sql = "cleanupSQL (pg_clock e) (pg_visited e) (unat batch) db"
  let ?stmt = "\<lambda>db. map_prod (\<lambda>n. Inr (Some n)) id (cleanupSQL (pg_clock e) (pg_visited e) (unat batch) db)"
  note eff = cleanupSQL_effect [OF surjective_pairing [of ?sql]]
  obtain q where q: "query_row e ?stmt db = (q, db')"
    using assms(2) False by (auto simp: pg_Cleanup_def split: prod.splits sum.splits if_splits)
  then have "db' = db \<or> db' = snd ?sql" using query_row_tables by (fastforce simp: map_prod_def split: prod.splits)
  then have "pg_invar db' \<and> pg_fence db' i = pg_fence db i \<and> pg_live db' t i = pg_live db t i"
  proof
    assume db': "db' = snd ?sql"
    show ?thesis
      by (rule cleanup_keeps [OF assms(1)]) (use db' eff(1,4) doomed_row_def in \<open>simp; blast\<close>)+
  qed (use assms(1) in simp)
  moreover have "n \<le> batch" if n: "res = Inr n" for n
  proof -
    obtain c where c: "0 \<le> c" "c \<le> int (unat batch)" "n = word_of_int c"
      using assms(2) False n by (auto simp: pg_Cleanup_def not_less split: prod.splits sum.splits if_splits)
    have "nat c \<le> unat batch" using c by linarith
    moreover have "unat batch < 2 ^ 32" using unsigned_less [of batch] by simp
    ultimately have "unat n = nat c"
      using c by (simp add: unsigned_of_int take_bit_int_eq_self nat_less_iff)
    with \<open>nat c \<le> unat batch\<close> show ?thesis by (simp add: word_le_nat_alt)
  qed
  ultimately show ?thesis by (cases res) auto
qed

section \<open>Statements that do not overlap\<close>

text \<open>What a successful release leaves behind, and that it lets the same release succeed again.\<close>

definition released_row :: "Record \<Rightarrow> pg_tables \<Rightarrow> bool" where
  "released_row r db \<longleftrightarrow> (case lease_records db (pg_digest (rec_Key r)) of
     None \<Rightarrow> True
   | Some row \<Rightarrow> row_owner row = rec_Owner r \<and> row_token row = sint (rec_Token r) \<and> \<not> row_active row)"

lemma pg_release_leaves:
  assumes "pg_serial e" and "pg_Release e r db = (None, db1)"
  shows "released_row r db1" "pg_text (rec_Owner r)"
    "pg_validate None (rec_Key r) (rec_Owner r) (rec_Token r) 1000000 = None"
proof -
  show "pg_validate None (rec_Key r) (rec_Owner r) (rec_Token r) 1000000 = None"
    using assms(2) by (auto simp: pg_Release_def pg_validate_def split: option.splits if_splits)
  obtain out where stmt: "releaseSQL (pg_clock e) db (pg_digest (rec_Key r)) (rec_Owner r) (sint (rec_Token r)) db = (Inr (Some out), db1)"
    and out: "out = ''ok'' \<or> out = ''idempotent''"
    using assms by (auto simp: pg_Release_def query_row_Inr pg_serial_def snapshot_def
        split: option.splits prod.splits sum.splits if_splits)
  then show utf: "pg_text (rec_Owner r)" by (auto simp: releaseSQL_def split: if_splits)
  show "released_row r db1"
    using stmt out utf
    by (auto simp: released_row_def releaseSQL_def Let_def update_target_serial split: option.splits if_splits)
qed

lemma pg_release_repeats:
  assumes "pg_serial e" "pg_fate e = Delivered" "pg_ctx e = None" and "released_row r db" "pg_text (rec_Owner r)"
    and "pg_validate None (rec_Key r) (rec_Owner r) (rec_Token r) 1000000 = None"
  shows "pg_Release e r db = (None, db)"
  using assms
  by (auto simp: pg_serial_def snapshot_def released_row_def pg_Release_def query_row_def releaseSQL_def Let_def update_target_serial
      split: option.splits)

text \<open>
  Release is idempotent. Once a release has returned success, releasing the same
  record again, with a delivered statement that overlaps no other, succeeds as well and
  changes nothing, also after a cleanup has removed the row.
\<close>

theorem pg_release_idempotent:
  assumes "pg_serial e1" and "pg_serial e2" and "pg_fate e2 = Delivered" and "pg_ctx e2 = None"
    and "pg_Release e1 r db = (None, db1)" and "pg_Cleanup e batch db1 = (res, db2)"
  shows "pg_Release e2 r db2 = (None, db2)"
proof -
  let ?d = "pg_digest (rec_Key r)"
  note left = pg_release_leaves [OF assms(1,5)]
  have "lease_records db2 ?d = lease_records db1 ?d \<or> lease_records db2 ?d = None"
    using assms(6) query_row_tables cleanupSQL_effect(4) [OF surjective_pairing, of "pg_clock e" "pg_visited e" "unat batch" db1 ?d]
    by (fastforce simp: pg_Cleanup_def map_prod_def split: prod.splits sum.splits if_splits)
  with left(1) have "released_row r db2" by (auto simp: released_row_def)
  from pg_release_repeats [OF assms(2-4) this left(2,3)] show ?thesis .
qed

lemma Milliseconds_pos: "\<not> ttl <s (1000000 :: duration) \<Longrightarrow> 0 < duration_Milliseconds ttl"
  by (simp add: duration_Milliseconds_def word_sless_alt pos_imp_zdiv_pos_iff)

lemma pg_validate_ok:
  "pg_validate ctx k ow tok ttl = None \<Longrightarrow> 1 \<le> length ow \<and> length ow \<le> 128 \<and> 0 < duration_Milliseconds ttl"
  using Milliseconds_pos [of ttl] by (auto simp: pg_validate_def Suc_le_eq split: option.splits if_splits)

lemma pg_acquire_granted:
  assumes "pg_invar db" and "pg_env_ok e" and "pg_fate e = Delivered"
    and "pg_validate (pg_ctx e) k ow 1 ttl = None" and "pg_text ow"
    and "\<forall>i j. i \<le> j \<longrightarrow> pg_clock e i \<le> pg_clock e j"
    and "pg_live db (pg_instant (pg_begin e)) (pg_digest k) = None"
    and "pg_fence db (pg_digest k) < 2 ^ 63 - 1"
  shows "\<exists>r db' row. pg_TryAcquire e k ow ttl db = (Inr r, db') \<and> unat (rec_Token r) = Suc (pg_fence db (pg_digest k)) \<and>
    lease_fences db' (pg_digest k) = Some (row_token row) \<and> lease_records db' (pg_digest k) = Some row \<and>
    rec_Token r = word_of_int (row_token row) \<and> nat (row_token row) = Suc (pg_fence db (pg_digest k)) \<and>
    row_owner row = ow \<and> row_active row \<and> row_acquired_at row \<le> pg_end e \<and>
    pg_begin e + interval_ms (duration_Milliseconds ttl) \<le> row_expires_at row \<and>
    row_expires_at row \<le> pg_end e + interval_ms (duration_Milliseconds ttl)"
proof -
  let ?d = "pg_digest k"
  let ?sql = "acquireSQL (pg_clock e) (snapshot e db) ?d ow (duration_Milliseconds ttl)"
  obtain f where f: "next_fence ?d db = Some f" "nat f = Suc (pg_fence db ?d)"
  proof (cases "lease_fences db ?d")
    case None
    then show ?thesis using that [of 1] by (simp add: next_fence_def pg_fence_def)
  next
    case (Some g)
    then have "0 < g" using assms(1) unfolding pg_invar_def by blast
    then show ?thesis
      using that [of "g + 1"] Some assms(8)
      by (simp add: next_fence_def pg_fence_def max_bigint_def nat_less_iff nat_add_distrib)
  qed
  note bounds = next_fence_Some [OF assms(1) f(1)]
  have check: "row_check \<lparr>row_owner = ow, row_token = f, row_acquired_at = pg_clock e i,
      row_expires_at = pg_clock e j + interval_ms (duration_Milliseconds ttl), row_active = a, row_updated_at = u\<rparr>"
    and later: "pg_clock e i < pg_clock e j + interval_ms (duration_Milliseconds ttl)" if "i \<le> j" for i j a u
    using pg_validate_ok [OF assms(4)] bounds(1) assms(6) [rule_format, OF that]
    by (simp_all add: row_check_def interval_ms_def)
  have vacant: "\<not> row_active old \<or> row_expires_at old \<le> pg_clock e 6" if "lease_records db ?d = Some old" for old
    using assms(7) that pg_clock_bounds(1) [OF assms(2), of 6]
    by (auto simp: pg_live_def row_live_def pg_instant_def split: if_splits)
  obtain a x db' where stmt: "?sql db = (Inr (Some (f, a, x, ''ok'')), db')" and ax: "a < x"
  proof (cases "lease_records db ?d")
    case None
    then show ?thesis
      using that f(1) assms(5) check [of 0 1] later [of 0 1] by (simp add: acquireSQL_def Let_def)
  next
    case (Some old)
    then show ?thesis
      using that f(1) assms(5) check [of 0 1] check [of 3 4] later [of 3 4] vacant [OF Some]
      by (simp add: acquireSQL_def Let_def)
  qed
  let ?r = "\<lparr>rec_Key = k, rec_Owner = ow, rec_Token = word_of_int f, rec_AcquiredAt = pg_instant a, rec_ExpiresAt = pg_instant x\<rparr>"
  have run: "pg_TryAcquire e k ow ttl db = (Inr ?r, db')"
    using stmt ax bounds(1) assms(3,4) by (simp add: pg_TryAcquire_def query_row_def recordFromValues_def)
  from stmt show ?thesis
  proof (cases rule: acquireSQL_cases)
    case (installed f' row)
    then show ?thesis
      using run f unat_token [OF bounds(1,4)] pg_clock_bounds [OF assms(2)]
      by (intro exI [of _ ?r] exI [of _ db'] exI [of _ row]) auto
  qed (auto simp: acquire_outcome_def split: option.splits if_splits)
qed

text \<open>
  Progress of the PostgreSQL store. A delivered acquisition of a vacant digest with
  valid input, an unexhausted fence and a clock that does not run backwards during the
  statement succeeds with the next fence.
\<close>

theorem pg_acquire_vacant:
  assumes "pg_invar db" and "pg_env_ok e" and "pg_fate e = Delivered"
    and "pg_validate (pg_ctx e) k ow 1 ttl = None" and "pg_text ow"
    and "\<forall>i j. i \<le> j \<longrightarrow> pg_clock e i \<le> pg_clock e j"
    and "pg_live db (pg_instant (pg_begin e)) (pg_digest k) = None"
    and "pg_fence db (pg_digest k) < 2 ^ 63 - 1"
  shows "\<exists>r db'. pg_TryAcquire e k ow ttl db = (Inr r, db') \<and> unat (rec_Token r) = Suc (pg_fence db (pg_digest k))"
  using pg_acquire_granted [OF assms] by blast

section \<open>Progress\<close>

text \<open>
  A delivered statement that overlaps no other, under a usable context, with a clock that
  does not run backwards while it executes.
\<close>

definition pg_calm :: "pg_env \<Rightarrow> bool" where
  "pg_calm e \<longleftrightarrow> pg_serial e \<and> pg_fate e = Delivered \<and> pg_ctx e = None \<and>
     (\<forall>i j. i \<le> j \<longrightarrow> pg_clock e i \<le> pg_clock e j)"

definition pg_input :: "Key \<Rightarrow> string \<Rightarrow> Token \<Rightarrow> duration \<Rightarrow> bool" where
  "pg_input k ow tok ttl \<longleftrightarrow> pg_validate None k ow tok ttl = None \<and> pg_text ow"

definition pg_room :: "nat \<Rightarrow> pg_tables \<Rightarrow> Key \<Rightarrow> bool" where
  "pg_room n db k \<longleftrightarrow> pg_fence db (pg_digest k) + n < 2 ^ 63"

definition pg_settled :: "pg_tables \<Rightarrow> instant \<Rightarrow> digest \<Rightarrow> bool" where
  "pg_settled db t d \<longleftrightarrow>
     (case lease_records db d of None \<Rightarrow> True | Some row \<Rightarrow> pg_instant (row_acquired_at row) \<le> t)"

definition pg_lasts :: "pg_env \<Rightarrow> duration \<Rightarrow> instant" where
  "pg_lasts e ttl = pg_instant (pg_begin e + interval_ms (duration_Milliseconds ttl))"

definition pg_gone :: "pg_env \<Rightarrow> duration \<Rightarrow> instant" where
  "pg_gone e ttl = pg_instant (pg_end e + interval_ms (duration_Milliseconds ttl))"

lemma pg_calmD:
  assumes "pg_calm e"
  shows "pg_serial e" "pg_env_ok e" "pg_fate e = Delivered" "pg_ctx e = None" "snapshot e db = db"
    "\<forall>i j. i \<le> j \<longrightarrow> pg_clock e i \<le> pg_clock e j"
  using assms by (simp_all add: pg_calm_def pg_serial_def snapshot_def)

lemma pg_held:
  assumes inv: "pg_invar db" and calm: "pg_calm e" and input: "pg_input k ow 1 ttl" and room: "pg_room (Suc n) db k"
    and held: "pg_live db (pg_instant (pg_end e)) (pg_digest k) \<noteq> None"
  shows "\<exists>err db'. pg_TryAcquire e k ow ttl db = (Inl err, db') \<and> errors_Is err (Sentinel ErrContended) \<and>
    pg_fence db' (pg_digest k) = Suc (pg_fence db (pg_digest k)) \<and> lease_records db' = lease_records db"
proof -
  let ?d = "pg_digest k"
  note calm = pg_calmD [OF calm]
  obtain row where row: "lease_records db ?d = Some row" "row_active row" "pg_end e < row_expires_at row"
    using held by (auto simp: pg_live_def row_live_def pg_instant_def split: option.splits if_splits)
  then obtain f where f: "lease_fences db ?d = Some f" "0 < f" using inv unfolding pg_invar_def by blast
  then have less: "f < max_bigint" using room by (simp add: pg_room_def pg_fence_def max_bigint_def)
  then have next_f: "next_fence ?d db = Some (f + 1)" "acquire_outcome ?d db = ''contended''"
    using f by (simp_all add: next_fence_def acquire_outcome_def)
  have valid: "pg_validate None k ow 1 ttl = None" "pg_text ow" using input by (simp_all add: pg_input_def)
  have check: "row_check \<lparr>row_owner = ow, row_token = f + 1, row_acquired_at = pg_clock e 0,
      row_expires_at = pg_clock e 1 + interval_ms (duration_Milliseconds ttl), row_active = True, row_updated_at = u\<rparr>" for u
    using pg_validate_ok [OF valid(1)] f(2) calm(6) [rule_format, of 0 1] by (simp add: row_check_def interval_ms_def)
  have "\<not> row_expires_at row \<le> pg_clock e 6" using row(3) pg_clock_bounds(2) [OF calm(2), of 6] by simp
  then have "acquireSQL (pg_clock e) db ?d ow (duration_Milliseconds ttl) db =
      (Inr (Some (0, pg_clock e 7, pg_clock e 8, ''contended'')), db\<lparr>lease_fences := (lease_fences db)(?d \<mapsto> f + 1)\<rparr>)"
    using row valid(2) next_f check by (simp add: acquireSQL_def Let_def)
  then show ?thesis
    using calm(3-5) valid(1) f by (simp add: pg_TryAcquire_def query_row_def pg_fence_def nat_add_distrib)
qed

lemma pg_renew_lost:
  assumes inv: "pg_invar db" and calm: "pg_calm e" and input: "pg_input (rec_Key r) (rec_Owner r) (rec_Token r) ttl"
    and lost: "pg_live db (pg_instant (pg_begin e)) (pg_digest (rec_Key r)) \<noteq> Some (rec_Owner r, rec_Token r)"
  shows "\<exists>err. pg_Renew e r ttl db = (Inl err, db) \<and> errors_Is err (Sentinel ErrStaleOwner)"
proof -
  note calm = pg_calmD [OF calm]
  have "update_target (owned_row (rec_Owner r) (sint (rec_Token r)) (pg_clock e 2))
      (owned_row (rec_Owner r) (sint (rec_Token r)) (pg_clock e 3)) (pg_digest (rec_Key r)) db db = None"
    using lost pg_clock_bounds(1) [OF calm(2), of 2]
    by (auto simp: update_target_serial owned_row_def pg_live_iff [OF inv] pg_instant_def split: option.splits)
  then show ?thesis
    using calm(3-5) input by (simp add: pg_Renew_def pg_input_def query_row_def renewSQL_def scanRecord_def)
qed

lemma pg_validate_lost:
  assumes inv: "pg_invar db" and calm: "pg_calm e" and input: "pg_input (rec_Key r) (rec_Owner r) (rec_Token r) Millisecond"
    and lost: "pg_live db (pg_instant (pg_begin e)) (pg_digest (rec_Key r)) \<noteq> Some (rec_Owner r, rec_Token r)"
  shows "\<exists>err. pg_Validate e r db = (Inl err, db) \<and> errors_Is err (Sentinel ErrStaleOwner)"
proof -
  note calm = pg_calmD [OF calm]
  have "validateSQL (pg_clock e) db (pg_digest (rec_Key r)) (rec_Owner r) (sint (rec_Token r)) = Inr None"
    using lost pg_clock_bounds(1) [OF calm(2), of 0] input
    by (auto simp: validateSQL_def pg_input_def owned_row_def pg_live_iff [OF inv] pg_instant_def split: option.splits)
  then show ?thesis
    using calm(3-5) input by (simp add: pg_Validate_def pg_input_def query_row_def scanRecord_def)
qed

lemma pg_renew_live:
  assumes inv: "pg_invar db" and calm: "pg_calm e" and input: "pg_input (rec_Key r) (rec_Owner r) (rec_Token r) ttl"
    and held: "pg_live db (pg_instant (pg_end e)) (pg_digest (rec_Key r)) = Some (rec_Owner r, rec_Token r)"
    and settled: "pg_settled db (pg_instant (pg_begin e)) (pg_digest (rec_Key r))"
  shows "\<exists>r' row. pg_Renew e r ttl db = (Inr r', db\<lparr>lease_records := (lease_records db)(pg_digest (rec_Key r) \<mapsto> row)\<rparr>) \<and>
    row_active row \<and> row_owner row = rec_Owner r \<and> word_of_int (row_token row) = rec_Token r \<and> row_acquired_at row \<le> pg_end e \<and>
    pg_begin e + interval_ms (duration_Milliseconds ttl) \<le> row_expires_at row \<and>
    row_expires_at row \<le> pg_end e + interval_ms (duration_Milliseconds ttl)"
proof -
  let ?d = "pg_digest (rec_Key r)" and ?clk = "pg_clock e"
  note calm = pg_calmD [OF calm]
  have valid: "pg_validate None (rec_Key r) (rec_Owner r) (rec_Token r) ttl = None" "pg_text (rec_Owner r)"
    using input by (simp_all add: pg_input_def)
  obtain row where row: "lease_records db ?d = Some row" "row_active row" "pg_end e < row_expires_at row"
    "row_owner row = rec_Owner r" "row_token row = sint (rec_Token r)"
    using held by (auto simp: pg_live_iff [OF inv] pg_instant_def)
  have acq: "row_acquired_at row \<le> pg_begin e" using settled row(1) by (simp add: pg_settled_def pg_instant_def)
  let ?row1 = "row\<lparr>row_expires_at := ?clk 0 + interval_ms (duration_Milliseconds ttl), row_updated_at := ?clk 1\<rparr>"
  have later: "row_acquired_at row < ?clk 0 + interval_ms (duration_Milliseconds ttl)"
    using acq pg_clock_bounds(1) [OF calm(2), of 0] pg_validate_ok [OF valid(1)] by (simp add: interval_ms_def)
  have check: "row_check ?row1" using invarD(1) [OF inv row(1)] later by (simp add: row_check_def)
  have own: "owned_row (rec_Owner r) (sint (rec_Token r)) (?clk 2) row"
    using row pg_clock_bounds(2) [OF calm(2), of 2] by (simp add: owned_row_def)
  have "renewSQL ?clk db ?d (rec_Owner r) (sint (rec_Token r)) (duration_Milliseconds ttl) db =
      (Inr (Some (sint (rec_Token r), row_acquired_at row, row_expires_at ?row1)),
       db\<lparr>lease_records := (lease_records db)(?d \<mapsto> ?row1)\<rparr>)"
    using valid(2) row(1,5) own check by (simp add: renewSQL_def update_target_serial Let_def)
  then have "pg_Renew e r ttl db = (Inr \<lparr>rec_Key = rec_Key r, rec_Owner = rec_Owner r, rec_Token = rec_Token r,
      rec_AcquiredAt = pg_instant (row_acquired_at row), rec_ExpiresAt = pg_instant (row_expires_at ?row1)\<rparr>,
      db\<lparr>lease_records := (lease_records db)(?d \<mapsto> ?row1)\<rparr>)"
    using calm(3-5) valid(1) pg_validate_token [OF valid(1)] later
    by (simp add: pg_Renew_def query_row_def scanRecord_def recordFromValues_def)
  moreover have "pg_begin e \<le> pg_end e" using pg_clock_bounds [OF calm(2), of 0] by simp
  ultimately show ?thesis
    using row acq pg_validate_token [OF valid(1)] pg_clock_bounds [OF calm(2), of 0]
    by (intro exI [of _ ?row1] exI) auto
qed

interpretation pgp: lease_progress pg_backend pg_invar pg_digest pg_live pg_fence
  "\<lambda>e. pg_instant (pg_begin e)" "\<lambda>e. pg_instant (pg_end e)" pg_serial pg_calm pg_input pg_room pg_settled pg_lasts pg_gone
proof (unfold_locales, goal_cases)
  case (1 e)
  then show ?case by (rule pg_calmD(1))
next
  case (2 s k ow ttl tok)
  then have "unat tok < 2 ^ 63"
    by (fastforce simp: pg_fence_def pg_invar_def max_bigint_def split: option.splits)
  with 2 show ?case by (auto simp: pg_input_def pg_validate_def word_less_nat_alt unat_gt_0 split: if_splits)
next
  case (3 s t i t')
  then show ?case by (auto simp: pg_settled_def split: option.splits)
next
  case (4 e s k ow ttl n)
  note calm = pg_calmD [OF 4(1)]
  have "pg_validate (pg_ctx e) k ow 1 ttl = None" "pg_text ow" "pg_fence s (pg_digest k) < 2 ^ 63 - 1"
    using 4(3,4) calm by (simp_all add: pg_input_def pg_room_def)
  from pg_acquire_granted [OF 4(2) calm(2,3) this(1,2) calm(6) 4(5) this(3)] show ?case
    using 4(4) by (auto simp: pg_room_def pg_settled_def pg_fence_def pg_instant_def pg_live_def row_live_def
        pg_lasts_def pg_gone_def)
next
  case (5 e s k ow ttl n)
  from pg_held [OF 5(2,1,3-5)] 5(4) show ?case
    by (auto simp: pg_room_def pg_live_def pg_settled_def)
next
  case (6 e s r ttl)
  from pg_renew_live [OF 6(2,1,3-5)] show ?case
    by (auto simp: pg_room_def pg_fence_def pg_settled_def pg_instant_def pg_live_def row_live_def pg_lasts_def pg_gone_def)
next
  case (7 e s r ttl)
  then show ?case using pg_renew_lost by simp
next
  case (8 e s r)
  note calm = pg_calmD [OF 8(1)]
  obtain row where row: "lease_records s (pg_digest (rec_Key r)) = Some row" "row_active row" "pg_end e < row_expires_at row"
    "row_owner row = rec_Owner r" "row_token row = sint (rec_Token r)"
    using 8(4) by (auto simp: pg_live_iff [OF 8(2)] pg_instant_def)
  have valid: "pg_validate None (rec_Key r) (rec_Owner r) (rec_Token r) 1000000 = None" "pg_text (rec_Owner r)"
    using 8(3) by (simp_all add: pg_input_def)
  have "validateSQL (pg_clock e) s (pg_digest (rec_Key r)) (rec_Owner r) (sint (rec_Token r)) =
      Inr (Some (sint (rec_Token r), row_acquired_at row, row_expires_at row))"
    using row valid(2) pg_clock_bounds(2) [OF calm(2), of 0] by (simp add: validateSQL_def owned_row_def)
  then show ?case
    using calm(3-5) valid(1) pg_validate_token [OF valid(1)] invarD(1) [OF 8(2) row(1)]
    by (simp add: pg_Validate_def query_row_def scanRecord_def recordFromValues_def row_check_def)
next
  case (9 e s r)
  then show ?case using pg_validate_lost by simp
next
  case (10 e s r)
  note calm = pg_calmD [OF 10(1)]
  from 10 calm(3-5) show ?case
    by (auto simp: pg_live_iff [OF 10(2)] pg_Release_def pg_input_def query_row_def releaseSQL_def Let_def update_target_serial)
next
  case (11 e s r h)
  note calm = pg_calmD [OF 11(1)]
  obtain row where row: "lease_records s (pg_digest (rec_Key r)) = Some row" "row_active row"
    using 11(4) by (auto simp: pg_live_def row_live_def split: option.splits if_splits)
  have "\<not> (row_owner row = rec_Owner r \<and> row_token row = sint (rec_Token r))"
    using 11(4,5) row pg_validate_token [of None "rec_Key r" "rec_Owner r" "rec_Token r" 1000000] 11(3)
    by (auto simp: pg_live_def row_live_def pg_input_def split: if_splits)
  with 11(3) row calm(3-5) show ?case
    by (auto simp: pg_Release_def pg_input_def query_row_def releaseSQL_def Let_def update_target_serial)
next
  case (12 e e' s r s')
  note calm = pg_calmD [OF 12(1)] pg_calmD [OF 12(2)]
  have "pg_Release e r s = (None, s')" using 12(5) by simp
  from pg_release_repeats [OF calm(7,9,10) pg_release_leaves [OF calm(1) this]] show ?case by simp
qed

text \<open>
  C10: The PostgreSQL store serves the owner and nobody else. With delivered statements that
  overlap no other: while a record's owner and fence hold the lease, its renewal succeeds
  for the full lifetime and its validation and release succeed; once they no longer hold it,
  renewal and validation answer \<^verbatim>\<open>ErrStaleOwner\<close> and change nothing; and while someone else
  holds it, so does its release.
\<close>

theorem pg_owner_served:
  assumes "pg_invar db" and "pg_calm e" and "pg_input (rec_Key r) (rec_Owner r) (rec_Token r) ttl"
    and "pg_settled db (pg_instant (pg_begin e)) (pg_digest (rec_Key r))"
  defines "mine \<equiv> Some (rec_Owner r, rec_Token r)" and "live \<equiv> \<lambda>s t. pg_live s t (pg_digest (rec_Key r))"
  shows "(live db (pg_instant (pg_end e)) = mine \<longrightarrow>
      (\<exists>r' db'. pg_Renew e r ttl db = (Inr r', db') \<and> (\<forall>t < pg_lasts e ttl. live db' t = mine)) \<and>
      (\<exists>r'. pg_Validate e r db = (Inr r', db)) \<and> (\<exists>db'. pg_Release e r db = (None, db'))) \<and>
    (live db (pg_instant (pg_begin e)) \<noteq> mine \<longrightarrow>
      (\<exists>err. pg_Renew e r ttl db = (Inl err, db) \<and> errors_Is err (Sentinel ErrStaleOwner)) \<and>
      (\<exists>err. pg_Validate e r db = (Inl err, db) \<and> errors_Is err (Sentinel ErrStaleOwner))) \<and>
    (live db (pg_instant (pg_end e)) \<notin> {None, mine} \<longrightarrow>
      (\<exists>err. pg_Release e r db = (Some err, db) \<and> errors_Is err (Sentinel ErrStaleOwner)))"
proof -
  have short: "pg_input (rec_Key r) (rec_Owner r) (rec_Token r) 1000000"
    using assms(3) by (auto simp: pg_input_def pg_validate_def split: if_splits)
  show ?thesis
    unfolding mine_def live_def
    using pgp.renew_live [OF assms(2,1,3)] pgp.validate_live [OF assms(2,1) short] pgp.release_live [OF assms(2,1) short]
      pgp.renew_lost [OF assms(2,1,3)] pgp.validate_lost [OF assms(2,1) short] pgp.release_lost [OF assms(2,1) short] assms(4)
    by fastforce
qed

section \<open>Witnesses\<close>

text \<open>A digest that was leased before with fence 1; its row has been cleaned up.\<close>

definition ex_pkey :: Key where "ex_pkey = \<lparr>key_value = ''a/b''\<rparr>"

definition ex_penv :: "timestamptz \<Rightarrow> pg_tables option \<Rightarrow> pg_env" where
  "ex_penv t snap = \<lparr>pg_clock = (\<lambda>_. t), pg_begin = t, pg_end = t, pg_snap = snap,
     pg_ctx = None, pg_ctx_after = None, pg_fate = Delivered, pg_visited = [pg_digest ex_pkey]\<rparr>"

definition ex_precord :: "string \<Rightarrow> Token \<Rightarrow> timestamptz \<Rightarrow> timestamptz \<Rightarrow> Record" where
  "ex_precord ow tok a b = \<lparr>rec_Key = ex_pkey, rec_Owner = ow, rec_Token = tok,
     rec_AcquiredAt = pg_instant a, rec_ExpiresAt = pg_instant b\<rparr>"

definition ex_row :: "bool \<Rightarrow> timestamptz \<Rightarrow> lease_row" where
  "ex_row active updated = \<lparr>row_owner = ''y'', row_token = 2, row_acquired_at = 1000,
     row_expires_at = 5001000, row_active = active, row_updated_at = updated\<rparr>"

definition ex_tables :: pg_tables where
  "ex_tables = \<lparr>lease_fences = [pg_digest ex_pkey \<mapsto> 1], lease_records = Map.empty\<rparr>"

definition ex_tables1 :: pg_tables where
  "ex_tables1 = \<lparr>lease_fences = [pg_digest ex_pkey \<mapsto> 2], lease_records = [pg_digest ex_pkey \<mapsto> ex_row True 1000]\<rparr>"

definition ex_tables2 :: pg_tables where
  "ex_tables2 = \<lparr>lease_fences = [pg_digest ex_pkey \<mapsto> 2], lease_records = [pg_digest ex_pkey \<mapsto> ex_row False 2000]\<rparr>"

lemma ex_penv_simps [simp]:
  "pg_clock (ex_penv t snap) i = t" "pg_begin (ex_penv t snap) = t" "pg_end (ex_penv t snap) = t"
  "pg_snap (ex_penv t snap) = snap" "pg_ctx (ex_penv t snap) = None" "pg_fate (ex_penv t snap) = Delivered"
  "pg_env_ok (ex_penv t snap)" "pg_serial (ex_penv t None)"
  by (simp_all add: ex_penv_def pg_env_ok_def pg_serial_def)

lemma ex_tables_invar: "pg_invar ex_tables"
  by (simp add: pg_invar_def ex_tables_def max_bigint_def)

lemma ex_text: "pg_text ''y''"
  by code_simp

lemma ex_valid: "pg_validate None ex_pkey ''y'' 1 (5 * Second) = None" "pg_validate None ex_pkey ''y'' 2 Millisecond = None"
  by (simp_all add: pg_validate_def ex_pkey_def word_sless_alt)

lemma ex_acquired:
  "pg_TryAcquire (ex_penv 1000 None) ex_pkey ''y'' (5 * Second) ex_tables = (Inr (ex_precord ''y'' 2 1000 5001000), ex_tables1)"
  using ex_valid(1) ex_text
  by (simp add: pg_TryAcquire_def query_row_def acquireSQL_def next_fence_def max_bigint_def Let_def row_check_def
      recordFromValues_def ex_tables_def ex_tables1_def ex_row_def ex_precord_def duration_Milliseconds_def interval_ms_def)

lemma ex_released: "pg_Release (ex_penv 2000 None) (ex_precord ''y'' 2 1000 5001000) ex_tables1 = (None, ex_tables2)"
  using ex_valid(2) ex_text
  by (simp add: pg_Release_def query_row_def releaseSQL_def Let_def snapshot_def update_target_serial
      ex_tables1_def ex_tables2_def ex_row_def ex_precord_def)

theorem pg_fences_increase_witness:
  "sorted_wrt (<) (pg_fence ex_tables (pg_digest ex_pkey) #
     acquired_tokens (\<lambda>k. pg_digest k = pg_digest ex_pkey) (fst (backend_run pg_backend
       [(ex_penv 1000 None, CallAcquire ex_pkey ''y'' (5 * Second)),
        (ex_penv 6000000 (Some ex_tables), CallAcquire ex_pkey ''z'' (5 * Second))] ex_tables)))"
  by (rule pg_fences_increase [OF ex_tables_invar]) simp

theorem pg_successor_protected_witness:
  "fst (pg_Renew (ex_penv 2000 (Some ex_tables)) (ex_precord ''x'' 1 0 900) Second ex_tables1) \<noteq>
     Inr (ex_precord ''x'' 1 0 1002000) \<and>
   pg_live (snd (pg_Release (ex_penv 2000 (Some ex_tables)) (ex_precord ''x'' 1 0 900) ex_tables1)) 0 (pg_digest ex_pkey) =
     pg_live ex_tables1 0 (pg_digest ex_pkey) \<and>
   pg_fence (snd (pg_Release (ex_penv 2000 (Some ex_tables)) (ex_precord ''x'' 1 0 900) ex_tables1)) (pg_digest ex_pkey) =
     pg_fence ex_tables1 (pg_digest ex_pkey)"
proof -
  have run: "backend_run pg_backend [] ex_tables1 = ([], ex_tables1)" by simp
  show ?thesis
    by (rule pg_successor_protected [OF ex_tables_invar _ ex_acquired run]) (simp_all add: ex_precord_def)
qed

theorem pg_exclusive_witness:
  "pg_live (snd (backend_run pg_backend [(ex_penv 2000 (Some ex_tables), CallAcquire ex_pkey ''z'' (5 * Second))] ex_tables1))
     (pg_instant 5000999) (pg_digest ex_pkey) = Some (''y'', 2)"
proof -
  let ?cs = "[(ex_penv 2000 (Some ex_tables), CallAcquire ex_pkey ''z'' (5 * Second))]"
  obtain tr db2 where run: "backend_run pg_backend ?cs ex_tables1 = (tr, db2)" by fastforce
  then have tr: "\<exists>rep. tr = [(ex_penv 2000 (Some ex_tables), CallAcquire ex_pkey ''z'' (5 * Second), rep)]"
    by (auto split: prod.splits)
  have "pg_live db2 (pg_instant 5000999) (pg_digest ex_pkey) = Some (''y'', 2)"
    using pg_exclusive [OF ex_tables_invar _ ex_acquired run] tr
    by (auto simp: ex_precord_def pg_instant_def)
  with run show ?thesis by simp
qed

theorem pg_cleanup_keeps_witness:
  "pg_fence (snd (pg_Cleanup (ex_penv 9000000000 None) 10 ex_tables)) (pg_digest ex_pkey) = pg_fence ex_tables (pg_digest ex_pkey)"
  using pg_cleanup_keeps [OF ex_tables_invar surjective_pairing] by blast

theorem pg_release_idempotent_witness:
  "pg_Release (ex_penv 3000 None) (ex_precord ''y'' 2 1000 5001000) (snd (pg_Cleanup (ex_penv 9000000000 None) 10 ex_tables2)) =
     (None, snd (pg_Cleanup (ex_penv 9000000000 None) 10 ex_tables2))"
  by (rule pg_release_idempotent [OF _ _ _ _ ex_released surjective_pairing]) simp_all

theorem pg_acquire_vacant_witness:
  "\<exists>r db'. pg_TryAcquire (ex_penv 1000 None) ex_pkey ''y'' (5 * Second) ex_tables = (Inr r, db') \<and>
     unat (rec_Token r) = Suc (pg_fence ex_tables (pg_digest ex_pkey))"
  by (rule pg_acquire_vacant [OF ex_tables_invar])
    (use ex_valid ex_text in \<open>simp_all add: ex_tables_def pg_live_def pg_fence_def\<close>)

text \<open>
  Two overlapping releases of the same record: the second waited for the first and reads
  the row as it was before, so that it reports a stale owner although its lease has just
  been released.
\<close>

lemma pg_overlapping_release_stale:
  "pg_Release (ex_penv 2500 (Some ex_tables1)) (ex_precord ''y'' 2 1000 5001000) ex_tables2 =
     (Some (Wrap (Sentinel ErrStaleOwner) ''postgres release''), ex_tables2)"
  using ex_valid(2) ex_text
  by (simp add: pg_Release_def query_row_def releaseSQL_def Let_def snapshot_def update_target_def
      ex_tables1_def ex_tables2_def ex_row_def ex_precord_def)

section \<open>Refinement and error texts\<close>


definition pg_operations :: "string list" where
  "pg_operations = [''postgres context'', ''postgres input'', ''postgres operation'', ''postgres response'', ''postgres acquire'',
     ''postgres fence exhausted'', ''postgres renew'', ''postgres renew response'', ''postgres validate'',
     ''postgres validate response'', ''postgres release'']"

lemma pg_validate_text: "pg_validate ctx k ow tok ttl = Some err \<Longrightarrow> classified_text pg_operations err"
  by (auto simp: pg_validate_def pg_operations_def split: option.splits if_splits)

lemma pg_classify_text: "classified_text pg_operations (pg_classify ctx err ambiguous)"
  by (auto simp: pg_classify_def pg_operations_def)




text \<open>A contended acquisition has already taken the next fence.\<close>

lemma pg_contended_burns_fence:
  "pg_TryAcquire (ex_penv 2000 None) ex_pkey ''y'' (5 * Second) ex_tables1 =
     (Inl (Wrap (Sentinel ErrContended) ''postgres acquire''), ex_tables1\<lparr>lease_fences := [pg_digest ex_pkey \<mapsto> 3]\<rparr>)"
  using ex_valid(1) ex_text
  by (simp add: pg_TryAcquire_def query_row_def acquireSQL_def next_fence_def max_bigint_def Let_def row_check_def
      acquire_outcome_def snapshot_def ex_tables1_def ex_row_def duration_Milliseconds_def interval_ms_def)

theorem pg_owner_served_witness:
  "(\<exists>r' db'. pg_Renew (ex_penv 2000 None) (ex_precord ''y'' 2 1000 5001000) (5 * Second) ex_tables1 = (Inr r', db') \<and>
     (\<forall>t < 5002000000. pg_live db' t (pg_digest ex_pkey) = Some (''y'', 2))) \<and>
   (\<exists>err. pg_Renew (ex_penv 2000 None) (ex_precord ''x'' 1 1000 5001000) (5 * Second) ex_tables1 = (Inl err, ex_tables1) \<and>
     errors_Is err (Sentinel ErrStaleOwner))"
proof -
  have calm: "pg_calm (ex_penv 2000 None)" by (simp add: pg_calm_def)
  have "pg_text ''y'' \<and> pg_text ''x''" by code_simp
  then have input: "pg_input ex_pkey ''y'' 2 (5 * Second)" "pg_input ex_pkey ''x'' 1 (5 * Second)"
    by (simp_all add: pg_input_def pg_validate_def ex_pkey_def word_sless_alt word_less_nat_alt)
  have inv: "pg_invar ex_tables1" by (simp add: pg_invar_def ex_tables1_def ex_row_def row_check_def max_bigint_def)
  have settled: "pg_settled ex_tables1 (pg_instant (pg_begin (ex_penv 2000 None))) (pg_digest ex_pkey)"
    by (simp add: pg_settled_def ex_tables1_def ex_row_def pg_instant_def)
  have live: "pg_live ex_tables1 (pg_instant 2000) (pg_digest ex_pkey) = Some (''y'', 2)"
    by (simp add: pg_live_def row_live_def ex_tables1_def ex_row_def pg_instant_def)
  have "pg_lasts (ex_penv 2000 None) (5 * Second) = 5002000000"
    by (simp add: pg_lasts_def pg_instant_def interval_ms_def duration_Milliseconds_def)
  with pg_owner_served [OF inv calm, of "ex_precord ''y'' 2 1000 5001000" "5 * Second"]
    pg_owner_served [OF inv calm, of "ex_precord ''x'' 1 1000 5001000" "5 * Second"] input settled live
  show ?thesis by (auto simp: ex_precord_def)
qed

end
