(* ===== verification/Admission_Backends.thy ===== *)
theory Admission_Backends
  imports Lease_Admission Memory_Store Valkey_Safety Postgres_Safety
begin

text \<open>
  How long a lease of each backend lasts, and what follows for handles: local admission
  implies remote ownership. Memory leases last exactly their TTL; PostgreSQL cuts it to
  milliseconds, and Valkey also counts from the start of the current millisecond.
\<close>

section \<open>Timing of the backends\<close>

lemma Milliseconds_bound: "sint ttl - 1000000 \<le> duration_Milliseconds ttl * 1000000"
proof (cases "0 \<le> sint ttl")
  case True
  have "sint ttl = sint ttl div 1000000 * 1000000 + sint ttl mod 1000000" by simp
  moreover have "sint ttl mod 1000000 < 1000000" by simp
  ultimately have "sint ttl - 1000000 \<le> sint ttl div 1000000 * 1000000" by linarith
  moreover have "duration_Milliseconds ttl = sint ttl div 1000000"
    using True by (simp add: duration_Milliseconds_def sgn_if)
  ultimately show ?thesis by simp
next
  case False
  have "- sint ttl div 1000000 * 1000000 \<le> - sint ttl"
    using div_mult_mod_eq [of "- sint ttl" 1000000] pos_mod_sign [of 1000000 "- sint ttl"] by linarith
  moreover have "duration_Milliseconds ttl = - (- sint ttl div 1000000)"
    using False by (simp add: duration_Milliseconds_def sgn_if)
  ultimately show ?thesis by simp
qed

lemma expiry_arith:
  "N = q * 1000 + m \<Longrightarrow> m < 1000 \<Longrightarrow> T = Q * 1000000 + M \<Longrightarrow> M < 1000000 \<Longrightarrow> Q \<le> P \<Longrightarrow>
   u + N * 1000 + T - 2000000 \<le> u + (q + P) * (1000000 :: int)"
  by simp

interpretation memt: lease_timing memory_backend memory_invar key_String memory_live memory_fence
  mem_now mem_now "\<lambda>_. True" 0
proof (unfold_locales, goal_cases)
  case (1 e s k ow ttl r s')
  then have "memory_TryAcquire e k ow ttl s = (Inr r, s')" by (simp add: map_prod_eq)
  then show ?case by (cases rule: memory_acquire_cases) (auto simp: time_Add_def)
next
  case (2 e s r ttl r' s')
  then have "memory_Renew e r ttl s = (Inr r', s')" by (simp add: map_prod_eq)
  then show ?case by (cases rule: memory_renew_cases) (auto simp: time_Add_def)
next
  case (3 e s r ttl rep s' t)
  then obtain res where "memory_Renew e r ttl s = (res, s')" by (auto simp: map_prod_eq)
  then show ?case using 3(4,5)
    by (cases rule: memory_renew_cases) (auto simp: memory_live_def sameOwner_def time_Add_def)
qed simp

interpretation pgt: lease_timing pg_backend pg_invar pg_digest pg_live pg_fence
  "\<lambda>e. pg_instant (pg_begin e)" "\<lambda>e. pg_instant (pg_end e)" pg_env_ok 1000000
proof (unfold_locales, goal_cases)
  case (1 e s k ow ttl r s')
  then have run: "pg_TryAcquire e k ow ttl s = (Inr r, s')" by (simp add: map_prod_eq)
  then obtain tok a x where stmt: "acquireSQL (pg_clock e) (snapshot e s) (pg_digest k) ow (duration_Milliseconds ttl) s =
      (Inr (Some (tok, a, x, ''ok'')), s')" and r: "rec_ExpiresAt r = pg_instant x"
    by (auto simp: pg_TryAcquire_def query_row_Inr recordFromValues_def split: option.splits prod.splits sum.splits if_splits)
  from stmt obtain i where "x = pg_clock e i + interval_ms (duration_Milliseconds ttl)"
    by (cases rule: acquireSQL_cases) (auto simp: acquire_outcome_def split: option.splits if_splits)
  then show ?case using r Milliseconds_bound [of ttl] pg_clock_bounds(1) [OF 1(1), of i]
    by (simp add: pg_instant_def interval_ms_def)
next
  case (2 e s r ttl r' s')
  then have run: "pg_Renew e r ttl s = (Inr r', s')" by (simp add: map_prod_eq)
  then obtain tok a x where stmt: "renewSQL (pg_clock e) (snapshot e s) (pg_digest (rec_Key r)) (rec_Owner r)
      (sint (rec_Token r)) (duration_Milliseconds ttl) s = (Inr (Some (tok, a, x)), s')" and r': "rec_ExpiresAt r' = pg_instant x"
    by (auto simp: pg_Renew_def query_row_Inr scanRecord_Inr split: option.splits prod.splits sum.splits if_splits)
  from stmt have "x = pg_clock e 0 + interval_ms (duration_Milliseconds ttl)"
    by (cases rule: renewSQL_cases) auto
  then show ?case using r' Milliseconds_bound [of ttl] pg_clock_bounds(1) [OF 2(1), of 0]
    by (simp add: pg_instant_def interval_ms_def)
next
  case (3 e s r ttl rep s' t)
  let ?stmt = "renewSQL (pg_clock e) (snapshot e s) (pg_digest (rec_Key r)) (rec_Owner r)
    (sint (rec_Token r)) (duration_Milliseconds ttl)"
  have inv': "pg_invar s'" using pgs.invar_call [OF 3(1-3)] .
  obtain res where "pg_Renew e r ttl s = (res, s')" using 3(3) by (auto simp: map_prod_eq)
  then have "s' = s \<or> s' = snd (?stmt s)"
    using query_row_tables [of e ?stmt s] by (auto simp: pg_Renew_def split: option.splits prod.splits)
  then show ?case
  proof
    assume s': "s' = snd (?stmt s)"
    obtain q where "?stmt s = (q, s')" using s' by (metis prod.collapse)
    then show ?thesis
    proof (cases rule: renewSQL_cases)
      case (renewed row row1 i)
      then show ?thesis
        using 3(4) Milliseconds_bound [of ttl] pg_clock_bounds(1) [OF 3(1), of 0] pg_live_iff [OF inv']
        by (auto simp: pg_instant_def interval_ms_def)
    qed (use 3(5) in auto)
  qed (use 3(5) in simp)
qed (simp add: pg_digest_def)

sublocale valkey_lease \<subseteq> timing: lease_timing "valkey_backend S prefix" "valkey_invar hash_at count_at prefix"
  key_digest "valkey_live hash_at prefix" "valkey_fence count_at prefix"
  "\<lambda>e. valkey_instant (vk_now e)" "\<lambda>e. valkey_instant (vk_now e)" valkey_env_ok 2000000
proof (unfold_locales, goal_cases)
  have expiry: "valkey_instant n + sint ttl - 2000000 \<le> time_UnixMilli (int (n div 1000 + nat (sint ttl div 1000000)))" for n ttl
  proof -
    have "int n = int (n div 1000) * 1000 + int (n mod 1000)" by (metis div_mult_mod_eq of_nat_add of_nat_mult of_nat_numeral)
    moreover have "int (n mod 1000) < 1000" by simp
    moreover have "sint ttl = sint ttl div 1000000 * 1000000 + sint ttl mod 1000000" by simp
    moreover have "sint ttl mod 1000000 < 1000000" by simp
    moreover have "sint ttl div 1000000 \<le> int (nat (sint ttl div 1000000))" by simp
    ultimately show ?thesis unfolding valkey_instant_def time_UnixMilli_def of_nat_add by (rule expiry_arith)
  qed
  {
    case (1 e s k ow ttl r s')
    then have run: "valkey_TryAcquire S prefix e k ow ttl s = (Inr r, s')" by (simp add: map_prod_eq)
    from 1(2,1) run show ?case
      by (cases rule: valkey_acquire_cases) (use expiry [of "vk_now e" ttl] in auto)
  next
    case (2 e s r ttl r' s')
    then have run: "valkey_Renew S prefix e r ttl s = (Inr r', s')" by (simp add: map_prod_eq)
    from 2(2,1) run show ?case
    proof (cases rule: valkey_renew_cases)
      case (renewed h h' x)
      show ?thesis using expiry [of "vk_now e" ttl] renewed(8) [OF refl] renewed(9) by simp
    qed simp
  next
    case (3 e s r ttl rep s' t)
    then obtain res where run: "valkey_Renew S prefix e r ttl s = (res, s')" by (auto simp: map_prod_eq)
    from 3(2,1) run show ?case
    proof (cases rule: valkey_renew_cases)
      case refused
      with 3(5) show ?thesis by simp
    next
      case (renewed h h' x)
      obtain y where "hash_at s (lease_key prefix (key_digest (rec_Key r))) = Some (h, y)"
        using live_hash_Some renewed(1) by blast
      then have wf: "wf_hash (count_at s (counter_key prefix (key_digest (rec_Key r)))) (h, y)"
        using 3(2) by (simp add: valkey_invar_def)
      have h': "h' ''owner'' = Some (rec_Owner r)" "h' ''token'' = Some (strconv_FormatUint (rec_Token r))"
        using wf_hash_holder [OF wf renewed(2)] renewed(5,6) by auto
      have "t < time_UnixMilli (int x)" using 3(4) expiry [of "vk_now e" ttl] renewed(9) by simp
      then show ?thesis using live_new [OF renewed(3) h', of t] valkey_ms_before by simp
    qed
  next
    case (4 k k')
    then show ?case by (simp add: key_digest_def)
  }
qed

context valkey_lease
begin

lemmas timing_contract = timing.lease_timing_axioms

end

section \<open>Admission implies ownership\<close>

text \<open>
  Admission over the memory store. Take a handle from a successful acquisition whose
  clock reading preceded the call, and any interleaving of its own operations (answered,
  abandoned or executed late) with calls of other clients. Whenever the handle reports
  active and no release has been started, its owner and token hold the key in the store
  at that moment, provided the safety margin covers the drift between the two clocks.
\<close>

theorem memory_admission_safe:
  assumes "memory_invar s0" and "memory_TryAcquire e1 k ow (TTL policy) s0 = (Inr r, s1)"
    and "wallStarted + skew \<le> mem_now e1" and "wf_Policy policy" and "drift \<le> sint (SafetyMargin policy)"
    and "(world_step memory_backend (\<lambda>_. True) mem_now mem_now key_String skew drift)\<^sup>*\<^sup>*
      (new_world policy r started wallStarted s1 (mem_now e1)) w"
    and "w_time w \<le> b" and "reading skew drift b c" and "fst (handle_State c (w_handle w)) = StateActive"
    and "\<not> w_released w"
  shows "memory_live (w_store w) b (key_String k) = Some (ow, rec_Token r)"
proof -
  have got: "backend_call memory_backend e1 (CallAcquire k ow (TTL policy)) s0 = (Got r, s1)" using assms(2) by simp
  show ?thesis using memt.admission_safe [OF TrueI assms(1) got assms(3,4) _ assms(6-10)] assms(5) by simp
qed

text \<open>
  Admission over the PostgreSQL store, with overlapping statements reading any
  snapshots: the same, when the safety margin covers the drift and one millisecond of
  truncation.
\<close>

theorem pg_admission_safe:
  assumes "pg_invar s0" and "pg_env_ok e1" and "pg_TryAcquire e1 k ow (TTL policy) s0 = (Inr r, s1)"
    and "wallStarted + skew \<le> pg_instant (pg_begin e1)" and "wf_Policy policy"
    and "1000000 + drift \<le> sint (SafetyMargin policy)"
    and "(world_step pg_backend pg_env_ok (\<lambda>e. pg_instant (pg_begin e)) (\<lambda>e. pg_instant (pg_end e)) pg_digest skew drift)\<^sup>*\<^sup>*
      (new_world policy r started wallStarted s1 (pg_instant (pg_end e1))) w"
    and "w_time w \<le> b" and "reading skew drift b c" and "fst (handle_State c (w_handle w)) = StateActive"
    and "\<not> w_released w"
  shows "pg_live (w_store w) b (pg_digest k) = Some (ow, rec_Token r)"
proof -
  have got: "backend_call pg_backend e1 (CallAcquire k ow (TTL policy)) s0 = (Got r, s1)" using assms(3) by simp
  show ?thesis using pgt.admission_safe [OF assms(2,1) got assms(4-11)] .
qed

text \<open>
  Admission over the Valkey store, on any server with the documented behaviour: the
  same, when the safety margin covers the drift and two milliseconds of truncation.
\<close>

theorem valkey_admission_safe:
  assumes "valkey_server S hash_at count_at" and "valkey_invar hash_at count_at prefix s0"
    and "valkey_env_ok e1" and "valkey_TryAcquire S prefix e1 k ow (TTL policy) s0 = (Inr r, s1)"
    and "wallStarted + skew \<le> valkey_instant (vk_now e1)" and "wf_Policy policy"
    and "2000000 + drift \<le> sint (SafetyMargin policy)"
    and "(world_step (valkey_backend S prefix) valkey_env_ok (\<lambda>e. valkey_instant (vk_now e))
        (\<lambda>e. valkey_instant (vk_now e)) key_digest skew drift)\<^sup>*\<^sup>*
      (new_world policy r started wallStarted s1 (valkey_instant (vk_now e1))) w"
    and "w_time w \<le> b" and "reading skew drift b c" and "fst (handle_State c (w_handle w)) = StateActive"
    and "\<not> w_released w"
  shows "valkey_live hash_at prefix (w_store w) b (key_digest k) = Some (ow, rec_Token r)"
proof -
  have got: "backend_call (valkey_backend S prefix) e1 (CallAcquire k ow (TTL policy)) s0 = (Got r, s1)"
    using assms(4) by (simp add: valkey_backend_def)
  show ?thesis
    using lease_timing.admission_safe [OF valkey_lease.timing_contract [OF valkey_lease.intro [OF assms(1)]]
        assms(3,2) got assms(5-12)] .
qed

section \<open>Witnesses\<close>

lemma ex_active:
  "t < t0 + 4000000000 \<Longrightarrow>
   fst (handle_State (ex_clocks t) (w_handle (new_world ex_policy r t0 t0 s t1))) = StateActive"
  by (simp add: ex_clocks_def handle_State_def expireLocked_def new_world_def newHandleAt_def Let_def time_Add_def)

theorem memory_admission_safe_witness:
  "memory_live (snd (memory_TryAcquire (ex_env 10) ex_key ''x'' (5 * Second) ex_store)) 4000000000 (key_String ex_key) =
     Some (''x'', 1)"
proof -
  let ?s1 = "snd (memory_TryAcquire (ex_env 10) ex_key ''x'' (5 * Second) ex_store)"
  have got: "memory_TryAcquire (ex_env 10) ex_key ''x'' (TTL ex_policy) ex_store =
      (Inr (ex_record ''x'' 1 10 5000000010), ?s1)"
    unfolding prod_eq_iff ex_policy_simps by (rule conjI, code_simp, simp)
  show ?thesis
    using memory_admission_safe [OF ex_store_invar(1) got _ _ _ rtranclp.rtrancl_refl,
        where wallStarted = 10 and skew = 0 and drift = 0 and b = 4000000000 and c = "ex_clocks 4000000000" and started = 10]
    ex_active [of 4000000000 10 "ex_record ''x'' 1 10 5000000010" ?s1 10]
    by (simp add: ex_env_def new_world_def reading_def ex_clocks_def ex_record_def)
qed

theorem pg_admission_safe_witness:
  "pg_live ex_tables1 4000000000 (pg_digest ex_pkey) = Some (''y'', 2)"
  using pg_admission_safe [OF ex_tables_invar _ ex_acquired [folded ex_policy_simps(1)] _ _ _ rtranclp.rtrancl_refl,
      where wallStarted = 1000000 and skew = 0 and drift = 0 and b = 4000000000 and c = "ex_clocks 4000000000" and started = 1000000]
    ex_active [of 4000000000 1000000 "ex_precord ''y'' 2 1000 5001000" ex_tables1 1000000]
  by (simp add: new_world_def reading_def ex_clocks_def ex_precord_def pg_instant_def)

theorem valkey_admission_safe_witness:
  "valkey_live space_hash ''app'' ex_space1 (time_UnixMilli 4000) (key_digest ex_vkey) = Some (''y'', 2)"
  using valkey_admission_safe [OF refvk.valkey_server_axioms ex_space_invar ex_exchange_ok
      ex_space1_got [folded ex_policy_simps(1)] _ _ _ rtranclp.rtrancl_refl,
      where wallStarted = "time_UnixMilli 1000" and skew = 0 and drift = 0 and b = "time_UnixMilli 4000"
        and c = "ex_clocks (time_UnixMilli 4000)" and started = "time_UnixMilli 1000"]
    ex_active [of "time_UnixMilli 4000" "time_UnixMilli 1000" "ex_vrecord ''y'' 2 1000 6000" ex_space1 "time_UnixMilli 1000"]
  by (simp add: new_world_def reading_def ex_clocks_def ex_vrecord_def ex_exchange_def valkey_instant_def time_UnixMilli_def)

end
