(* ===== verification/Client_Admission.thy ===== *)
theory Client_Admission
  imports Lease_Client Admission_Backends
begin

text \<open>
  From \<^verbatim>\<open>Client.Acquire\<close> to admission: the handle that an acquisition with retries returns,
  on a backend that other clients use at the same time, starts a world in which local
  admission implies remote ownership.
\<close>

definition handle_world :: "Handle \<Rightarrow> 's \<Rightarrow> instant \<Rightarrow> 's world" where
  "handle_world h s t = \<lparr>w_handle = h, w_flights = [], w_store = s, w_time = t, w_released = False\<rparr>"

context lease_timing
begin

lemma client_admission_safe:
  assumes "invar s0" and envs: "\<forall>i. shared_ok (at_env (env i))"
    and acq: "client_Acquire (shared B) cl ctx newOwner started env key policy s0 = (Inr h, s1)"
    and started: "\<forall>i. clk_wall (at_clocks (env i)) + skew \<le> begins (snd (at_env (env i)))"
    and policy: "wf_Policy policy" "grain + drift \<le> sint (SafetyMargin policy)"
  shows "\<exists>owner i. newOwner = Inr owner \<and> fence s0 (ident key) < unat (rec_Token (h_record h)) \<and>
    (\<forall>w b c. (world_step B env_ok begins ends ident skew drift)\<^sup>*\<^sup>* (handle_world h s1 (ends (snd (at_env (env i))))) w \<longrightarrow>
      w_time w \<le> b \<longrightarrow> reading skew drift b c \<longrightarrow> fst (handle_State c (w_handle w)) = StateActive \<longrightarrow> \<not> w_released w \<longrightarrow>
      live (w_store w) b (ident key) = Some (owner, rec_Token (h_record h)))"
  using acq assms(1) envs
proof (rule client_Acquire_got)
  fix i s2 owner r
  assume owner: "newOwner = Inr owner" and s2: "invar s2" "\<And>j. fence s0 j \<le> fence s2 j"
    and call: "backend_call B (snd (at_env (env i))) (CallAcquire key owner (TTL policy)) s2 = (Got r, s1)"
    and h: "h = newHandleAt policy r (clk_now (at_clocks (env i))) (clk_wall (at_clocks (env i)))"
  have e: "env_ok (snd (at_env (env i)))" using envs by (simp add: shared_ok_def)
  have st: "clk_wall (at_clocks (env i)) + skew \<le> begins (snd (at_env (env i)))" using started by blast
  have rec: "h_record h = r" by (simp add: h newHandleAt_def Let_def)
  have world: "handle_world h s1 t = new_world policy r (clk_now (at_clocks (env i))) (clk_wall (at_clocks (env i))) s1 t" for t
    by (simp add: handle_world_def new_world_def h)
  have "fence s0 (ident key) < unat (rec_Token r)"
    using acquire_got [OF e s2(1) call] s2(2) [of "ident key"] by simp
  moreover note admission_safe [OF e s2(1) call st policy]
  ultimately show ?thesis unfolding rec world using owner by blast
qed

end

end
