(* ===== verification/Lease_Cluster.thy ===== *)
theory Lease_Cluster
  imports Client_Admission
begin

text \<open>
  Any number of processes on one backend. Each process that has acquired a lease is a member
  with a handle of its own, a clock of its own and requests of its own in flight; members
  join at any time, act, get no answers, stop or come back late, and outsiders call the
  backend as they like. At no instant do two handles for the same key admit work.
\<close>

section \<open>Members\<close>

text \<open>
  \<open>mb_record\<close> is the record the member acquired, \<open>mb_skew\<close> how far its clock runs behind the
  backend's; the other fields are those of a world.
\<close>

record member =
  mb_record :: Record
  mb_skew :: int
  mb_handle :: Handle
  mb_flights :: "(flight \<times> response option) list"
  mb_released :: bool

record 's cluster =
  cu_members :: "member list"
  cu_store :: 's
  cu_time :: instant

definition member_world :: "'s cluster \<Rightarrow> member \<Rightarrow> 's world" where
  "member_world cu m = \<lparr>w_handle = mb_handle m, w_flights = mb_flights m, w_store = cu_store cu, w_time = cu_time cu,
     w_released = mb_released m\<rparr>"

definition new_member :: "Policy \<Rightarrow> Record \<Rightarrow> instant \<Rightarrow> instant \<Rightarrow> int \<Rightarrow> member" where
  "new_member policy r started wallStarted skew =
     \<lparr>mb_record = r, mb_skew = skew, mb_handle = newHandleAt policy r started wallStarted, mb_flights = [], mb_released = False\<rparr>"

definition put :: "nat \<Rightarrow> member \<Rightarrow> instant \<Rightarrow> 's cluster \<Rightarrow> 's cluster" where
  "put i m t cu = cu\<lparr>cu_members := (cu_members cu)[i := m], cu_time := t\<rparr>"

definition member_holder :: "member \<Rightarrow> holder" where
  "member_holder m = (rec_Owner (mb_record m), rec_Token (mb_record m))"

text \<open>A request of a member that takes effect after the member has given it up.\<close>

fun late_call :: "member \<Rightarrow> call \<Rightarrow> bool" where
  "late_call m (CallRenew r ttl) \<longleftrightarrow> same_identity r (mb_record m) \<and> ttl = TTL (h_policy (mb_handle m))"
| "late_call m (CallRelease r) \<longleftrightarrow> same_identity r (mb_record m) \<and> mb_released m"
| "late_call m (CallValidate r) \<longleftrightarrow> same_identity r (mb_record m)"
| "late_call m (CallAcquire k ow ttl) \<longleftrightarrow> False"

section \<open>Steps\<close>

inductive cluster_step ::
  "('e, 's) Backend \<Rightarrow> ('e \<Rightarrow> bool) \<Rightarrow> ('e \<Rightarrow> instant) \<Rightarrow> ('e \<Rightarrow> instant) \<Rightarrow> (Key \<Rightarrow> 'i) \<Rightarrow>
   int \<Rightarrow> int \<Rightarrow> 's cluster \<Rightarrow> 's cluster \<Rightarrow> bool"
  for B env_ok begins ends ident grain drift where
  join: "env_ok e \<Longrightarrow> cu_time cu \<le> begins e \<Longrightarrow> wallStarted + skew \<le> begins e \<Longrightarrow>
    wf_Policy policy \<Longrightarrow> grain + drift \<le> sint (SafetyMargin policy) \<Longrightarrow>
    backend_call B e (CallAcquire k ow (TTL policy)) (cu_store cu) = (Got r, s1) \<Longrightarrow>
    cluster_step B env_ok begins ends ident grain drift cu
      (cu\<lparr>cu_members := cu_members cu @ [new_member policy r started wallStarted skew], cu_store := s1, cu_time := ends e\<rparr>)"
| outside: "env_ok e \<Longrightarrow> cu_time cu \<le> begins e \<Longrightarrow>
    \<forall>m \<in> set (cu_members cu). \<not> (call_by (member_holder m) c \<and> ident (call_key c) = ident (rec_Key (mb_record m))) \<Longrightarrow>
    backend_call B e c (cu_store cu) = (rep, s1) \<Longrightarrow>
    cluster_step B env_ok begins ends ident grain drift cu (cu\<lparr>cu_store := s1, cu_time := ends e\<rparr>)"
| poll: "i < length (cu_members cu) \<Longrightarrow> m = cu_members cu ! i \<Longrightarrow> cu_time cu \<le> b \<Longrightarrow> reading (mb_skew m) drift b c \<Longrightarrow>
    cluster_step B env_ok begins ends ident grain drift cu (put i (m\<lparr>mb_handle := snd (handle_State c (mb_handle m))\<rparr>) b cu)"
| begin_request: "i < length (cu_members cu) \<Longrightarrow> m = cu_members cu ! i \<Longrightarrow> cu_time cu \<le> b \<Longrightarrow> b \<le> b1 \<Longrightarrow>
    reading (mb_skew m) drift b c \<Longrightarrow> reading (mb_skew m) drift b1 c1 \<Longrightarrow> request_begin rq c c1 (mb_handle m) = (Inr f, h1) \<Longrightarrow>
    cluster_step B env_ok begins ends ident grain drift cu
      (put i (m\<lparr>mb_handle := h1, mb_flights := (f, None) # mb_flights m, mb_released := mb_released m \<or> rq = RqRelease\<rparr>) b1 cu)"
| refuse_request: "i < length (cu_members cu) \<Longrightarrow> m = cu_members cu ! i \<Longrightarrow> cu_time cu \<le> b \<Longrightarrow>
    reading (mb_skew m) drift b c \<Longrightarrow> request_begin rq c c1 (mb_handle m) = (Inl err, h1) \<Longrightarrow>
    cluster_step B env_ok begins ends ident grain drift cu (put i (m\<lparr>mb_handle := h1\<rparr>) b cu)"
| execute: "i < length (cu_members cu) \<Longrightarrow> m = cu_members cu ! i \<Longrightarrow> (f, None) \<in> set (mb_flights m) \<Longrightarrow>
    env_ok e \<Longrightarrow> cu_time cu \<le> begins e \<Longrightarrow>
    backend_call B e (flight_call (TTL (h_policy (mb_handle m))) f) (cu_store cu) = (rep, s1) \<Longrightarrow>
    cluster_step B env_ok begins ends ident grain drift cu
      (put i (m\<lparr>mb_flights := (f, Some (flight_response f rep)) # remove1 (f, None) (mb_flights m)\<rparr>) (ends e) (cu\<lparr>cu_store := s1\<rparr>))"
| late: "i < length (cu_members cu) \<Longrightarrow> m = cu_members cu ! i \<Longrightarrow> late_call m c \<Longrightarrow> env_ok e \<Longrightarrow> cu_time cu \<le> begins e \<Longrightarrow>
    backend_call B e c (cu_store cu) = (rep, s1) \<Longrightarrow>
    cluster_step B env_ok begins ends ident grain drift cu (cu\<lparr>cu_store := s1, cu_time := ends e\<rparr>)"
| answered: "i < length (cu_members cu) \<Longrightarrow> m = cu_members cu ! i \<Longrightarrow> (f, Some resp) \<in> set (mb_flights m) \<Longrightarrow> cu_time cu \<le> b \<Longrightarrow>
    reading (mb_skew m) drift b c \<Longrightarrow> flight_finish f c resp (mb_handle m) = (err, h1) \<Longrightarrow>
    cluster_step B env_ok begins ends ident grain drift cu
      (put i (m\<lparr>mb_handle := h1, mb_flights := remove1 (f, Some resp) (mb_flights m)\<rparr>) b cu)"
| abandoned: "i < length (cu_members cu) \<Longrightarrow> m = cu_members cu ! i \<Longrightarrow> (f, resp) \<in> set (mb_flights m) \<Longrightarrow> cu_time cu \<le> b \<Longrightarrow>
    reading (mb_skew m) drift b c \<Longrightarrow> flight_finish f c (failed_response f err0) (mb_handle m) = (err, h1) \<Longrightarrow>
    cluster_step B env_ok begins ends ident grain drift cu
      (put i (m\<lparr>mb_handle := h1, mb_flights := remove1 (f, resp) (mb_flights m)\<rparr>) b cu)"

definition empty_cluster :: "'s \<Rightarrow> instant \<Rightarrow> 's cluster" where
  "empty_cluster s t = \<lparr>cu_members = [], cu_store = s, cu_time = t\<rparr>"

section \<open>The invariant of a cluster\<close>

lemma member_world_simps [simp]:
  "w_handle (member_world cu m) = mb_handle m" "w_flights (member_world cu m) = mb_flights m"
  "w_store (member_world cu m) = cu_store cu" "w_time (member_world cu m) = cu_time cu" "w_released (member_world cu m) = mb_released m"
  by (simp_all add: member_world_def)

context lease_timing
begin

text \<open>
  Every member's world is in order, its fence has been handed out, and no two members hold
  the same fence of the same identity.
\<close>

definition member_ok :: "int \<Rightarrow> 'b cluster \<Rightarrow> member \<Rightarrow> bool" where
  "member_ok drift cu m \<longleftrightarrow> world_ok (h_policy (mb_handle m)) (mb_record m) (mb_skew m) drift (member_world cu m) \<and>
     wf_Policy (h_policy (mb_handle m)) \<and> grain + drift \<le> sint (SafetyMargin (h_policy (mb_handle m))) \<and>
     unat (rec_Token (mb_record m)) \<le> fence (cu_store cu) (ident (rec_Key (mb_record m)))"

definition cluster_ok :: "int \<Rightarrow> 'b cluster \<Rightarrow> bool" where
  "cluster_ok drift cu \<longleftrightarrow> invar (cu_store cu) \<and> (\<forall>m \<in> set (cu_members cu). member_ok drift cu m) \<and>
     (\<forall>i j. i < j \<longrightarrow> j < length (cu_members cu) \<longrightarrow>
        ident (rec_Key (mb_record (cu_members cu ! i))) = ident (rec_Key (mb_record (cu_members cu ! j))) \<longrightarrow>
        rec_Token (mb_record (cu_members cu ! i)) \<noteq> rec_Token (mb_record (cu_members cu ! j)))"

text \<open>What a member keeps while others act: time passes, or a call that is not its own takes effect.\<close>

lemma member_ok_time:
  assumes "member_ok drift cu m" "cu_time cu \<le> b" "cu_store cu' = cu_store cu" "cu_time cu' = b"
  shows "member_ok drift cu' m"
proof -
  let ?w = "member_world cu m"
  have ok: "world_ok (h_policy (mb_handle m)) (mb_record m) (mb_skew m) drift ?w" using assms(1) by (simp add: member_ok_def)
  then have "invar (cu_store cu)" by (simp add: world_ok_def)
  then have "world_ok (h_policy (mb_handle m)) (mb_record m) (mb_skew m) drift (?w\<lparr>w_store := cu_store cu, w_time := b\<rparr>)"
    using world_ok_store [OF ok, of "cu_store cu" b] assms(2) bound_later by simp
  moreover have "?w\<lparr>w_store := cu_store cu, w_time := b\<rparr> = member_world cu' m" using assms(3,4) by (simp add: member_world_def)
  ultimately show ?thesis using assms(1,3) by (simp add: member_ok_def)
qed

lemma member_ok_call:
  assumes ok: "member_ok drift cu m" and call: "env_ok e" "cu_time cu \<le> begins e" "backend_call B e c (cu_store cu) = (rep, s1)"
    and foreign: "mb_released m \<or> \<not> (call_by (member_holder m) c \<and> ident (call_key c) = ident (rec_Key (mb_record m)))"
    and cu': "cu_store cu' = s1" "cu_time cu' = ends e"
  shows "member_ok drift cu' m"
proof -
  let ?w = "member_world cu m" and ?p = "h_policy (mb_handle m)"
  have wok: "world_ok ?p (mb_record m) (mb_skew m) drift ?w" using ok by (simp add: member_ok_def)
  then have inv: "invar (cu_store cu)" by (simp add: world_ok_def)
  have "world_ok ?p (mb_record m) (mb_skew m) drift (?w\<lparr>w_store := s1, w_time := ends e\<rparr>)"
  proof (rule world_ok_store [OF wok])
    show "invar s1" by (rule invar_call [OF call(1) inv call(3)])
    show "w_time ?w \<le> ends e" using call(2) begins_ends [OF call(1)] by simp
    show "bound ?p (mb_record m) (mb_skew m) drift (?w\<lparr>w_store := s1, w_time := ends e\<rparr>) D"
      if "\<not> w_released ?w" "bound ?p (mb_record m) (mb_skew m) drift ?w D" for D
      by (rule bound_foreign [OF that(2) call(1), of c rep]) (use that(1) inv call(2,3) foreign in \<open>auto simp: member_holder_def\<close>)
  qed
  moreover have "?w\<lparr>w_store := s1, w_time := ends e\<rparr> = member_world cu' m" using cu' by (simp add: member_world_def)
  moreover have "fence (cu_store cu) i \<le> fence s1 i" for i by (rule fence_mono [OF call(1) inv call(3)])
  ultimately show ?thesis using ok cu' by (auto simp: member_ok_def intro: order_trans)
qed

text \<open>What a member's own step leaves.\<close>

lemma member_ok_own:
  assumes ok: "member_ok drift cu m" and step: "world_step B env_ok begins ends ident (mb_skew m) drift (member_world cu m) (member_world cu' m')"
    and same: "mb_record m' = mb_record m" "mb_skew m' = mb_skew m"
    and fence: "fence (cu_store cu) (ident (rec_Key (mb_record m))) \<le> fence (cu_store cu') (ident (rec_Key (mb_record m)))"
  shows "member_ok drift cu' m'"
proof -
  have wok: "world_ok (h_policy (mb_handle m)) (mb_record m) (mb_skew m) drift (member_world cu' m')"
    by (rule world_step_ok [OF step]) (use ok in \<open>simp_all add: member_ok_def\<close>)
  then have "h_policy (mb_handle m') = h_policy (mb_handle m)" by (simp add: world_ok_def)
  with wok ok same fence show ?thesis by (auto simp: member_ok_def intro: order_trans)
qed

end


fun call_record :: "call \<Rightarrow> Record option" where
  "call_record (CallAcquire k ow ttl) = None"
| "call_record (CallRenew r ttl) = Some r"
| "call_record (CallValidate r) = Some r"
| "call_record (CallRelease r) = Some r"

lemma call_by_record: "call_by h c \<Longrightarrow> \<exists>r. call_record c = Some r \<and> h = (rec_Owner r, rec_Token r) \<and> call_key c = rec_Key r"
  by (cases c) simp_all

lemma flight_call_record [simp]: "call_record (flight_call ttl f) = Some (flight_record f)"
  by (cases f) simp_all

lemma late_call_record: "late_call m c \<Longrightarrow> \<exists>r. call_record c = Some r \<and> same_identity r (mb_record m)"
  by (cases c) simp_all

context lease_timing
begin

text \<open>A call of one member is foreign to every other.\<close>

lemma others_foreign:
  assumes ok: "cluster_ok drift cu" and ij: "i < length (cu_members cu)" "j < length (cu_members cu)" "i \<noteq> j"
    and c: "call_record c = Some r" "same_identity r (mb_record (cu_members cu ! i))"
  shows "\<not> (call_by (member_holder (cu_members cu ! j)) c \<and> ident (call_key c) = ident (rec_Key (mb_record (cu_members cu ! j))))"
proof (rule notI, elim conjE)
  assume "call_by (member_holder (cu_members cu ! j)) c" and key: "ident (call_key c) = ident (rec_Key (mb_record (cu_members cu ! j)))"
  from call_by_record [OF this(1)] c(1)
  have r: "rec_Token r = rec_Token (mb_record (cu_members cu ! j))" "call_key c = rec_Key r" by (auto simp: member_holder_def)
  have same: "rec_Token r = rec_Token (mb_record (cu_members cu ! i))" "ident (rec_Key r) = ident (rec_Key (mb_record (cu_members cu ! i)))"
    using c(2) ident_string [of "rec_Key r" "rec_Key (mb_record (cu_members cu ! i))"] by (simp_all add: same_identity_def)
  have "ident (rec_Key (mb_record (cu_members cu ! i))) = ident (rec_Key (mb_record (cu_members cu ! j)))"
    "rec_Token (mb_record (cu_members cu ! i)) = rec_Token (mb_record (cu_members cu ! j))" using r key same by simp_all
  then show False using ok ij unfolding cluster_ok_def by (cases "i < j") (simp_all add: linorder_not_less le_less, metis)
qed

lemma cluster_okD:
  assumes "cluster_ok drift cu" "i < length (cu_members cu)"
  shows "member_ok drift cu (cu_members cu ! i)" "invar (cu_store cu)"
  using assms by (auto simp: cluster_ok_def)

lemma cluster_ok_update:
  assumes ok: "cluster_ok drift cu" and i: "i < length (cu_members cu)" and origin: "mb_record m' = mb_record (cu_members cu ! i)"
    and members: "cu_members cu' = (cu_members cu)[i := m']" and inv: "invar (cu_store cu')" and own: "member_ok drift cu' m'"
    and rest: "\<And>j. j < length (cu_members cu) \<Longrightarrow> j \<noteq> i \<Longrightarrow> member_ok drift cu' (cu_members cu ! j)"
  shows "cluster_ok drift cu'"
proof -
  have len: "length (cu_members cu') = length (cu_members cu)" by (simp add: members)
  have rec: "mb_record (cu_members cu' ! j) = mb_record (cu_members cu ! j)" for j
    using origin i by (cases "j = i") (simp_all add: members)
  have "member_ok drift cu' (cu_members cu' ! j)" if "j < length (cu_members cu)" for j
    using that own rest by (cases "j = i") (simp_all add: members)
  then have "\<forall>m \<in> set (cu_members cu'). member_ok drift cu' m" by (metis in_set_conv_nth len)
  then show ?thesis using ok inv by (simp add: cluster_ok_def rec len)
qed

text \<open>A step of a member that does not reach the backend.\<close>

lemma cluster_ok_local:
  assumes ok: "cluster_ok drift cu" and i: "i < length (cu_members cu)" "m = cu_members cu ! i" and time: "cu_time cu \<le> b"
    and step: "world_step B env_ok begins ends ident (mb_skew m) drift (member_world cu m) (member_world (put i m' b cu) m')"
    and same: "mb_record m' = mb_record m" "mb_skew m' = mb_skew m"
  shows "cluster_ok drift (put i m' b cu)"
proof (rule cluster_ok_update [OF ok i(1)])
  show "member_ok drift (put i m' b cu) m'"
    by (rule member_ok_own [OF _ step same]) (use cluster_okD [OF ok i(1)] i(2) in \<open>simp_all add: put_def\<close>)
  show "member_ok drift (put i m' b cu) (cu_members cu ! j)" if "j < length (cu_members cu)" "j \<noteq> i" for j
    by (rule member_ok_time [OF cluster_okD(1) [OF ok that(1)] time]) (simp_all add: put_def)
qed (use cluster_okD [OF ok i(1)] i(2) same in \<open>simp_all add: put_def\<close>)

text \<open>A request of a member that takes effect.\<close>

lemma cluster_ok_effect:
  assumes ok: "cluster_ok drift cu" and i: "i < length (cu_members cu)" "m = cu_members cu ! i"
    and call: "env_ok e" "cu_time cu \<le> begins e" "backend_call B e c (cu_store cu) = (rep, s1)"
    and c: "call_record c = Some r" "same_identity r (mb_record m)"
    and cu': "cu_members cu' = (cu_members cu)[i := m']" "cu_store cu' = s1" "cu_time cu' = ends e"
    and own: "member_ok drift cu' m'" "mb_record m' = mb_record m"
  shows "cluster_ok drift cu'"
proof (rule cluster_ok_update [OF ok i(1) _ cu'(1) _ own(1)])
  show "mb_record m' = mb_record (cu_members cu ! i)" using own(2) i(2) by simp
  show "invar (cu_store cu')" using invar_call [OF call(1) cluster_okD(2) [OF ok i(1)] call(3)] cu'(2) by simp
  show "member_ok drift cu' (cu_members cu ! j)" if "j < length (cu_members cu)" "j \<noteq> i" for j
    using member_ok_call [OF cluster_okD(1) [OF ok that(1)] call disjI2 cu'(2,3)]
      others_foreign [OF ok i(1) that(1) that(2) [symmetric] c(1)] c(2) i(2) by blast
qed

lemma cluster_ok_late:
  assumes ok: "cluster_ok drift cu" and i: "i < length (cu_members cu)" "m = cu_members cu ! i" and late: "late_call m c"
    and call: "env_ok e" "cu_time cu \<le> begins e" "backend_call B e c (cu_store cu) = (rep, s1)"
  shows "cluster_ok drift (cu\<lparr>cu_store := s1, cu_time := ends e\<rparr>)"
proof -
  obtain r where c: "call_record c = Some r" "same_identity r (mb_record m)" using late_call_record [OF late] by blast
  note mok = cluster_okD(1) [OF ok i(1), folded i(2)]
  let ?cu = "cu\<lparr>cu_store := s1, cu_time := ends e\<rparr>"
  have "member_ok drift ?cu m"
  proof (cases "mb_released m \<or> (\<exists>r. c = CallValidate r)")
    case True
    then show ?thesis using member_ok_call [OF mok call, of ?cu] by auto
  next
    case False
    then obtain r where c: "c = CallRenew r (TTL (h_policy (mb_handle m)))" "same_identity r (mb_record m)" using late by (cases c) auto
    have "handle_ok (mb_record m) (mb_handle m, map fst (mb_flights m))" using mok by (simp add: member_ok_def world_ok_def)
    then have "same_identity r (h_record (mb_handle m))" using c(2) by (auto simp: handle_ok_def same_identity_def)
    then have "world_step B env_ok begins ends ident (mb_skew m) drift (member_world cu m)
        ((member_world cu m)\<lparr>w_store := s1, w_time := ends e\<rparr>)"
      using world_step.late_renewal [of env_ok e "member_world cu m" begins r B rep s1] call c(1) by simp
    moreover have "(member_world cu m)\<lparr>w_store := s1, w_time := ends e\<rparr> = member_world ?cu m" by (simp add: member_world_def)
    ultimately show ?thesis
      using member_ok_own [OF mok, of ?cu m] fence_mono [OF call(1) cluster_okD(2) [OF ok i(1)] call(3)] by simp
  qed
  then show ?thesis
    by (rule cluster_ok_effect [OF ok i call c, of ?cu m, rotated 3]) (use i in simp_all)
qed

lemma cluster_ok_join:
  assumes ok: "cluster_ok drift cu" and call: "env_ok e" "cu_time cu \<le> begins e"
      "backend_call B e (CallAcquire k ow (TTL policy)) (cu_store cu) = (Got r, s1)"
    and started: "wallStarted + skew \<le> begins e" and policy: "wf_Policy policy" "grain + drift \<le> sint (SafetyMargin policy)"
  shows "cluster_ok drift (cu\<lparr>cu_members := cu_members cu @ [new_member policy r started wallStarted skew], cu_store := s1, cu_time := ends e\<rparr>)"
proof -
  let ?m = "new_member policy r started wallStarted skew"
  let ?cu = "cu\<lparr>cu_members := cu_members cu @ [?m], cu_store := s1, cu_time := ends e\<rparr>"
  have inv: "invar (cu_store cu)" using ok by (simp add: cluster_ok_def)
  note got = acquire_got [OF call(1) inv call(3)]
  have "world_ok policy r skew drift (member_world ?cu ?m)"
    using new_world_ok [OF call(1) inv call(3) started policy] by (simp add: member_world_def new_member_def new_world_def)
  then have "member_ok drift ?cu ?m"
    using policy got by (simp add: member_ok_def new_member_def newHandleAt_def Let_def)
  moreover have "member_ok drift ?cu m" if "m \<in> set (cu_members cu)" for m
    using member_ok_call [OF _ call, of drift m ?cu] ok that by (simp add: cluster_ok_def)
  moreover have "rec_Token (mb_record m) \<noteq> rec_Token r"
    if "m \<in> set (cu_members cu)" "ident (rec_Key (mb_record m)) = ident (rec_Key r)" for m
  proof -
    have "unat (rec_Token (mb_record m)) \<le> fence (cu_store cu) (ident k)" using ok that got by (auto simp: cluster_ok_def member_ok_def)
    then show ?thesis using got by auto
  qed
  ultimately show ?thesis
    using ok invar_call [OF call(1) inv call(3)] by (auto simp: cluster_ok_def nth_append less_Suc_eq new_member_def)
qed

end


context lease_timing
begin

lemma cluster_step_ok:
  assumes "cluster_step B env_ok begins ends ident grain drift cu cu'" and ok: "cluster_ok drift cu"
  shows "cluster_ok drift cu'"
  using assms(1)
proof (cases rule: cluster_step.cases)
  case (join e wallStarted skew policy k ow r s1 started)
  then show ?thesis using cluster_ok_join [OF ok join(2,3,7,4,5,6)] by simp
next
  case (outside e c rep s1)
  have inv: "invar (cu_store cu)" using ok by (simp add: cluster_ok_def)
  have "member_ok drift cu' m" if "m \<in> set (cu_members cu)" for m
    using member_ok_call [OF _ outside(2,3,5), of drift m cu'] outside(1,4) ok that by (auto simp: cluster_ok_def)
  then show ?thesis using ok invar_call [OF outside(2) inv outside(5)] outside(1) by (auto simp: cluster_ok_def)
next
  case (poll i m b c)
  show ?thesis unfolding poll(1)
    by (rule cluster_ok_local [OF ok poll(2-4)])
      (use world_step.poll_state [of "member_world cu m" b "mb_skew m" drift c B env_ok begins ends ident] poll(4,5)
        in \<open>simp_all add: member_world_def put_def\<close>)
next
  case (begin_request i m b b1 c c1 rq f h1)
  show ?thesis unfolding begin_request(1)
    by (rule cluster_ok_local [OF ok begin_request(2,3)])
      (use world_step.begin_request [of "member_world cu m" b b1 "mb_skew m" drift c c1 rq f h1 B env_ok begins ends ident] begin_request(4-8)
        in \<open>simp_all add: member_world_def put_def\<close>)
next
  case (refuse_request i m b c rq c1 err h1)
  show ?thesis unfolding refuse_request(1)
    by (rule cluster_ok_local [OF ok refuse_request(2-4)])
      (use world_step.refuse_request [of "member_world cu m" b "mb_skew m" drift c rq c1 err h1 B env_ok begins ends ident] refuse_request(4-6)
        in \<open>simp_all add: member_world_def put_def\<close>)
next
  case (execute i m f e rep s1)
  let ?m = "m\<lparr>mb_flights := (f, Some (flight_response f rep)) # remove1 (f, None) (mb_flights m)\<rparr>"
  note mok = cluster_okD(1) [OF ok execute(2), folded execute(3)]
  have "same_identity (flight_record f) (mb_record m)"
    using mok execute(4) by (force simp: member_ok_def world_ok_def handle_ok_def same_identity_def)
  moreover have "member_ok drift cu' ?m" unfolding execute(1)
    by (rule member_ok_own [OF mok])
      (use world_step.execute [of f "member_world cu m" env_ok e begins B rep s1 ends ident "mb_skew m" drift] execute(4-7)
        fence_mono [OF execute(5) cluster_okD(2) [OF ok execute(2)] execute(7)] in \<open>simp_all add: member_world_def put_def\<close>)
  ultimately show ?thesis
    by (intro cluster_ok_effect [OF ok execute(2,3,5,6,7) flight_call_record, of cu' ?m]) (simp_all add: execute(1) put_def)
next
  case (late i m c e rep s1)
  then show ?thesis using cluster_ok_late [OF ok late(2-7)] by simp
next
  case (answered i m f resp b c err h1)
  show ?thesis unfolding answered(1)
    by (rule cluster_ok_local [OF ok answered(2,3,5)])
      (use world_step.answered [of f resp "member_world cu m" b "mb_skew m" drift c err h1 B env_ok begins ends ident] answered(4-7)
        in \<open>simp_all add: member_world_def put_def\<close>)
next
  case (abandoned i m f resp b c err0 err h1)
  show ?thesis unfolding abandoned(1)
    by (rule cluster_ok_local [OF ok abandoned(2,3,5)])
      (use world_step.abandoned [of f resp "member_world cu m" b "mb_skew m" drift c err0 err h1 B env_ok begins ends ident] abandoned(4-7)
        in \<open>simp_all add: member_world_def put_def\<close>)
qed

lemma cluster_steps_ok:
  assumes "(cluster_step B env_ok begins ends ident grain drift)\<^sup>*\<^sup>* (empty_cluster s t) cu" "invar s"
  shows "cluster_ok drift cu"
  using assms(1)
proof (induction rule: rtranclp_induct)
  case base
  then show ?case using assms(2) by (simp add: cluster_ok_def empty_cluster_def)
qed (rule cluster_step_ok)

lemma mutual_exclusion:
  assumes run: "(cluster_step B env_ok begins ends ident grain drift)\<^sup>*\<^sup>* (empty_cluster s t) cu" "invar s"
    and ij: "i < length (cu_members cu)" "j < length (cu_members cu)"
    and m: "mi = cu_members cu ! i" "mj = cu_members cu ! j" "\<not> mb_released mi" "\<not> mb_released mj"
    and key: "ident (rec_Key (mb_record mi)) = ident (rec_Key (mb_record mj))"
    and poll: "cu_time cu \<le> b" "reading (mb_skew mi) drift b ci" "reading (mb_skew mj) drift b cj"
    and active: "fst (handle_State ci (mb_handle mi)) = StateActive" "fst (handle_State cj (mb_handle mj)) = StateActive"
  shows "i = j \<and> live (cu_store cu) b (ident (rec_Key (mb_record mi))) = Some (member_holder mi)"
proof -
  note ok = cluster_steps_ok [OF run]
  have "live (cu_store cu) b (ident (rec_Key (mb_record mi))) = Some (member_holder mi)"
    "live (cu_store cu) b (ident (rec_Key (mb_record mj))) = Some (member_holder mj)"
    using cluster_okD(1) [OF ok ij(1)] cluster_okD(1) [OF ok ij(2)] world_ok_admits [of _ "mb_record mi" "mb_skew mi" drift "member_world cu mi" b ci]
      world_ok_admits [of _ "mb_record mj" "mb_skew mj" drift "member_world cu mj" b cj] m poll active
    by (auto simp: member_ok_def member_holder_def)
  moreover from this key have "rec_Token (mb_record mi) = rec_Token (mb_record mj)" by (simp add: member_holder_def)
  ultimately show ?thesis using ok ij m(1,2) key unfolding cluster_ok_def by (metis linorder_neqE_nat)
qed

end

section \<open>Mutual exclusion\<close>

text \<open>
  C1: Mutual exclusion over PostgreSQL. Start from any well-formed tables with no handles and
  let any number of processes acquire, poll, renew, validate and release, with overlapping
  statements reading any snapshots, answers that are lost or come late, processes that stop,
  and other clients calling the store. At every moment at most one handle of a digest that
  has not started a release reports active, and its owner and token hold the lease then.
  Every process needs a safety margin that covers the drift of its clock and one
  millisecond of truncation.
\<close>

theorem pg_mutual_exclusion:
  assumes "(cluster_step pg_backend pg_env_ok (\<lambda>e. pg_instant (pg_begin e)) (\<lambda>e. pg_instant (pg_end e)) pg_digest 1000000 drift)\<^sup>*\<^sup>*
      (empty_cluster s t) cu" and "pg_invar s"
    and "i < length (cu_members cu)" and "j < length (cu_members cu)" and "mi = cu_members cu ! i" and "mj = cu_members cu ! j"
    and "\<not> mb_released mi" and "\<not> mb_released mj" and "pg_digest (rec_Key (mb_record mi)) = pg_digest (rec_Key (mb_record mj))"
    and "cu_time cu \<le> b" and "reading (mb_skew mi) drift b ci" and "reading (mb_skew mj) drift b cj"
    and "fst (handle_State ci (mb_handle mi)) = StateActive" and "fst (handle_State cj (mb_handle mj)) = StateActive"
  shows "i = j \<and> pg_live (cu_store cu) b (pg_digest (rec_Key (mb_record mi))) = Some (member_holder mi)"
  by (rule lease_timing.mutual_exclusion [OF pgt.lease_timing_axioms assms])

text \<open>
  C3: Mutual exclusion over Valkey, on any server with the documented behaviour: the same,
  with two milliseconds of truncation.
\<close>

theorem valkey_mutual_exclusion:
  assumes "valkey_server S hash_at count_at"
    and "(cluster_step (valkey_backend S prefix) valkey_env_ok (\<lambda>e. valkey_instant (vk_now e)) (\<lambda>e. valkey_instant (vk_now e))
      key_digest 2000000 drift)\<^sup>*\<^sup>* (empty_cluster s t) cu" and "valkey_invar hash_at count_at prefix s"
    and "i < length (cu_members cu)" and "j < length (cu_members cu)" and "mi = cu_members cu ! i" and "mj = cu_members cu ! j"
    and "\<not> mb_released mi" and "\<not> mb_released mj" and "key_digest (rec_Key (mb_record mi)) = key_digest (rec_Key (mb_record mj))"
    and "cu_time cu \<le> b" and "reading (mb_skew mi) drift b ci" and "reading (mb_skew mj) drift b cj"
    and "fst (handle_State ci (mb_handle mi)) = StateActive" and "fst (handle_State cj (mb_handle mj)) = StateActive"
  shows "i = j \<and> valkey_live hash_at prefix (cu_store cu) b (key_digest (rec_Key (mb_record mi))) = Some (member_holder mi)"
  by (rule lease_timing.mutual_exclusion [OF valkey_lease.timing_contract [OF valkey_lease.intro [OF assms(1)]] assms(2-)])

text \<open>
  Mutual exclusion over the memory store, where leases last exactly their TTL.
\<close>

theorem memory_mutual_exclusion:
  assumes "(cluster_step memory_backend (\<lambda>_. True) mem_now mem_now key_String 0 drift)\<^sup>*\<^sup>* (empty_cluster s t) cu"
    and "memory_invar s"
    and "i < length (cu_members cu)" and "j < length (cu_members cu)" and "mi = cu_members cu ! i" and "mj = cu_members cu ! j"
    and "\<not> mb_released mi" and "\<not> mb_released mj" and "key_String (rec_Key (mb_record mi)) = key_String (rec_Key (mb_record mj))"
    and "cu_time cu \<le> b" and "reading (mb_skew mi) drift b ci" and "reading (mb_skew mj) drift b cj"
    and "fst (handle_State ci (mb_handle mi)) = StateActive" and "fst (handle_State cj (mb_handle mj)) = StateActive"
  shows "i = j \<and> memory_live (cu_store cu) b (key_String (rec_Key (mb_record mi))) = Some (member_holder mi)"
  by (rule lease_timing.mutual_exclusion [OF memt.lease_timing_axioms assms])

section \<open>Witnesses\<close>

text \<open>Two processes that acquire one after the other.\<close>

definition ex_pair :: "Record \<Rightarrow> instant \<Rightarrow> Record \<Rightarrow> instant \<Rightarrow> 's \<Rightarrow> instant \<Rightarrow> 's cluster" where
  "ex_pair r1 t1 r2 t2 s t = \<lparr>cu_members = [new_member ex_policy r1 t1 t1 0, new_member ex_policy r2 t2 t2 0], cu_store = s, cu_time = t\<rparr>"

lemma ex_pair_reached:
  assumes "env_ok e1" "env_ok e2" "begins e1 = t1" "begins e2 = t2" "ends e1 \<le> t2"
    and "backend_call B e1 (CallAcquire k ow1 (TTL ex_policy)) s = (Got r1, s1)"
    and "backend_call B e2 (CallAcquire k ow2 (TTL ex_policy)) s1 = (Got r2, s2)"
    and "grain \<le> 1000000000"
  shows "(cluster_step B env_ok begins ends ident grain 0)\<^sup>*\<^sup>* (empty_cluster s t1) (ex_pair r1 t1 r2 t2 s2 (ends e2))"
proof -
  let ?st = "cluster_step B env_ok begins ends ident grain 0"
  let ?one = "\<lparr>cu_members = [new_member ex_policy r1 t1 t1 0], cu_store = s1, cu_time = ends e1\<rparr>"
  have p: "wf_Policy ex_policy" "grain + 0 \<le> sint (SafetyMargin ex_policy)" using assms(8) by simp_all
  have "?st (empty_cluster s t1) ?one"
    using cluster_step.join [of env_ok e1 "empty_cluster s t1" begins t1 0 ex_policy grain 0 B k ow1 r1 s1 ends ident t1] assms p
    by (simp add: empty_cluster_def)
  moreover have "?st ?one (ex_pair r1 t1 r2 t2 s2 (ends e2))"
    using cluster_step.join [of env_ok e2 ?one begins t2 0 ex_policy grain 0 B k ow2 r2 s2 ends ident t2] assms p
    by (simp add: ex_pair_def)
  ultimately show ?thesis by simp
qed

lemma ex_pair_second:
  "length (cu_members (ex_pair r1 t1 r2 t2 s t)) = 2" "mb_record (cu_members (ex_pair r1 t1 r2 t2 s t) ! Suc 0) = r2"
  "\<not> mb_released (cu_members (ex_pair r1 t1 r2 t2 s t) ! Suc 0)" "mb_skew (cu_members (ex_pair r1 t1 r2 t2 s t) ! Suc 0) = 0"
  "cu_time (ex_pair r1 t1 r2 t2 s t) = t" "cu_store (ex_pair r1 t1 r2 t2 s t) = s"
  "b < t2 + 4000000000 \<Longrightarrow> fst (handle_State (ex_clocks b) (mb_handle (cu_members (ex_pair r1 t1 r2 t2 s t) ! Suc 0))) = StateActive"
  "reading 0 0 b (ex_clocks b)"
  by (simp_all add: ex_pair_def new_member_def ex_clocks_def handle_State_def expireLocked_def newHandleAt_def Let_def time_Add_def reading_def)

lemma ex_successor:
  "\<exists>db. pg_TryAcquire (ex_penv 6000000 None) ex_pkey ''y'' (5 * Second) ex_tables1 = (Inr (ex_precord ''y'' 3 6000000 11000000), db)"
  using ex_valid(1) ex_text
  by (simp add: pg_TryAcquire_def query_row_def acquireSQL_def next_fence_def max_bigint_def Let_def row_check_def snapshot_def
      recordFromValues_def ex_tables1_def ex_row_def ex_precord_def duration_Milliseconds_def interval_ms_def)

theorem pg_mutual_exclusion_witness:
  "pg_live (snd (pg_TryAcquire (ex_penv 6000000 None) ex_pkey ''y'' (5 * Second) ex_tables1)) 7000000000 (pg_digest ex_pkey) = Some (''y'', 3)"
proof -
  obtain db where got: "pg_TryAcquire (ex_penv 6000000 None) ex_pkey ''y'' (5 * Second) ex_tables1 = (Inr (ex_precord ''y'' 3 6000000 11000000), db)"
    using ex_successor by blast
  let ?cu = "ex_pair (ex_precord ''y'' 2 1000 5001000) 1000000 (ex_precord ''y'' 3 6000000 11000000) 6000000000 db 6000000000"
  have "(cluster_step pg_backend pg_env_ok (\<lambda>e. pg_instant (pg_begin e)) (\<lambda>e. pg_instant (pg_end e)) pg_digest 1000000 0)\<^sup>*\<^sup>*
      (empty_cluster ex_tables 1000000) ?cu"
    using ex_pair_reached [of pg_env_ok "ex_penv 1000 None" "ex_penv 6000000 None" "\<lambda>e. pg_instant (pg_begin e)" 1000000 6000000000
        "\<lambda>e. pg_instant (pg_end e)" pg_backend ex_pkey "''y''" ex_tables "ex_precord ''y'' 2 1000 5001000" ex_tables1 "''y''"
        "ex_precord ''y'' 3 6000000 11000000" db 1000000 pg_digest] ex_acquired got
    by (simp add: pg_instant_def)
  then show ?thesis
    using pg_mutual_exclusion [of 0 ex_tables 1000000 ?cu "Suc 0" "Suc 0" "cu_members ?cu ! Suc 0" "cu_members ?cu ! Suc 0" 7000000000 "ex_clocks 7000000000" "ex_clocks 7000000000"]
      ex_tables_invar got
    by (simp add: member_holder_def ex_pair_second) (simp add: ex_precord_def)
qed

lemma ex_space1_lapsed:
  "valkey_invar space_hash space_count ''app'' ex_space1"
  "valkey_live space_hash ''app'' ex_space1 (time_UnixMilli 7000) (key_digest ex_vkey) = None"
  "valkey_fence space_count ''app'' ex_space1 (key_digest ex_vkey) = 2"
proof -
  have ok: "valkey_env_ok (ex_exchange 1000)" by (simp add: ex_exchange_ok)
  show "valkey_invar space_hash space_count ''app'' ex_space1"
    using refvk.lease.invar_call [OF ok ex_space_invar, of "CallAcquire ex_vkey ''y'' (5 * Second)" _ ex_space1] ex_space1_got
    by (simp add: valkey_backend_def)
  from ex_space_invar ok ex_space1_got
  have "valkey_live space_hash ''app'' ex_space1 (time_UnixMilli 7000) (key_digest ex_vkey) = None \<and>
      valkey_fence space_count ''app'' ex_space1 (key_digest ex_vkey) = 2"
  proof (cases rule: refvk.valkey_acquire_cases)
    case (installed c h x)
    then show ?thesis
      by (simp add: valkey_live_def live_hash_def valkey_fence_def ex_exchange_def valkey_ms_def time_UnixMilli_def ex_space_def)
  qed simp
  then show "valkey_live space_hash ''app'' ex_space1 (time_UnixMilli 7000) (key_digest ex_vkey) = None"
    "valkey_fence space_count ''app'' ex_space1 (key_digest ex_vkey) = 2" by simp_all
qed

lemma ex_vsuccessor:
  "\<exists>v. valkey_TryAcquire ref_valkey ''app'' (ex_exchange 7000) ex_vkey ''y'' (5 * Second) ex_space1 = (Inr (ex_vrecord ''y'' 3 7000 12000), v)"
proof -
  have e: "vk_now (ex_exchange 7000) = 7000000" "vk_fate (ex_exchange 7000) = Delivered" "vk_ctx (ex_exchange 7000) = vk_ctx (ex_exchange 1000)"
    "valkey_instant 7000000 = time_UnixMilli 7000"
    by (simp_all add: ex_exchange_def valkey_instant_def time_UnixMilli_def)
  then show ?thesis
    using refvk.acquire_vacant [OF ex_space1_lapsed(1) ex_exchange_ok [of 7000] e(2), of ex_vkey "''y''" "5 * Second"] ex_space_vacant(1)
      ex_space1_lapsed(2,3)
    by (cases "valkey_TryAcquire ref_valkey ''app'' (ex_exchange 7000) ex_vkey ''y'' (5 * Second) ex_space1") (simp add: ex_vrecord_def)
qed

theorem valkey_mutual_exclusion_witness:
  "valkey_live space_hash ''app'' (snd (valkey_TryAcquire ref_valkey ''app'' (ex_exchange 7000) ex_vkey ''y'' (5 * Second) ex_space1))
     (time_UnixMilli 8000) (key_digest ex_vkey) = Some (''y'', 3)"
proof -
  obtain v where got: "valkey_TryAcquire ref_valkey ''app'' (ex_exchange 7000) ex_vkey ''y'' (5 * Second) ex_space1 = (Inr (ex_vrecord ''y'' 3 7000 12000), v)"
    using ex_vsuccessor by blast
  let ?cu = "ex_pair (ex_vrecord ''y'' 2 1000 6000) (time_UnixMilli 1000) (ex_vrecord ''y'' 3 7000 12000) (time_UnixMilli 7000) v (time_UnixMilli 7000)"
  have now: "valkey_instant (vk_now (ex_exchange 1000)) = time_UnixMilli 1000" "valkey_instant (vk_now (ex_exchange 7000)) = time_UnixMilli 7000"
    "time_UnixMilli 1000 \<le> time_UnixMilli 7000" "time_UnixMilli 7000 \<le> time_UnixMilli 8000" "time_UnixMilli 8000 < time_UnixMilli 7000 + 4000000000"
    by (simp_all add: ex_exchange_def valkey_instant_def time_UnixMilli_def)
  have "(cluster_step (valkey_backend ref_valkey ''app'') valkey_env_ok (\<lambda>e. valkey_instant (vk_now e)) (\<lambda>e. valkey_instant (vk_now e))
      key_digest 2000000 0)\<^sup>*\<^sup>* (empty_cluster ex_space (time_UnixMilli 1000)) ?cu"
    using ex_pair_reached [of valkey_env_ok "ex_exchange 1000" "ex_exchange 7000" "\<lambda>e. valkey_instant (vk_now e)" "time_UnixMilli 1000" "time_UnixMilli 7000"
        "\<lambda>e. valkey_instant (vk_now e)" "valkey_backend ref_valkey ''app''" ex_vkey "''y''" ex_space "ex_vrecord ''y'' 2 1000 6000"
        ex_space1 "''y''" "ex_vrecord ''y'' 3 7000 12000" v 2000000 key_digest] ex_space1_got got ex_exchange_ok
      now by simp
  then show ?thesis
    using valkey_mutual_exclusion [OF refvk.valkey_server_axioms, of "''app''" 0 ex_space "time_UnixMilli 1000" ?cu "Suc 0" "Suc 0"
        "cu_members ?cu ! Suc 0" "cu_members ?cu ! Suc 0" "time_UnixMilli 8000" "ex_clocks (time_UnixMilli 8000)" "ex_clocks (time_UnixMilli 8000)"] ex_space_invar got now(4,5)
    by (simp add: member_holder_def ex_pair_second) (simp add: ex_vrecord_def)
qed

text \<open>
  The theorems exclude handles that have started a release, and must: a handle keeps
  reporting active until the answer of its release arrives, while the backend may already
  have given the key to another process.
\<close>

lemma release_window:
  "\<exists>cu. (cluster_step memory_backend (\<lambda>_. True) mem_now mem_now key_String 0 0)\<^sup>*\<^sup>* (empty_cluster ex_store 10) cu \<and>
     length (cu_members cu) = 2 \<and> mb_released (cu_members cu ! 0) \<and> cu_time cu = 40 \<and>
     memory_live (cu_store cu) 50 (key_String ex_key) = Some (member_holder (cu_members cu ! 1)) \<and>
     (\<forall>m \<in> set (cu_members cu). mb_skew m = 0 \<and> rec_Key (mb_record m) = ex_key \<and>
        fst (handle_State (ex_clocks 50) (mb_handle m)) = StateActive)"
proof -
  let ?st = "cluster_step memory_backend (\<lambda>_. True) mem_now mem_now key_String 0 0"
  let ?r1 = "ex_record ''x'' 1 10 5000000010" and ?r2 = "ex_record ''y'' 2 40 5000000040"
  define s1 where "s1 = snd (memory_TryAcquire (ex_env 10) ex_key ''x'' (5 * Second) ex_store)"
  define s2 where "s2 = snd (memory_Release (ex_env 30) ?r1 s1)"
  define s3 where "s3 = snd (memory_TryAcquire (ex_env 40) ex_key ''y'' (5 * Second) s2)"
  let ?m = "new_member ex_policy ?r1 10 10 0"
  let ?c1 = "\<lparr>cu_members = [?m], cu_store = s1, cu_time = 10\<rparr>"
  let ?h = "(mb_handle ?m)\<lparr>h_busy := True\<rparr>"
  let ?m1 = "?m\<lparr>mb_handle := ?h, mb_flights := [(FRelease ?r1, None)], mb_released := True\<rparr>"
  let ?m2 = "?m1\<lparr>mb_flights := [(FRelease ?r1, Some (ErrorResponse None))]\<rparr>"
  let ?c2 = "\<lparr>cu_members = [?m1], cu_store = s1, cu_time = 20\<rparr>"
  let ?c3 = "\<lparr>cu_members = [?m2], cu_store = s2, cu_time = 30\<rparr>"
  let ?c4 = "\<lparr>cu_members = [?m2, new_member ex_policy ?r2 40 40 0], cu_store = s3, cu_time = 40\<rparr>"
  have got: "memory_TryAcquire (ex_env 10) ex_key ''x'' (5 * Second) ex_store = (Inr ?r1, s1)"
    "memory_Release (ex_env 30) ?r1 s1 = (None, s2)" "memory_TryAcquire (ex_env 40) ex_key ''y'' (5 * Second) s2 = (Inr ?r2, s3)"
    unfolding prod_eq_iff s1_def s2_def s3_def by (rule conjI, code_simp, simp)+
  have now: "mem_now (ex_env x) = x" for x by (simp add: ex_env_def)
  have "?st (empty_cluster ex_store 10) ?c1"
    using cluster_step.join [of "\<lambda>_. True" "ex_env 10" "empty_cluster ex_store 10" mem_now 10 0 ex_policy 0 0 memory_backend ex_key "''x''"
        ?r1 s1 mem_now key_String 10] got(1) by (simp add: empty_cluster_def now)
  moreover have "?st ?c1 ?c2"
    using cluster_step.begin_request [of 0 ?c1 ?m 20 20 0 "ex_clocks 20" "ex_clocks 20" RqRelease "FRelease ?r1" ?h memory_backend
        "\<lambda>_. True" mem_now mem_now key_String 0]
    by (simp add: new_member_def newHandleAt_def Let_def release_begin_def reading_def ex_clocks_def put_def)
  moreover have "?st ?c2 ?c3"
    using cluster_step.execute [of 0 ?c2 ?m1 "FRelease ?r1" "\<lambda>_. True" "ex_env 30" mem_now memory_backend Done s2 mem_now key_String 0 0] got(2)
    by (simp add: now put_def)
  moreover have "?st ?c3 ?c4"
    using cluster_step.join [of "\<lambda>_. True" "ex_env 40" ?c3 mem_now 40 0 ex_policy 0 0 memory_backend ex_key "''y''"
        ?r2 s3 mem_now key_String 40] got(3) by (simp add: now)
  ultimately have run: "?st\<^sup>*\<^sup>* (empty_cluster ex_store 10) ?c4" by (meson converse_rtranclp_into_rtranclp r_into_rtranclp)
  have live: "memory_live s3 50 (key_String ex_key) = Some (''y'', 2)"
    unfolding s3_def s2_def s1_def by code_simp
  show ?thesis
    by (rule exI [of _ ?c4]) (use run live in \<open>simp add: new_member_def member_holder_def ex_record_def handle_State_def expireLocked_def
        newHandleAt_def Let_def time_Add_def ex_clocks_def\<close>)
qed

end
