(* ===== verification/Acquire_Pool.thy ===== *)
theory Acquire_Pool
  imports Lease_Cluster
begin

text \<open>
  Concurrent calls of one client. \<^verbatim>\<open>Client.Acquire\<close> runs in any number of goroutines at once:
  each call reserves a waiter slot, asks for an owner, and then alternates backend calls and
  sleeps until it returns and gives the slot back. The steps of all calls interleave with one
  another, with \<^verbatim>\<open>Client.TryAcquire\<close>, with the handles handed out so far and with other
  processes on the same backend.
\<close>

section \<open>One turn of the retry loop\<close>

text \<open>
  The body of the loop up to the sleep, and the sleep. No result means that the call goes on:
  to the sleep, and from the sleep to the next attempt.
\<close>

definition acquire_attempt ::
  "('e, 's) Backend \<Rightarrow> Key \<Rightarrow> string \<Rightarrow> Policy \<Rightarrow> instant \<Rightarrow> 'e attempt \<Rightarrow> uint32 \<Rightarrow> 's \<Rightarrow> Handle result option \<times> 's" where
  "acquire_attempt B key owner policy deadline a attempt0 s =
     (case be_TryAcquire B (at_env a) key owner (TTL policy) s of
        (Inr record0, s1) \<Rightarrow>
          if \<not> validAcquisition key owner record0
          then (Some (Inl (Wrap (Sentinel ErrAmbiguousOutcome) ''acquire response'')), s1)
          else (Some (Inr (newHandleAt policy record0 (clk_now (at_clocks a)) (clk_wall (at_clocks a)))), s1)
      | (Inl acquireErr, s1) \<Rightarrow>
          if waitDeadlineReached (at_ctxErr a) (wait_error policy (at_ctxErr a) (at_waitErr a))
          then (Some (Inl (Wrap (Sentinel ErrTimeout) ''acquire'')), s1)
          else if \<not> isContention acquireErr then (Some (Inl acquireErr), s1)
          else
            let delay = Retry policy + boundedJitter (at_jitter a) (Jitter policy)
            in if Wait policy = 0 \<or> attempt0 = policy_MaxAttempts policy \<or> \<not> time_Add (at_now a) delay < deadline
               then (Some (Inl (Wrap (Sentinel ErrTimeout) ''acquire'')), s1)
               else (None, s1))"

definition acquire_sleep :: "Policy \<Rightarrow> 'e attempt \<Rightarrow> Handle result option" where
  "acquire_sleep policy a =
     (case at_sleep a of
        None \<Rightarrow> None
      | Some sleepErr \<Rightarrow>
          if waitDeadlineReached (at_ctxErr2 a) (wait_error policy (at_ctxErr2 a) (at_waitErr2 a))
          then Some (Inl (Wrap (Sentinel ErrTimeout) ''acquire''))
          else Some (Inl (Wrap (Sentinel ErrCanceled) ''acquire'')))"

lemma acquire_loop_turn:
  "acquire_loop B key owner policy deadline env attempt0 s =
     (case acquire_attempt B key owner policy deadline (env attempt0) attempt0 s of
        (Some res, s1) \<Rightarrow> (res, s1)
      | (None, s1) \<Rightarrow>
          (case acquire_sleep policy (env attempt0) of
             Some res \<Rightarrow> (res, s1)
           | None \<Rightarrow> acquire_loop B key owner policy deadline env (attempt0 + 1) s1))"
  by (subst acquire_loop.simps)
    (simp add: acquire_attempt_def acquire_sleep_def Let_def split: prod.split sum.split option.split)

section \<open>Calls in progress\<close>

datatype acquire_phase =
    Reserved
  | Attempting string instant uint32
  | Delaying string instant uint32
  | Returned "Handle result"

text \<open>A call of \<^verbatim>\<open>Acquire\<close>; \<open>aq_calls\<close> counts the backend calls it has made.\<close>

record acquirer =
  aq_key :: Key
  aq_policy :: Policy
  aq_phase :: acquire_phase
  aq_calls :: nat

definition acquirer_at :: "Key \<Rightarrow> Policy \<Rightarrow> acquire_phase \<Rightarrow> nat \<Rightarrow> acquirer" where
  "acquirer_at key policy ph n = \<lparr>aq_key = key, aq_policy = policy, aq_phase = ph, aq_calls = n\<rparr>"

fun holds_slot :: "acquirer \<Rightarrow> bool" where
  "holds_slot q \<longleftrightarrow> (case aq_phase q of Returned res \<Rightarrow> False | _ \<Rightarrow> True)"

record 's pool =
  po_client :: Client
  po_skew :: int
  po_acquirers :: "acquirer list"
  po_cluster :: "'s cluster"

text \<open>The two channel operations on the waiter slots, and a change of one call.\<close>

definition take_slot :: "'s pool \<Rightarrow> 's pool" where
  "take_slot po = po\<lparr>po_client := (po_client po)\<lparr>cl_waiters := cl_waiters (po_client po) + 1\<rparr>\<rparr>"

definition give_slot :: "'s pool \<Rightarrow> 's pool" where
  "give_slot po = po\<lparr>po_client := (po_client po)\<lparr>cl_waiters := cl_waiters (po_client po) - 1\<rparr>\<rparr>"

definition called :: "acquirer \<Rightarrow> 's pool \<Rightarrow> 's pool" where
  "called q po = po\<lparr>po_acquirers := po_acquirers po @ [q]\<rparr>"

definition turns :: "nat \<Rightarrow> acquirer \<Rightarrow> 's pool \<Rightarrow> 's pool" where
  "turns i q po = po\<lparr>po_acquirers := (po_acquirers po)[i := q]\<rparr>"

text \<open>
  The effect of a backend call on the cluster: the store and the time move on, and a handle
  that was returned becomes a member.
\<close>

definition handle_member :: "int \<Rightarrow> Handle \<Rightarrow> member" where
  "handle_member skew h = \<lparr>mb_record = h_record h, mb_skew = skew, mb_handle = h, mb_flights = [], mb_released = False\<rparr>"

definition store_moves :: "'s \<Rightarrow> instant \<Rightarrow> Handle result option \<Rightarrow> 's pool \<Rightarrow> 's pool" where
  "store_moves s1 t res po = po\<lparr>po_cluster := (po_cluster po)\<lparr>
     cu_members := cu_members (po_cluster po) @
       (case res of Some (Inr h) \<Rightarrow> [handle_member (po_skew po) h] | _ \<Rightarrow> []),
     cu_store := s1, cu_time := t\<rparr>\<rparr>"

text \<open>Policies that \<^verbatim>\<open>NewPolicy\<close> accepts and whose safety margin covers the clocks; every call of a pool uses one.\<close>

definition covers :: "int \<Rightarrow> int \<Rightarrow> Policy \<Rightarrow> bool" where
  "covers grain drift policy \<longleftrightarrow> wf_Policy policy \<and> grain + drift \<le> sint (SafetyMargin policy)"

inductive pool_step ::
  "('e, 's) Backend \<Rightarrow> ('e \<Rightarrow> bool) \<Rightarrow> ('e \<Rightarrow> instant) \<Rightarrow> ('e \<Rightarrow> instant) \<Rightarrow> (Key \<Rightarrow> 'i) \<Rightarrow>
   int \<Rightarrow> int \<Rightarrow> 's pool \<Rightarrow> 's pool \<Rightarrow> bool"
  for B env_ok begins ends ident grain drift where
  refused: "acquisitionContextError ctx = Some err \<Longrightarrow>
    pool_step B env_ok begins ends ident grain drift po (called (acquirer_at key policy (Returned (Inl err)) 0) po)"
| full: "acquisitionContextError ctx = None \<Longrightarrow> cl_waiters (po_client po) \<ge> cl_maxWaiters (po_client po) \<Longrightarrow>
    pool_step B env_ok begins ends ident grain drift po
      (called (acquirer_at key policy (Returned (Inl (Wrap (Sentinel ErrBackendUnavailable) ''waiter capacity''))) 0) po)"
| reserved: "acquisitionContextError ctx = None \<Longrightarrow> cl_waiters (po_client po) < cl_maxWaiters (po_client po) \<Longrightarrow>
    covers grain drift policy \<Longrightarrow>
    pool_step B env_ok begins ends ident grain drift po (take_slot (called (acquirer_at key policy Reserved 0) po))"
| unowned: "i < length (po_acquirers po) \<Longrightarrow> po_acquirers po ! i = acquirer_at key policy Reserved n \<Longrightarrow> \<not> valid_owner newOwner \<Longrightarrow>
    pool_step B env_ok begins ends ident grain drift po
      (give_slot (turns i (acquirer_at key policy (Returned (Inl (Wrap (Sentinel ErrBackendUnavailable) ''owner generation''))) n) po))"
| owned: "i < length (po_acquirers po) \<Longrightarrow> po_acquirers po ! i = acquirer_at key policy Reserved n \<Longrightarrow> valid_owner (Inr owner) \<Longrightarrow>
    pool_step B env_ok begins ends ident grain drift po
      (turns i (acquirer_at key policy (Attempting owner (time_Add started (Wait policy)) 1) n) po)"
| attempted: "i < length (po_acquirers po) \<Longrightarrow> po_acquirers po ! i = acquirer_at key policy (Attempting owner deadline m) n \<Longrightarrow>
    env_ok (at_env a) \<Longrightarrow> cu_time (po_cluster po) \<le> begins (at_env a) \<Longrightarrow>
    clk_wall (at_clocks a) + po_skew po \<le> begins (at_env a) \<Longrightarrow>
    acquire_attempt B key owner policy deadline a m (cu_store (po_cluster po)) = (Some res, s1) \<Longrightarrow>
    pool_step B env_ok begins ends ident grain drift po
      (give_slot (turns i (acquirer_at key policy (Returned res) (n + 1)) (store_moves s1 (ends (at_env a)) (Some res) po)))"
| contended: "i < length (po_acquirers po) \<Longrightarrow> po_acquirers po ! i = acquirer_at key policy (Attempting owner deadline m) n \<Longrightarrow>
    env_ok (at_env a) \<Longrightarrow> cu_time (po_cluster po) \<le> begins (at_env a) \<Longrightarrow>
    clk_wall (at_clocks a) + po_skew po \<le> begins (at_env a) \<Longrightarrow>
    acquire_attempt B key owner policy deadline a m (cu_store (po_cluster po)) = (None, s1) \<Longrightarrow>
    pool_step B env_ok begins ends ident grain drift po
      (turns i (acquirer_at key policy (Delaying owner deadline m) (n + 1)) (store_moves s1 (ends (at_env a)) None po))"
| woken: "i < length (po_acquirers po) \<Longrightarrow> po_acquirers po ! i = acquirer_at key policy (Delaying owner deadline m) n \<Longrightarrow>
    acquire_sleep policy (a :: 'e attempt) = None \<Longrightarrow>
    pool_step B env_ok begins ends ident grain drift po (turns i (acquirer_at key policy (Attempting owner deadline (m + 1)) n) po)"
| unslept: "i < length (po_acquirers po) \<Longrightarrow> po_acquirers po ! i = acquirer_at key policy (Delaying owner deadline m) n \<Longrightarrow>
    acquire_sleep policy (a :: 'e attempt) = Some res \<Longrightarrow>
    pool_step B env_ok begins ends ident grain drift po (give_slot (turns i (acquirer_at key policy (Returned res) n) po))"
| tried: "env_ok e \<Longrightarrow> cu_time (po_cluster po) \<le> begins e \<Longrightarrow> clk_wall c + po_skew po \<le> begins e \<Longrightarrow> covers grain drift policy \<Longrightarrow>
    valid_owner newOwner \<Longrightarrow> client_TryAcquire B (Some None) newOwner c e key policy (cu_store (po_cluster po)) = (res, s1) \<Longrightarrow>
    pool_step B env_ok begins ends ident grain drift po (store_moves s1 (ends e) (Some res) po)"
| elsewhere: "cluster_step B env_ok begins ends ident grain drift (po_cluster po) cu \<Longrightarrow>
    pool_step B env_ok begins ends ident grain drift po (po\<lparr>po_cluster := cu\<rparr>)"

definition new_pool :: "Client \<Rightarrow> int \<Rightarrow> 's \<Rightarrow> instant \<Rightarrow> 's pool" where
  "new_pool cl skew s t = \<lparr>po_client = cl, po_skew = skew, po_acquirers = [], po_cluster = empty_cluster s t\<rparr>"

section \<open>The waiter slots\<close>

text \<open>
  A call in progress has made one backend call per attempt before the current one, and its
  attempt counter never passes the policy's bound.
\<close>

definition acquirer_ok :: "int \<Rightarrow> int \<Rightarrow> acquirer \<Rightarrow> bool" where
  "acquirer_ok grain drift q \<longleftrightarrow> (holds_slot q \<longrightarrow> covers grain drift (aq_policy q)) \<and>
     (case aq_phase q of
        Reserved \<Rightarrow> aq_calls q = 0
      | Attempting owner deadline m \<Rightarrow> aq_calls q + 1 = unat m \<and> unat m \<le> unat (policy_MaxAttempts (aq_policy q))
      | Delaying owner deadline m \<Rightarrow> aq_calls q = unat m \<and> unat m < unat (policy_MaxAttempts (aq_policy q))
      | Returned res \<Rightarrow> aq_calls q \<le> unat (policy_MaxAttempts (aq_policy q)))"

definition pool_ok :: "int \<Rightarrow> int \<Rightarrow> nat \<Rightarrow> 's pool \<Rightarrow> bool" where
  "pool_ok grain drift capacity po \<longleftrightarrow> cl_waiters (po_client po) = length (filter holds_slot (po_acquirers po)) \<and>
     cl_waiters (po_client po) \<le> cl_maxWaiters (po_client po) \<and> cl_maxWaiters (po_client po) = capacity \<and>
     (\<forall>q \<in> set (po_acquirers po). acquirer_ok grain drift q)"

lemmas pool_defs = take_slot_def give_slot_def called_def turns_def store_moves_def

lemma acquirer_at_simps [simp]:
  "aq_key (acquirer_at k p ph n) = k" "aq_policy (acquirer_at k p ph n) = p" "aq_phase (acquirer_at k p ph n) = ph"
  "aq_calls (acquirer_at k p ph n) = n"
  by (simp_all add: acquirer_at_def)

lemma filter_update:
  assumes "i < length xs"
  shows "P (xs ! i) \<Longrightarrow> P q \<Longrightarrow> length (filter P (xs[i := q])) = length (filter P xs)"
    and "P (xs ! i) \<Longrightarrow> \<not> P q \<Longrightarrow> length (filter P (xs[i := q])) = length (filter P xs) - 1"
proof -
  let ?n = "length (filter P (take i xs)) + length (filter P (drop (Suc i) xs))"
  have "length (filter P (xs[i := q])) = ?n + (if P q then 1 else 0)"
    using upd_conv_take_nth_drop [OF assms, of q] by simp
  moreover have "length (filter P xs) = ?n + (if P (xs ! i) then 1 else 0)"
    by (subst (1) id_take_nth_drop [OF assms]) simp
  ultimately show "P (xs ! i) \<Longrightarrow> P q \<Longrightarrow> length (filter P (xs[i := q])) = length (filter P xs)"
    "P (xs ! i) \<Longrightarrow> \<not> P q \<Longrightarrow> length (filter P (xs[i := q])) = length (filter P xs) - 1" by simp_all
qed

lemma pool_ok_called:
  assumes "pool_ok grain drift capacity po" "acquirer_ok grain drift q"
  shows "\<not> holds_slot q \<Longrightarrow> pool_ok grain drift capacity (called q po)"
    and "holds_slot q \<Longrightarrow> cl_waiters (po_client po) < cl_maxWaiters (po_client po) \<Longrightarrow>
      pool_ok grain drift capacity (take_slot (called q po))"
  using assms by (auto simp: pool_ok_def pool_defs simp del: holds_slot.simps)

lemma pool_ok_turns:
  assumes "pool_ok grain drift capacity po" "i < length (po_acquirers po)" "holds_slot (po_acquirers po ! i)" "acquirer_ok grain drift q"
  shows "holds_slot q \<Longrightarrow> pool_ok grain drift capacity (turns i q po)"
    and "\<not> holds_slot q \<Longrightarrow> pool_ok grain drift capacity (give_slot (turns i q po))"
  using assms filter_update [OF assms(2), of holds_slot q] set_update_subset_insert [of "po_acquirers po" i q]
  by (auto simp: pool_ok_def pool_defs simp del: holds_slot.simps)

lemma pool_ok_store [simp]:
  "pool_ok grain drift capacity (store_moves s1 t res po) = pool_ok grain drift capacity po"
  "pool_ok grain drift capacity (po\<lparr>po_cluster := cu\<rparr>) = pool_ok grain drift capacity po"
  by (simp_all add: pool_ok_def store_moves_def)

lemma store_moves_acquirers [simp]: "po_acquirers (store_moves s1 t res po) = po_acquirers po"
  by (simp add: store_moves_def)

lemma pool_okD:
  "pool_ok grain drift capacity po \<Longrightarrow> i < length (po_acquirers po) \<Longrightarrow> acquirer_ok grain drift (po_acquirers po ! i)"
  by (simp add: pool_ok_def)

lemma acquire_attempt_None:
  "acquire_attempt B key owner policy deadline a m s = (None, s1) \<Longrightarrow> m \<noteq> policy_MaxAttempts policy"
  by (auto simp: acquire_attempt_def Let_def split: prod.splits sum.splits if_splits)

lemma next_attempt: "unat (m :: uint32) < unat (x :: uint32) \<Longrightarrow> unat (m + 1) = Suc (unat m)"
  by (rule unat_succ) (use word_order.extremum in \<open>auto simp: word_less_nat_alt [symmetric]\<close>)

lemma pool_step_ok:
  assumes "pool_step B env_ok begins ends ident grain drift po po'" and ok: "pool_ok grain drift capacity po"
  shows "pool_ok grain drift capacity po'"
  using assms(1)
proof cases
  case (refused ctx err key policy)
  then show ?thesis using pool_ok_called(1) [OF ok, of "acquirer_at key policy (Returned (Inl err)) 0"] by (simp add: acquirer_ok_def)
next
  case (full ctx key policy)
  then show ?thesis
    using pool_ok_called(1) [OF ok, of "acquirer_at key policy (Returned (Inl (Wrap (Sentinel ErrBackendUnavailable) ''waiter capacity''))) 0"]
    by (simp add: acquirer_ok_def)
next
  case (reserved ctx policy key)
  then show ?thesis using pool_ok_called(2) [OF ok, of "acquirer_at key policy Reserved 0"] by (simp add: acquirer_ok_def)
next
  case (unowned i key policy n newOwner)
  then show ?thesis using pool_okD [OF ok unowned(2)]
    by (auto intro!: pool_ok_turns(2) [OF ok] simp: acquirer_ok_def)
next
  case (owned i key policy n owner started)
  then show ?thesis using pool_okD [OF ok owned(2)]
    by (auto intro!: pool_ok_turns(1) [OF ok] simp: acquirer_ok_def covers_def wf_Policy_def)
next
  case (attempted i key policy owner deadline m n a res s1)
  then show ?thesis using pool_okD [OF ok attempted(2)]
    by (auto intro!: pool_ok_turns(2) simp: ok acquirer_ok_def)
next
  case (contended i key policy owner deadline m n a s1)
  then show ?thesis using pool_okD [OF ok contended(2)] acquire_attempt_None [OF contended(7)]
    by (auto intro!: pool_ok_turns(1) simp: ok acquirer_ok_def word_unat_eq_iff)
next
  case (woken i key policy owner deadline m n a)
  then show ?thesis using pool_okD [OF ok woken(2)] next_attempt [of m "policy_MaxAttempts policy"]
    by (auto intro!: pool_ok_turns(1) [OF ok] simp: acquirer_ok_def)
next
  case (unslept i key policy owner deadline m n a res)
  then show ?thesis using pool_okD [OF ok unslept(2)]
    by (auto intro!: pool_ok_turns(2) [OF ok] simp: acquirer_ok_def)
next
  case (tried e c policy newOwner key res s1)
  then show ?thesis using ok by simp
next
  case (elsewhere cu)
  then show ?thesis using ok by simp
qed

section \<open>A pool is a cluster\<close>

text \<open>
  Seen from the backend, an attempt that returns a handle is a process that joins, any other
  attempt is a call of an outsider, and everything else changes nothing.
\<close>

lemma join_handle:
  assumes "env_ok e" "cu_time cu \<le> begins e" "clk_wall c + skew \<le> begins e" "covers grain drift policy"
    "be_TryAcquire B e key owner (TTL policy) (cu_store cu) = (Inr r, s1)"
  shows "cluster_step B env_ok begins ends ident grain drift cu
    (cu\<lparr>cu_members := cu_members cu @ [handle_member skew (newHandleAt policy r (clk_now c) (clk_wall c))],
       cu_store := s1, cu_time := ends e\<rparr>)"
  using cluster_step.join [of env_ok e cu begins "clk_wall c" skew policy grain drift B key owner r s1 ends ident "clk_now c"] assms
  by (simp add: covers_def handle_member_def new_member_def newHandleAt_def Let_def)

lemma outside_acquire:
  assumes "env_ok e" "cu_time cu \<le> begins e" "be_TryAcquire B e key owner (TTL policy) (cu_store cu) = (res, s1)"
  shows "cluster_step B env_ok begins ends ident grain drift cu (cu\<lparr>cu_store := s1, cu_time := ends e\<rparr>)"
  using cluster_step.outside [of env_ok e cu begins "CallAcquire key owner (TTL policy)" ident B _ s1 ends grain drift] assms
  by (cases res) simp_all

lemma attempt_cluster:
  assumes "env_ok (at_env a)" "cu_time (po_cluster po) \<le> begins (at_env a)" "clk_wall (at_clocks a) + po_skew po \<le> begins (at_env a)"
    "covers grain drift policy" "acquire_attempt B key owner policy deadline a m (cu_store (po_cluster po)) = (res, s1)"
  shows "cluster_step B env_ok begins ends ident grain drift (po_cluster po) (po_cluster (store_moves s1 (ends (at_env a)) res po))"
proof (cases "be_TryAcquire B (at_env a) key owner (TTL policy) (cu_store (po_cluster po))")
  case (Pair out s2)
  then have s1: "s1 = s2" using assms(5) by (auto simp: acquire_attempt_def Let_def split: sum.splits if_splits)
  show ?thesis
  proof (cases "\<exists>h. res = Some (Inr h)")
    case True
    then obtain r where "out = Inr r" "res = Some (Inr (newHandleAt policy r (clk_now (at_clocks a)) (clk_wall (at_clocks a))))"
      using assms(5) Pair by (auto simp: acquire_attempt_def Let_def split: sum.splits if_splits)
    then show ?thesis
      using join_handle [of env_ok "at_env a" "po_cluster po" begins "at_clocks a" "po_skew po" grain drift policy B key owner r s1 ends ident]
        assms(1-4) Pair s1 by (simp add: store_moves_def)
  next
    case False
    then have "po_cluster (store_moves s1 (ends (at_env a)) res po) = (po_cluster po)\<lparr>cu_store := s1, cu_time := ends (at_env a)\<rparr>"
      by (auto simp: store_moves_def split: option.splits sum.splits)
    then show ?thesis
      using outside_acquire [of env_ok "at_env a" "po_cluster po" begins B key owner policy out s1 ends ident grain drift] assms(1,2) Pair s1 by simp
  qed
qed

lemma try_cluster:
  assumes "env_ok e" "cu_time (po_cluster po) \<le> begins e" "clk_wall c + po_skew po \<le> begins e" "covers grain drift policy"
    "valid_owner newOwner" "client_TryAcquire B (Some None) newOwner c e key policy (cu_store (po_cluster po)) = (res, s1)"
  shows "cluster_step B env_ok begins ends ident grain drift (po_cluster po) (po_cluster (store_moves s1 (ends e) (Some res) po))"
proof -
  obtain owner where owner: "newOwner = Inr owner" using assms(5) by (auto simp: valid_owner_def split: sum.splits)
  obtain out s2 where call: "be_TryAcquire B e key owner (TTL policy) (cu_store (po_cluster po)) = (out, s2)" by fastforce
  then have s1: "s1 = s2" using assms(5,6) owner
    by (auto simp: client_TryAcquire_def acquisitionContextError_def split: sum.splits if_splits)
  show ?thesis
  proof (cases res)
    case (Inr h)
    then obtain r where "out = Inr r" "h = newHandleAt policy r (clk_now c) (clk_wall c)"
      using assms(5,6) call owner by (auto simp: client_TryAcquire_def acquisitionContextError_def split: sum.splits if_splits)
    then show ?thesis
      using join_handle [of env_ok e "po_cluster po" begins c "po_skew po" grain drift policy B key owner r s1 ends ident]
        assms(1-4) call s1 Inr by (simp add: store_moves_def)
  next
    case (Inl err)
    then show ?thesis
      using outside_acquire [of env_ok e "po_cluster po" begins B key owner policy out s1 ends ident grain drift] assms(1,2) call s1
      by (simp add: store_moves_def)
  qed
qed

lemma pool_cluster_same [simp]:
  "po_cluster (take_slot po) = po_cluster po" "po_cluster (give_slot po) = po_cluster po"
  "po_cluster (called q po) = po_cluster po" "po_cluster (turns i q po) = po_cluster po"
  by (simp_all add: pool_defs)

lemma pool_step_cluster:
  assumes "pool_step B env_ok begins ends ident grain drift po po'" and ok: "pool_ok grain drift capacity po"
  shows "(cluster_step B env_ok begins ends ident grain drift)\<^sup>=\<^sup>= (po_cluster po) (po_cluster po')"
  using assms(1)
proof cases
  case (attempted i key policy owner deadline m n a res s1)
  have "covers grain drift policy" using pool_okD [OF ok attempted(2)] attempted(3) by (simp add: acquirer_ok_def)
  then show ?thesis
    using attempt_cluster [of env_ok a po begins grain drift policy B key owner deadline m "Some res" s1 ends ident] attempted by simp
next
  case (contended i key policy owner deadline m n a s1)
  have "covers grain drift policy" using pool_okD [OF ok contended(2)] contended(3) by (simp add: acquirer_ok_def)
  then show ?thesis
    using attempt_cluster [of env_ok a po begins grain drift policy B key owner deadline m None s1 ends ident] contended by simp
next
  case (tried e c policy newOwner key res s1)
  then show ?thesis
    using try_cluster [of env_ok e po begins c grain drift policy newOwner B key res s1 ends ident] by simp
qed simp_all

lemma pool_run:
  assumes "(pool_step B env_ok begins ends ident grain drift)\<^sup>*\<^sup>* (new_pool cl skew s t) po" "cl_waiters cl = 0"
  shows "pool_ok grain drift (cl_maxWaiters cl) po \<and>
    (cluster_step B env_ok begins ends ident grain drift)\<^sup>*\<^sup>* (empty_cluster s t) (po_cluster po)"
  using assms(1)
proof (induction rule: rtranclp_induct)
  case base
  then show ?case using assms(2) by (simp add: pool_ok_def new_pool_def)
next
  case (step po1 po2)
  have "(cluster_step B env_ok begins ends ident grain drift)\<^sup>=\<^sup>= (po_cluster po1) (po_cluster po2)"
    by (rule pool_step_cluster) (use step in blast)+
  with step show ?case using pool_step_ok by (auto intro: rtranclp.rtrancl_into_rtrancl)
qed

section \<open>A call on its own\<close>

text \<open>
  When one call runs without interruption, the steps of the pool compute what \<open>acquire_loop\<close>
  computes: the same result, the same store and the slot given back.
\<close>

definition attempt_times ::
  "('e \<Rightarrow> bool) \<Rightarrow> ('e \<Rightarrow> instant) \<Rightarrow> ('e \<Rightarrow> instant) \<Rightarrow> int \<Rightarrow> uint32 \<Rightarrow> (uint32 \<Rightarrow> 'e attempt) \<Rightarrow> bool" where
  "attempt_times env_ok begins ends skew limit env \<longleftrightarrow>
     (\<forall>j. env_ok (at_env (env j)) \<and> clk_wall (at_clocks (env j)) + skew \<le> begins (at_env (env j))) \<and>
     (\<forall>j. unat j < unat limit \<longrightarrow> ends (at_env (env j)) \<le> begins (at_env (env (j + 1))))"

definition returns :: "nat \<Rightarrow> Key \<Rightarrow> Policy \<Rightarrow> Handle result \<Rightarrow> 's \<Rightarrow> 's pool \<Rightarrow> 's pool \<Rightarrow> bool" where
  "returns i key policy res s1 po po' \<longleftrightarrow> cu_store (po_cluster po') = s1 \<and>
     (\<exists>k. po_acquirers po' = (po_acquirers po)[i := acquirer_at key policy (Returned res) k]) \<and>
     po_client po' = (po_client po)\<lparr>cl_waiters := cl_waiters (po_client po) - 1\<rparr>"

lemma last_turn:
  assumes at: "i < length (po_acquirers po)" "po_acquirers po ! i = acquirer_at key policy (Attempting owner deadline m) n"
    and a: "env_ok (at_env a)" "cu_time (po_cluster po) \<le> begins (at_env a)" "clk_wall (at_clocks a) + po_skew po \<le> begins (at_env a)"
    and turn: "acquire_attempt B key owner policy deadline a m (cu_store (po_cluster po)) = (Some res, s1)"
  shows "\<exists>po'. (pool_step B env_ok begins ends ident grain drift)\<^sup>*\<^sup>* po po' \<and> returns i key policy res s1 po po'"
proof (intro exI conjI)
  show "(pool_step B env_ok begins ends ident grain drift)\<^sup>*\<^sup>* po
      (give_slot (turns i (acquirer_at key policy (Returned res) (n + 1)) (store_moves s1 (ends (at_env a)) (Some res) po)))"
    using pool_step.attempted [of i po key policy owner deadline m n env_ok a begins B res s1 ends ident grain drift] assms by simp
qed (auto simp: returns_def pool_defs)

lemma sleeping_turn:
  assumes at: "i < length (po_acquirers po)" "po_acquirers po ! i = acquirer_at key policy (Attempting owner deadline m) n"
    and a: "env_ok (at_env a)" "cu_time (po_cluster po) \<le> begins (at_env a)" "clk_wall (at_clocks a) + po_skew po \<le> begins (at_env a)"
    and turn: "acquire_attempt B key owner policy deadline a m (cu_store (po_cluster po)) = (None, s1)"
    and po1: "po1 = turns i (acquirer_at key policy (Delaying owner deadline m) (n + 1)) (store_moves s1 (ends (at_env a)) None po)"
  shows "acquire_sleep policy a = Some res \<Longrightarrow>
      (pool_step B env_ok begins ends ident grain drift)\<^sup>*\<^sup>* po (give_slot (turns i (acquirer_at key policy (Returned res) (n + 1)) po1))"
    and "acquire_sleep policy a = None \<Longrightarrow> (pool_step B env_ok begins ends ident grain drift)\<^sup>*\<^sup>* po
      (turns i (acquirer_at key policy (Attempting owner deadline (m + 1)) (n + 1)) po1)"
proof -
  have first: "pool_step B env_ok begins ends ident grain drift po po1"
    using pool_step.contended [of i po key policy owner deadline m n env_ok a begins B s1 ends ident grain drift] assms by simp
  have sl: "i < length (po_acquirers po1)" "po_acquirers po1 ! i = acquirer_at key policy (Delaying owner deadline m) (n + 1)"
    using at by (simp_all add: po1 pool_defs)
  show "(pool_step B env_ok begins ends ident grain drift)\<^sup>*\<^sup>* po (give_slot (turns i (acquirer_at key policy (Returned res) (n + 1)) po1))"
    if "acquire_sleep policy a = Some res"
    using first pool_step.unslept [OF sl that] by (meson converse_rtranclp_into_rtranclp r_into_rtranclp)
  show "(pool_step B env_ok begins ends ident grain drift)\<^sup>*\<^sup>* po
      (turns i (acquirer_at key policy (Attempting owner deadline (m + 1)) (n + 1)) po1)" if "acquire_sleep policy a = None"
    using first pool_step.woken [OF sl that] by (meson converse_rtranclp_into_rtranclp r_into_rtranclp)
qed

lemma acquire_loop_pool:
  assumes "acquire_loop B key owner policy deadline env m (cu_store (po_cluster po)) = (res, s1)"
    and "i < length (po_acquirers po)" "po_acquirers po ! i = acquirer_at key policy (Attempting owner deadline m) n"
    and "attempt_times env_ok begins ends (po_skew po) (policy_MaxAttempts policy) env" "unat m \<le> unat (policy_MaxAttempts policy)"
    and "cu_time (po_cluster po) \<le> begins (at_env (env m))"
  shows "\<exists>po'. (pool_step B env_ok begins ends ident grain drift)\<^sup>*\<^sup>* po po' \<and> returns i key policy res s1 po po'"
  using assms
proof (induction "unat (policy_MaxAttempts policy) - unat m" arbitrary: m n po rule: less_induct)
  case less
  let ?st = "pool_step B env_ok begins ends ident grain drift" and ?a = "env m"
  have at: "env_ok (at_env ?a)" "clk_wall (at_clocks ?a) + po_skew po \<le> begins (at_env ?a)"
    using less(5) by (simp_all add: attempt_times_def)
  note loop = less(2) [unfolded acquire_loop_turn [of B key owner policy deadline env m]]
  obtain out s2 where turn: "acquire_attempt B key owner policy deadline ?a m (cu_store (po_cluster po)) = (out, s2)" by fastforce
  show ?case
  proof (cases out)
    case (Some res0)
    then show ?thesis
      using last_turn [of i po key policy owner deadline m n env_ok ?a begins B res s1 ends ident grain drift] less(3,4,7) at turn loop by simp
  next
    case None
    let ?po1 = "turns i (acquirer_at key policy (Delaying owner deadline m) (n + 1)) (store_moves s2 (ends (at_env ?a)) None po)"
    let ?po2 = "turns i (acquirer_at key policy (Attempting owner deadline (m + 1)) (n + 1)) ?po1"
    note sleeps = sleeping_turn [where B = B and ends = ends and ident = ident and grain = grain and drift = drift,
        of i po key policy owner deadline m n env_ok ?a begins s2 ?po1]
    have lt: "unat m < unat (policy_MaxAttempts policy)"
      using acquire_attempt_None [OF turn [unfolded None]] less(6) by (simp add: word_unat_eq_iff)
    show ?thesis
    proof (cases "acquire_sleep policy ?a")
      case (Some res0)
      let ?po3 = "give_slot (turns i (acquirer_at key policy (Returned res) (n + 1)) ?po1)"
      have "?st\<^sup>*\<^sup>* po ?po3" using sleeps(1) less(3,4,7) at turn loop None Some by simp
      moreover have "returns i key policy res s1 po ?po3" using turn loop None Some by (auto simp: returns_def pool_defs)
      ultimately show ?thesis by blast
    next
      case asleep: None
      have "\<exists>po'. ?st\<^sup>*\<^sup>* ?po2 po' \<and> returns i key policy res s1 ?po2 po'"
        using loop turn None asleep less(3,5) lt next_attempt [OF lt]
        by (intro less(1) [of "m + 1"]) (auto simp: attempt_times_def pool_defs)
      then obtain po' where "?st\<^sup>*\<^sup>* ?po2 po'" "returns i key policy res s1 po po'" by (auto simp: returns_def pool_defs)
      moreover have "?st\<^sup>*\<^sup>* po ?po2" using sleeps(2) less(3,4,7) at turn None asleep by simp
      ultimately show ?thesis by (meson rtranclp_trans)
    qed
  qed
qed

section \<open>What the pool shows\<close>

lemma NewClient_waiters:
  assumes "NewClient rand True options = Inr cl"
  shows "cl_waiters cl = 0" "0 < cl_maxWaiters cl" "cl_maxWaiters cl \<le> 1000000"
  using assms by (auto simp: NewClient_def Let_def MaxClientWaiters_def word_less_nat_alt unat_gt_0 split: if_splits)

lemma reserved_pool:
  assumes acq: "client_Acquire B cl (Some None) newOwner started env key policy (cu_store (po_cluster po)) = (res, s1)"
    and room: "cl_waiters cl < cl_maxWaiters cl"
    and at: "i < length (po_acquirers po)" "po_acquirers po ! i = acquirer_at key policy Reserved 0"
    and covers: "covers grain drift policy" and times: "attempt_times env_ok begins ends (po_skew po) (policy_MaxAttempts policy) env"
    and now: "cu_time (po_cluster po) \<le> begins (at_env (env 1))"
  shows "\<exists>po'. (pool_step B env_ok begins ends ident grain drift)\<^sup>*\<^sup>* po po' \<and> returns i key policy res s1 po po'"
proof (cases "valid_owner newOwner")
  case False
  let ?po1 = "give_slot (turns i (acquirer_at key policy (Returned res) 0) po)"
  have "pool_step B env_ok begins ends ident grain drift po ?po1" "s1 = cu_store (po_cluster po)"
    using pool_step.unowned [OF at False, of B env_ok begins ends ident grain drift] acq room False
    by (auto simp: client_Acquire_def acquisitionContextError_def)
  then show ?thesis by (intro exI [of _ ?po1] conjI r_into_rtranclp) (auto simp: returns_def pool_defs)
next
  case True
  let ?st = "pool_step B env_ok begins ends ident grain drift"
  obtain owner where owner: "newOwner = Inr owner" using True by (auto simp: valid_owner_def split: sum.splits)
  let ?po1 = "turns i (acquirer_at key policy (Attempting owner (time_Add started (Wait policy)) 1) 0) po"
  have first: "?st po ?po1" using pool_step.owned [OF at] True owner by blast
  have "\<exists>po'. ?st\<^sup>*\<^sup>* ?po1 po' \<and> returns i key policy res s1 ?po1 po'"
    by (rule acquire_loop_pool [where m = 1 and env = env and owner = owner and deadline = "time_Add started (Wait policy)" and n = 0])
      (use acq room owner True at covers times now in
        \<open>auto simp: client_Acquire_def acquisitionContextError_def pool_defs covers_def wf_Policy_def\<close>)
  then obtain po' where "?st\<^sup>*\<^sup>* ?po1 po'" "returns i key policy res s1 po po'" by (auto simp: returns_def pool_defs)
  with first show ?thesis by (meson converse_rtranclp_into_rtranclp)
qed

text \<open>
  C27: \<open>MaxWaiters\<close> holds under concurrency. However the calls of \<^verbatim>\<open>Acquire\<close> interleave, with one
  another and with everything else on the backend, the slots in use are exactly the calls
  that have reserved one and not yet returned, on every path out of \<^verbatim>\<open>Acquire\<close>; they never exceed
  the capacity the client was made with, and no call makes more than \<^verbatim>\<open>MaxAttempts\<close> backend
  calls. Policies are those that \<^verbatim>\<open>NewPolicy\<close> accepts, with a safety margin that covers the clocks.
\<close>

theorem acquire_waiters:
  assumes "NewClient rand True options = Inr cl"
    and "(pool_step B env_ok begins ends ident grain drift)\<^sup>*\<^sup>* (new_pool cl skew s t) po"
  shows "cl_waiters (po_client po) = length (filter holds_slot (po_acquirers po)) \<and>
    cl_waiters (po_client po) \<le> cl_maxWaiters cl \<and> 0 < cl_maxWaiters cl \<and> cl_maxWaiters cl \<le> 1000000 \<and>
    (\<forall>q \<in> set (po_acquirers po). aq_calls q \<le> unat (policy_MaxAttempts (aq_policy q)))"
proof -
  note cl = NewClient_waiters [OF assms(1)]
  have ok: "pool_ok grain drift (cl_maxWaiters cl) po" using pool_run [OF assms(2) cl(1)] by blast
  moreover have "aq_calls q \<le> unat (policy_MaxAttempts (aq_policy q))" if "acquirer_ok grain drift q" for q
    using that by (auto simp: acquirer_ok_def split: acquire_phase.splits)
  ultimately show ?thesis using cl by (simp add: pool_ok_def)
qed

text \<open>
  C26: Concurrent acquisition refines the cluster. Every interleaving of a client's \<^verbatim>\<open>Acquire\<close> and
  \<^verbatim>\<open>TryAcquire\<close> calls with the work of its handles and of other processes is, on the backend, a
  run of a cluster in which every handle handed out is a member with its own record and
  clock. What holds of all clusters, mutual exclusion above all, holds of concurrent clients.
\<close>

theorem pool_refines:
  assumes "NewClient rand True options = Inr cl"
    and "(pool_step B env_ok begins ends ident grain drift)\<^sup>*\<^sup>* (new_pool cl skew s t) po"
  shows "(cluster_step B env_ok begins ends ident grain drift)\<^sup>*\<^sup>* (empty_cluster s t) (po_cluster po)"
proof -
  show ?thesis using pool_run [OF assms(2) NewClient_waiters(1) [OF assms(1)]] by blast
qed

text \<open>
  C28: The interleaved steps are those of \<^verbatim>\<open>Client.Acquire\<close>. From any state of the pool, a call that
  runs without interruption reaches by these steps the result and the store that the
  sequential \<open>client_Acquire\<close> computes, on every branch, with the waiter slots as before.
\<close>

theorem client_Acquire_pool:
  assumes acq: "client_Acquire B (po_client po) ctx newOwner started env key policy (cu_store (po_cluster po)) = (res, s1)"
    and covers: "covers grain drift policy" and times: "attempt_times env_ok begins ends (po_skew po) (policy_MaxAttempts policy) env"
    and now: "cu_time (po_cluster po) \<le> begins (at_env (env 1))"
  shows "\<exists>po' n. (pool_step B env_ok begins ends ident grain drift)\<^sup>*\<^sup>* po po' \<and> cu_store (po_cluster po') = s1 \<and>
    po_client po' = po_client po \<and> po_acquirers po' = po_acquirers po @ [acquirer_at key policy (Returned res) n]"
proof (cases "acquisitionContextError ctx = None \<and> cl_waiters (po_client po) < cl_maxWaiters (po_client po)")
  case False
  then have "pool_step B env_ok begins ends ident grain drift po (called (acquirer_at key policy (Returned res) 0) po) \<and>
      s1 = cu_store (po_cluster po)"
    using acq pool_step.refused [of ctx _ B env_ok begins ends ident grain drift po key policy]
      pool_step.full [of ctx po B env_ok begins ends ident grain drift key policy]
    by (auto simp: client_Acquire_def not_less split: option.splits)
  then show ?thesis by (intro exI conjI, intro r_into_rtranclp, blast) (auto simp: pool_defs)
next
  case True
  let ?st = "pool_step B env_ok begins ends ident grain drift" and ?i = "length (po_acquirers po)"
  let ?po1 = "take_slot (called (acquirer_at key policy Reserved 0) po)"
  have first: "?st po ?po1" using pool_step.reserved True covers by blast
  have at: "?i < length (po_acquirers ?po1)" "po_acquirers ?po1 ! ?i = acquirer_at key policy Reserved 0" by (simp_all add: pool_defs)
  have "ctx = Some None" using True by (auto simp: acquisitionContextError_def errors_Join_def split: option.splits)
  then have "\<exists>po'. ?st\<^sup>*\<^sup>* ?po1 po' \<and> returns ?i key policy res s1 ?po1 po'"
    by (intro reserved_pool [OF _ _ at]) (use acq conjunct2 [OF True] covers times now in \<open>simp_all add: pool_defs\<close>)
  then obtain po' where po': "?st\<^sup>*\<^sup>* ?po1 po'" "returns ?i key policy res s1 ?po1 po'" by blast
  have "?st\<^sup>*\<^sup>* po po'" using first po'(1) by (rule converse_rtranclp_into_rtranclp)
  then show ?thesis using po'(2) by (auto simp: returns_def pool_defs)
qed

section \<open>Witnesses\<close>

lemma ex_client_new:
  "NewClient [] True (zero_ClientOptions\<lparr>co_MaxWaiters := 1, co_MaxManaged := 1\<rparr>) = Inr ex_client"
  by (simp add: NewClient_def Let_def MaxClientWaiters_def MaxClientManaged_def ex_client_def zero_ClientOptions_def or_default_def
      word_less_nat_alt)

lemma ex_covers: "covers 0 0 ex_policy" "covers 0 0 ex_wait_policy"
  by (simp_all add: covers_def ex_wait_policy_def ex_policy_def wf_Policy_def)

text \<open>A client with one slot and two calls: the second is turned away.\<close>

definition ex_crowd :: "mem_store pool" where
  "ex_crowd = called (acquirer_at ex_key ex_policy (Returned (Inl (Wrap (Sentinel ErrBackendUnavailable) ''waiter capacity''))) 0)
     (take_slot (called (acquirer_at ex_key ex_policy Reserved 0) (new_pool ex_client 0 ex_store 0)))"

theorem acquire_waiters_witness:
  "length (filter holds_slot (po_acquirers ex_crowd)) = cl_waiters (po_client ex_crowd) \<and> cl_waiters (po_client ex_crowd) = 1 \<and>
   length (po_acquirers ex_crowd) = 2 \<and> cl_maxWaiters ex_client = 1"
proof -
  let ?st = "pool_step memory_backend (\<lambda>_. True) mem_now mem_now key_String 0 0" and ?po = "new_pool ex_client 0 ex_store 0"
  let ?po1 = "take_slot (called (acquirer_at ex_key ex_policy Reserved 0) ?po)"
  have fine: "acquisitionContextError (Some None) = None" by (simp add: acquisitionContextError_def)
  have "?st ?po ?po1"
    using pool_step.reserved [OF fine, of ?po 0 0 ex_policy] ex_covers(1) by (simp add: new_pool_def ex_client_def)
  moreover have "?st ?po1 ex_crowd"
    using pool_step.full [OF fine, of ?po1] by (simp add: ex_crowd_def pool_defs new_pool_def ex_client_def)
  ultimately have run: "?st\<^sup>*\<^sup>* ?po ex_crowd" by simp
  have "cl_waiters (po_client ex_crowd) = 1" "length (po_acquirers ex_crowd) = 2" "cl_maxWaiters ex_client = 1"
    by (simp_all add: ex_crowd_def pool_defs new_pool_def ex_client_def)
  then show ?thesis using acquire_waiters [OF ex_client_new run] by simp
qed

text \<open>One \<^verbatim>\<open>TryAcquire\<close> makes a member.\<close>

lemma ex_tried:
  "\<exists>h s. client_TryAcquire memory_backend (Some None) (Inr ''x'') (ex_clocks 10) (ex_env 10) ex_key ex_policy ex_store = (Inr h, s)"
proof -
  let ?t = "client_TryAcquire memory_backend (Some None) (Inr ''x'') (ex_clocks 10) (ex_env 10) ex_key ex_policy ex_store"
  have "\<not> isl (fst ?t)" by code_simp
  then show ?thesis by (cases ?t; cases "fst ?t") auto
qed

theorem pool_refines_witness:
  "\<exists>cu. (cluster_step memory_backend (\<lambda>_. True) mem_now mem_now key_String 0 0)\<^sup>*\<^sup>* (empty_cluster ex_store 0) cu \<and>
     length (cu_members cu) = 1 \<and> cu_time cu = 10"
proof -
  let ?po = "new_pool ex_client 0 ex_store 0"
  obtain h s where got: "client_TryAcquire memory_backend (Some None) (Inr ''x'') (ex_clocks 10) (ex_env 10) ex_key ex_policy ex_store = (Inr h, s)"
    using ex_tried by blast
  let ?po1 = "store_moves s 10 (Some (Inr h)) ?po"
  have "pool_step memory_backend (\<lambda>_. True) mem_now mem_now key_String 0 0 ?po ?po1"
    using pool_step.tried [of "\<lambda>_. True" "ex_env 10" ?po mem_now "ex_clocks 10" 0 0 ex_policy "Inr ''x''" memory_backend ex_key "Inr h" s
        mem_now key_String] got ex_covers(1)
    by (simp add: new_pool_def empty_cluster_def ex_env_def ex_clocks_def valid_owner_def)
  from pool_refines [OF ex_client_new r_into_rtranclp, OF this]
  show ?thesis by (intro exI [of _ "po_cluster ?po1"]) (simp add: store_moves_def new_pool_def empty_cluster_def)
qed

text \<open>Against an owner with a lease of 150 milliseconds the second attempt succeeds.\<close>

theorem client_Acquire_pool_witness:
  "\<exists>po' n. (pool_step memory_backend (\<lambda>_. True) mem_now mem_now key_String 0 0)\<^sup>*\<^sup>*
       (new_pool ex_client 0 (snd (memory_TryAcquire (ex_env 10) ex_key ''x'' (150 * Millisecond) ex_store)) 10) po' \<and>
     po_acquirers po' = [acquirer_at ex_key ex_wait_policy (Returned (fst (client_Acquire memory_backend ex_client (Some None) (Inr ''y'') 0
       ex_attempt ex_key ex_wait_policy (snd (memory_TryAcquire (ex_env 10) ex_key ''x'' (150 * Millisecond) ex_store))))) n]"
proof -
  let ?po = "new_pool ex_client 0 (snd (memory_TryAcquire (ex_env 10) ex_key ''x'' (150 * Millisecond) ex_store)) 10"
  let ?acq = "client_Acquire memory_backend (po_client ?po) (Some None) (Inr ''y'') 0 ex_attempt ex_key ex_wait_policy (cu_store (po_cluster ?po))"
  have times: "attempt_times (\<lambda>_. True) mem_now mem_now (po_skew ?po) (policy_MaxAttempts ex_wait_policy) ex_attempt"
    using next_attempt [of _ 3] by (simp add: attempt_times_def ex_attempt_def ex_env_def ex_clocks_def new_pool_def ex_wait_policy_def)
  have "?acq = (fst ?acq, snd ?acq)" by simp
  from client_Acquire_pool [OF this ex_covers(2) times, of key_String]
  show ?thesis by (auto simp: new_pool_def empty_cluster_def ex_attempt_def ex_env_def)
qed

end
