(* ===== verification/Lease_Managed.thy ===== *)
theory Lease_Managed
  imports Lease_Client
begin

text \<open>
  \<^verbatim>\<open>managed.go\<close> and the read accessors of \<^verbatim>\<open>handle.go\<close>: the renewal loop of a handle.
  One round of the loop is a sleep and, when the sleep ended without an error, one renewal.
  A finite list of rounds is what the loop does until some moment; whether the loop has
  ended by then is part of the result, so a loop that runs for ever is the result \<open>None\<close>
  for every list.
\<close>

section \<open>Accessors\<close>

definition handle_Snapshot :: "Handle \<Rightarrow> Record" where "handle_Snapshot h = h_record h"
definition handle_Owner :: "Handle \<Rightarrow> string" where "handle_Owner h = rec_Owner (h_record h)"
definition handle_Token :: "Handle \<Rightarrow> Token" where "handle_Token h = rec_Token (h_record h)"
definition handle_AcquiredAt :: "Handle \<Rightarrow> instant" where "handle_AcquiredAt h = rec_AcquiredAt (h_record h)"
definition handle_Deadline :: "Handle \<Rightarrow> instant" where "handle_Deadline h = h_deadline h"

section \<open>The renewal loop\<close>

record Loss =
  loss_At :: instant
  loss_State :: State
  loss_Err :: gerror

text \<open>The readings and the environment of one round.\<close>

record 'e round =
  ro_sleep :: "gerror option"
  ro_clocks :: clocks
  ro_started :: clocks
  ro_env :: 'e
  ro_finished :: clocks
  ro_at :: instant
  ro_state :: clocks

text \<open>The deferred function of the loop: the handle can be managed again.\<close>

definition managed_exit :: "Handle \<Rightarrow> Handle" where
  "managed_exit h = h\<lparr>h_managed := False\<rparr>"

text \<open>
  The result is \<open>None\<close> while the loop runs, \<open>Some None\<close> when it ended without a loss, and
  \<open>Some (Some loss)\<close> when it sent a loss.
\<close>

fun managed_run :: "('e, 's) Backend \<Rightarrow> 'e round list \<Rightarrow> Handle \<Rightarrow> 's \<Rightarrow> Loss option option \<times> Handle \<times> 's" where
  "managed_run B [] h s = (None, h, s)"
| "managed_run B (ro # rounds) h s =
     (if ro_sleep ro \<noteq> None then (Some None, managed_exit h, s)
      else (case handle_Renew B (ro_env ro) (ro_clocks ro) (ro_started ro) (ro_finished ro) h s of
          (Some err, h1, s1) \<Rightarrow>
            (case handle_State (ro_state ro) h1 of
               (state, h2) \<Rightarrow> (Some (Some \<lparr>loss_At = ro_at ro, loss_State = state, loss_Err = err\<rparr>), managed_exit h2, s1))
        | (None, h1, s1) \<Rightarrow> managed_run B rounds h1 s1))"

text \<open>\<^verbatim>\<open>Managed.Stop\<close>: the select takes the end of the loop or the end of its own context.\<close>

datatype stop_event = LoopDone | StopContextDone

fun managed_Stop :: "stop_event \<Rightarrow> gerror option" where
  "managed_Stop LoopDone = None"
| "managed_Stop StopContextDone = Some (Wrap (Sentinel ErrCanceled) ''managed stop'')"

section \<open>The loop beside other users of the handle\<close>

text \<open>
  The goroutine of the loop as a state machine, interleaved with every other section of the
  handle and with the other renewers of the client. \<open>ms_losses\<close> is what was sent on the loss
  channel of the current renewer, \<open>ms_used\<close> the slots in use, \<open>ms_others\<close> those of other
  handles, and \<open>ms_cap\<close> the capacity of the channel.
\<close>

datatype phase = Exited | Sleeping | Renewing flight | Failing gerror | Leaving

record managed_sys =
  ms_handle :: Handle
  ms_flights :: "flight list"
  ms_phase :: phase
  ms_losses :: "Loss list"
  ms_used :: nat
  ms_others :: nat
  ms_cap :: nat

inductive managed_step :: "managed_sys \<Rightarrow> managed_sys \<Rightarrow> bool" where
  start: "ms_phase m = Exited \<Longrightarrow>
    handle_StartManaged c (ms_used m) (ms_cap m) (ms_handle m) = (None, h1, used1) \<Longrightarrow>
    managed_step m (m\<lparr>ms_handle := h1, ms_used := used1, ms_phase := Sleeping, ms_losses := []\<rparr>)"
| start_refused: "handle_StartManaged c (ms_used m) (ms_cap m) (ms_handle m) = (Some err, h1, used1) \<Longrightarrow>
    managed_step m (m\<lparr>ms_handle := h1, ms_used := used1\<rparr>)"
| sleep_failed: "ms_phase m = Sleeping \<Longrightarrow> managed_step m (m\<lparr>ms_phase := Leaving\<rparr>)"
| renew: "ms_phase m = Sleeping \<Longrightarrow> renew_begin c c1 (ms_handle m) = (Inr f, h1) \<Longrightarrow>
    managed_step m (m\<lparr>ms_handle := h1, ms_flights := f # ms_flights m, ms_phase := Renewing f\<rparr>)"
| renew_refused: "ms_phase m = Sleeping \<Longrightarrow> renew_begin c c1 (ms_handle m) = (Inl (Some err), h1) \<Longrightarrow>
    managed_step m (m\<lparr>ms_handle := h1, ms_phase := Failing err\<rparr>)"
| renewed: "ms_phase m = Renewing f \<Longrightarrow> answers f resp \<Longrightarrow>
    flight_finish f c resp (ms_handle m) = (None, h1) \<Longrightarrow>
    managed_step m (m\<lparr>ms_handle := h1, ms_flights := remove1 f (ms_flights m), ms_phase := Sleeping\<rparr>)"
| renew_failed: "ms_phase m = Renewing f \<Longrightarrow> answers f resp \<Longrightarrow>
    flight_finish f c resp (ms_handle m) = (Some err, h1) \<Longrightarrow>
    managed_step m (m\<lparr>ms_handle := h1, ms_flights := remove1 f (ms_flights m), ms_phase := Failing err\<rparr>)"
| report: "ms_phase m = Failing err \<Longrightarrow> handle_State c (ms_handle m) = (state, h1) \<Longrightarrow>
    managed_step m (m\<lparr>ms_handle := h1, ms_phase := Leaving,
      ms_losses := ms_losses m @ [\<lparr>loss_At = at0, loss_State = state, loss_Err = err\<rparr>]\<rparr>)"
| leave: "ms_phase m = Leaving \<Longrightarrow>
    managed_step m (m\<lparr>ms_handle := managed_exit (ms_handle m), ms_used := ms_used m - 1, ms_phase := Exited\<rparr>)"
| user: "handle_step (ms_handle m, ms_flights m) (h1, fl1) \<Longrightarrow> h_managed h1 = h_managed (ms_handle m) \<Longrightarrow>
    (\<And>f. ms_phase m = Renewing f \<Longrightarrow> f \<in> set fl1) \<Longrightarrow>
    managed_step m (m\<lparr>ms_handle := h1, ms_flights := fl1\<rparr>)"
| others_start: "ms_used m < ms_cap m \<Longrightarrow>
    managed_step m (m\<lparr>ms_used := ms_used m + 1, ms_others := ms_others m + 1\<rparr>)"
| others_leave: "0 < ms_others m \<Longrightarrow>
    managed_step m (m\<lparr>ms_used := ms_used m - 1, ms_others := ms_others m - 1\<rparr>)"

definition managed_new :: "Handle \<Rightarrow> nat \<Rightarrow> nat \<Rightarrow> managed_sys" where
  "managed_new h others cap = \<lparr>ms_handle = h, ms_flights = [], ms_phase = Exited, ms_losses = [],
     ms_used = others, ms_others = others, ms_cap = cap\<rparr>"

section \<open>Invariants\<close>

definition managed_ok :: "Record \<Rightarrow> managed_sys \<Rightarrow> bool" where
  "managed_ok r0 m \<longleftrightarrow> handle_ok r0 (ms_handle m, ms_flights m) \<and>
     (h_managed (ms_handle m) \<longleftrightarrow> ms_phase m \<noteq> Exited) \<and>
     ms_used m = ms_others m + (if h_managed (ms_handle m) then 1 else 0) \<and> ms_used m \<le> ms_cap m \<and>
     length (ms_losses m) \<le> 1 \<and> (ms_losses m \<noteq> [] \<longrightarrow> ms_phase m = Leaving \<or> ms_phase m = Exited) \<and>
     (\<forall>f. ms_phase m = Renewing f \<longrightarrow> f \<in> set (ms_flights m))"

lemma renew_begin_managed: "renew_begin c c1 h = (res, h1) \<Longrightarrow> h_managed h1 = h_managed h"
  by (auto simp: section_defs split: prod.splits option.splits if_splits)

lemma finish_managed: "finishActiveOperation c r err dl wdl h = (res, h1) \<Longrightarrow> h_managed h1 = h_managed h"
  by (auto simp: finishActiveOperation_def Let_def split: option.splits if_splits)

lemma flight_finish_managed: "flight_finish f c resp h = (err, h1) \<Longrightarrow> h_managed h1 = h_managed h"
  by (induction f c resp h rule: flight_finish.induct)
    (auto simp: renew_finish_def validate_finish_def release_finish_def Let_def
      split: prod.splits option.splits dest: finish_managed)

lemma StartManaged_None:
  "handle_StartManaged c used cap h = (None, h1, used1) \<Longrightarrow>
   used < cap \<and> used1 = used + 1 \<and> \<not> h_managed h \<and> h_managed h1"
  by (auto simp: section_defs split: prod.splits option.splits if_splits)

lemma StartManaged_Some:
  "handle_StartManaged c used cap h = (Some err, h1, used1) \<Longrightarrow> used1 = used \<and> h_managed h1 = h_managed h"
  by (auto simp: section_defs split: prod.splits option.splits if_splits)

lemma managed_step_ok:
  assumes "managed_step m m'" and "managed_ok r0 m"
  shows "managed_ok r0 m'"
proof -
  have hok: "handle_ok r0 (h1, fl1)" if "handle_step (ms_handle m, ms_flights m) (h1, fl1)" for h1 fl1
    using handle_step_invariant [OF that] assms(2) by (auto simp: managed_ok_def)
  from assms(1) show ?thesis
  proof (cases rule: managed_step.cases)
    case (start c h1 used1)
    then show ?thesis
      using assms(2) StartManaged_None [OF start(3)] hok [OF handle_step.manage [OF start(3)]] by (auto simp: managed_ok_def)
  next
    case (start_refused c err h1 used1)
    then show ?thesis
      using assms(2) StartManaged_Some [OF start_refused(2)] hok [OF handle_step.manage [OF start_refused(2)]]
      by (auto simp: managed_ok_def)
  next
    case (renew c c1 f h1)
    have "request_begin RqRenew c c1 (ms_handle m) = (Inr f, h1)" using renew(3) by simp
    from hok [OF handle_step.start [OF this]] show ?thesis
      using assms(2) renew renew_begin_managed [OF renew(3)] by (auto simp: managed_ok_def)
  next
    case (renew_refused c c1 err h1)
    have "request_begin RqRenew c c1 (ms_handle m) = (Inl (Some err), h1)" using renew_refused(3) by simp
    from hok [OF handle_step.refuse [OF this]] show ?thesis
      using assms(2) renew_refused renew_begin_managed [OF renew_refused(3)] by (auto simp: managed_ok_def)
  next
    case (renewed f resp c h1)
    have "f \<in> set (ms_flights m)" using assms(2) renewed(2) by (simp add: managed_ok_def)
    from hok [OF handle_step.complete [OF this renewed(3,4)]] show ?thesis
      using assms(2) renewed flight_finish_managed [OF renewed(4)] by (auto simp: managed_ok_def)
  next
    case (renew_failed f resp c err h1)
    have "f \<in> set (ms_flights m)" using assms(2) renew_failed(2) by (simp add: managed_ok_def)
    from hok [OF handle_step.complete [OF this renew_failed(3,4)]] show ?thesis
      using assms(2) renew_failed flight_finish_managed [OF renew_failed(4)] by (auto simp: managed_ok_def)
  next
    case (report err c state h1 at0)
    have "snd (handle_State c (ms_handle m)) = h1" using report(3) by simp
    then have "handle_ok r0 (h1, ms_flights m)" using hok [OF handle_step.poll [of _ _ c]] by simp
    moreover have "h_managed h1 = h_managed (ms_handle m)" using report(3) by (auto simp: handle_State_def Let_def)
    ultimately show ?thesis using assms(2) report by (auto simp: managed_ok_def)
  next
    case leave
    then show ?thesis using assms(2) by (auto simp: managed_ok_def managed_exit_def)
  next
    case (user h1 fl1)
    then show ?thesis using assms(2) hok [OF user(2)] by (auto simp: managed_ok_def)
  qed (use assms(2) in \<open>auto simp: managed_ok_def\<close>)
qed

text \<open>
  C32: Managed renewal. However the renewal loop, other users of the handle and the other
  renewers of the client interleave: a renewer holds exactly one slot from its start until
  it has exited, the slots in use never exceed the capacity, a renewer sends at most one
  loss and only when it is about to exit, and its renewals are operations of the handle
  like any other, at most one at a time.
\<close>

theorem managed_renewal_slots:
  assumes "managed_step\<^sup>*\<^sup>* (managed_new (newHandleAt policy r started wallStarted) others cap) m" and "others \<le> cap"
  shows "ms_used m = ms_others m + (if ms_phase m = Exited then 0 else 1) \<and> ms_used m \<le> ms_cap m \<and>
    length (ms_losses m) \<le> 1 \<and> (ms_losses m = [] \<or> ms_phase m = Leaving \<or> ms_phase m = Exited) \<and>
    length (ms_flights m) \<le> 1 \<and> same_identity r (h_record (ms_handle m))"
proof -
  have "managed_ok r (managed_new (newHandleAt policy r started wallStarted) others cap)"
    using assms(2) handle_ok_new [of r policy started wallStarted]
    by (simp add: managed_ok_def managed_new_def newHandleAt_def Let_def)
  with assms(1) have "managed_ok r m"
    by (induction rule: rtranclp_induct) (auto intro: managed_step_ok)
  then show ?thesis by (auto simp: managed_ok_def handle_ok_def)
qed

section \<open>Losing the lease\<close>

lemma expire_inactive: "h_state h \<noteq> StateActive \<Longrightarrow> expireLocked c h = h"
  by (simp add: expireLocked_def)

lemma finish_closed:
  assumes "finishActiveOperation c r err dl wdl h = (res, h1)" and "h_state h = StateActive"
  shows "\<not> h_busy h1 \<and> (if res = None then h_state h1 = StateActive
    else h_state h1 \<in> {StateExpired, StateLost, StateUncertain})"
  using assms expireLocked_state [of c "h\<lparr>h_busy := False\<rparr>"]
  by (auto simp: finishActiveOperation_def Let_def failLocked_def split: option.splits if_splits)

lemma handle_Renew_closed:
  assumes run: "handle_Renew B e c c1 c2 h s = (res, h1, s1)" and "\<not> h_busy h" "h_state h = StateActive"
  shows "\<not> h_busy h1 \<and> h_managed h1 = h_managed h \<and>
    (if res = None then h_state h1 = StateActive else h_state h1 \<in> {StateExpired, StateLost, StateUncertain})"
proof (cases "h_state (expireLocked c h) = StateActive")
  case True
  let ?h = "(expireLocked c h)\<lparr>h_busy := True\<rparr>"
  have "renew_begin c c1 h = (Inr (FRenew (h_record h) (clk_now c1) (clk_wall c1)), ?h)"
    using True assms(2) by (simp add: section_defs)
  then obtain out where "renew_finish c2 (h_record h) (clk_now c1) (clk_wall c1) out ?h = (res, h1)"
    using run by (auto simp: handle_Renew_def split: prod.splits)
  then obtain r err dl wdl where "finishActiveOperation c2 r err dl wdl ?h = (res, h1)"
    by (auto simp: renew_finish_def Let_def split: prod.splits)
  from finish_closed [OF this] finish_managed [OF this] True show ?thesis by (auto split: if_splits)
next
  case False
  then have "h_state (expireLocked c h) = StateExpired" using expireLocked_state [of c h] assms(3) by auto
  then have "renew_begin c c1 h = (Inl (Some (Wrap (Sentinel ErrLost) ''deadline'')), expireLocked c h)"
    by (simp add: section_defs)
  then show ?thesis
    using run assms(2) \<open>h_state (expireLocked c h) = StateExpired\<close> by (auto simp: handle_Renew_def)
qed

lemma managed_run_state:
  assumes "managed_run B rounds h s = (out, h1, s1)" and "\<not> h_busy h" "h_state h = StateActive"
  shows "\<not> h_busy h1 \<and> (case out of
      Some (Some loss) \<Rightarrow> \<not> h_managed h1 \<and> loss_State loss = h_state h1 \<and> h_state h1 \<in> {StateExpired, StateLost, StateUncertain}
    | Some None \<Rightarrow> \<not> h_managed h1 \<and> h_state h1 = StateActive \<and> (\<exists>ro \<in> set rounds. ro_sleep ro \<noteq> None)
    | None \<Rightarrow> h_managed h1 = h_managed h \<and> h_state h1 = StateActive \<and> list_all (\<lambda>ro. ro_sleep ro = None) rounds)"
  using assms
proof (induction rounds arbitrary: h s)
  case (Cons ro rounds)
  show ?case
  proof (cases "ro_sleep ro")
    case (Some e)
    then show ?thesis using Cons.prems by (auto simp: managed_exit_def)
  next
    case None
    obtain res h2 s2 where renew: "handle_Renew B (ro_env ro) (ro_clocks ro) (ro_started ro) (ro_finished ro) h s = (res, h2, s2)"
      by (metis prod_cases3)
    note closed = handle_Renew_closed [OF renew Cons.prems(2,3)]
    show ?thesis
    proof (cases res)
      case (Some err)
      then show ?thesis using Cons.prems(1) None renew closed
        by (auto simp: handle_State_def Let_def managed_exit_def expire_inactive)
    next
      case res: None
      then have "managed_run B rounds h2 s2 = (out, h1, s1)" using Cons.prems(1) None renew by simp
      from Cons.IH [OF this] closed res None show ?thesis by (auto split: option.splits)
    qed
  qed
qed simp

text \<open>
  C31: Managed renewal fails closed. On a handle that nobody else operates on, the loop
  sends a loss exactly when the handle has stopped being active, and the loss names the
  state the handle is in; as long as it runs, and when it ends because a sleep was cut
  short, the handle is active as it left it.
\<close>

theorem managed_run_fails_closed:
  assumes "managed_run B rounds h s = (out, h1, s1)" and "\<not> h_busy h" and "h_state h = StateActive"
  shows "\<not> h_busy h1 \<and> ((\<exists>loss. out = Some (Some loss)) = (h_state h1 \<noteq> StateActive)) \<and>
    (case out of Some (Some loss) \<Rightarrow> loss_State loss = h_state h1 \<and> h_state h1 \<noteq> StateReleased
     | Some None \<Rightarrow> list_ex (\<lambda>ro. ro_sleep ro \<noteq> None) rounds
     | None \<Rightarrow> list_all (\<lambda>ro. ro_sleep ro = None) rounds)"
  using managed_run_state [OF assms] by (cases out rule: option.exhaust) (auto simp: list_ex_iff split: option.splits)

text \<open>
  A renewal that meets another operation of the same handle is refused, and the loop ends
  with a loss although the handle is still active.
\<close>

lemma managed_overlap_loss:
  assumes "h_state h = StateActive" "h_busy h" "ro_sleep ro = None"
    and "clk_now (ro_clocks ro) < h_deadline h" "clk_wall (ro_clocks ro) < h_wallDeadline h"
    and "clk_now (ro_state ro) < h_deadline h" "clk_wall (ro_state ro) < h_wallDeadline h"
  shows "\<exists>loss h1. managed_run B (ro # rounds) h s = (Some (Some loss), h1, s) \<and>
    loss_State loss = StateActive \<and> errors_Is (loss_Err loss) (Sentinel ErrInvalidState)"
  using assms by (simp add: handle_Renew_def section_defs expireLocked_def)

section \<open>Witnesses\<close>

definition ex_round :: "instant \<Rightarrow> mem_env round" where
  "ex_round t = \<lparr>ro_sleep = None, ro_clocks = ex_clocks t, ro_started = ex_clocks t, ro_env = ex_env t,
     ro_finished = ex_clocks t, ro_at = t, ro_state = ex_clocks t\<rparr>"

text \<open>The store lost the lease, so the first renewal is refused.\<close>

theorem managed_run_fails_closed_witness:
  "h_state (fst (snd (managed_run memory_backend [ex_round 60] ex_handle ex_store))) \<noteq> StateActive"
proof -
  let ?x = "managed_run memory_backend [ex_round 60] ex_handle ex_store"
  have "(case fst ?x of Some (Some loss) \<Rightarrow> True | _ \<Rightarrow> False)" by code_simp
  then have out: "\<exists>loss. fst ?x = Some (Some loss)" by (simp split: option.splits del: managed_run.simps)
  have "\<not> h_busy ex_handle" "h_state ex_handle = StateActive"
    by (simp_all add: ex_handle_def newHandleAt_def Let_def)
  from managed_run_fails_closed [of memory_backend "[ex_round 60]" ex_handle ex_store "fst ?x" "fst (snd ?x)" "snd (snd ?x)",
      OF _ this] out
  show ?thesis by (simp del: managed_run.simps)
qed

definition ex_leaving :: managed_sys where
  "ex_leaving = \<lparr>ms_handle = ex_handle\<lparr>h_managed := True\<rparr>, ms_flights = [], ms_phase = Leaving, ms_losses = [],
     ms_used = 1, ms_others = 0, ms_cap = 1\<rparr>"

text \<open>A renewer whose first sleep was cut short still holds its slot.\<close>

theorem managed_renewal_slots_witness:
  "managed_step\<^sup>*\<^sup>* (managed_new ex_handle 0 1) ex_leaving \<and> ms_used ex_leaving \<le> ms_cap ex_leaving \<and>
   same_identity (ex_lease 5000000100) (h_record (ms_handle ex_leaving))"
proof -
  let ?m = "managed_new ex_handle 0 1"
  have start: "handle_StartManaged (ex_clocks 60) (ms_used ?m) (ms_cap ?m) (ms_handle ?m) =
      (None, ex_handle\<lparr>h_managed := True\<rparr>, 1)"
    by (simp add: managed_new_def section_defs expireLocked_def ex_handle_def newHandleAt_def time_Add_def ex_clocks_def
        word_sle_eq ex_policy_def policy_budget_def)
  have "managed_step ?m (ex_leaving\<lparr>ms_phase := Sleeping\<rparr>)"
    using managed_step.start [OF _ start] by (simp add: managed_new_def ex_leaving_def)
  moreover have "managed_step (ex_leaving\<lparr>ms_phase := Sleeping\<rparr>) ex_leaving"
    using managed_step.sleep_failed [of "ex_leaving\<lparr>ms_phase := Sleeping\<rparr>"] by (simp add: ex_leaving_def)
  ultimately have run: "managed_step\<^sup>*\<^sup>* ?m ex_leaving" by simp
  show ?thesis using run managed_renewal_slots [OF run [unfolded ex_handle_def]] by simp
qed

end
