(* ===== verification/Lease_Guard.thy ===== *)
theory Lease_Guard
  imports Lease_Managed
begin

text \<open>
  \<^verbatim>\<open>internal/guard\<close> and the adapters on it, \<^verbatim>\<open>adapters/queue\<close> and \<^verbatim>\<open>adapters/scheduler\<close>: a
  callback that runs while a lease is held. The callback gets only the fence and works on a
  resource \<open>'r\<close>, so the renewal loop is the only other user of the handle until it has
  been stopped. A run whose renewal loop never ends is \<open>None\<close>.
\<close>

section \<open>Guarded callbacks\<close>

record 'e guard_env =
  ge_owner :: "string result"
  ge_started :: instant
  ge_attempts :: "uint32 \<Rightarrow> 'e attempt"
  ge_start :: clocks
  ge_rounds :: "'e round list"
  ge_release :: 'e

type_synonym 'r callback = "Token \<Rightarrow> 'r \<Rightarrow> gerror option \<times> 'r"

definition guard_release :: "('e, 's) Backend \<Rightarrow> 'e guard_env \<Rightarrow> Handle \<Rightarrow> 's \<Rightarrow> gerror option \<times> Handle \<times> 's" where
  "guard_release B g h s = handle_Release B (ge_release g) h s"

definition guard_acquire ::
  "('e, 's) Backend \<Rightarrow> Client \<Rightarrow> ctx_error option option \<Rightarrow> 'e guard_env \<Rightarrow> Policy \<Rightarrow> Key \<Rightarrow> 's \<Rightarrow> Handle result \<times> 's" where
  "guard_acquire B cl ctx g policy key s =
     client_Acquire B cl ctx (ge_owner g) (ge_started g) (ge_attempts g) key policy s"

definition loss_error :: "Loss option \<Rightarrow> gerror option" where
  "loss_error loss = (case loss of None \<Rightarrow> None | Some l \<Rightarrow> errors_Join [Some (Sentinel ErrLost), Some (loss_Err l)])"

definition guard_Run ::
  "('e, 's) Backend \<Rightarrow> Client \<Rightarrow> ctx_error option option \<Rightarrow> 'e guard_env \<Rightarrow> Policy \<Rightarrow> Key \<Rightarrow> 'r callback \<Rightarrow>
   's \<Rightarrow> 'r \<Rightarrow> (gerror option \<times> 's \<times> 'r) option" where
  "guard_Run B cl ctx g policy key callback s r =
     (case guard_acquire B cl ctx g policy key s of
        (Inl err, s1) \<Rightarrow> Some (Some err, s1, r)
      | (Inr h, s1) \<Rightarrow>
          if 0 <s RenewEvery policy
          then (case handle_StartManaged (ge_start g) (cl_managed cl) (cl_maxManaged cl) h of
              (Some err, h1, used) \<Rightarrow>
                (case guard_release B g h1 s1 of
                   (releaseErr, h2, s2) \<Rightarrow> Some (errors_Join [Some err, releaseErr], s2, r))
            | (None, h1, used) \<Rightarrow>
                (case callback (handle_Token h1) r of
                   (callbackErr, r1) \<Rightarrow>
                     (case managed_run B (ge_rounds g) h1 s1 of
                        (None, h2, s2) \<Rightarrow> None
                      | (Some loss, h2, s2) \<Rightarrow>
                          let callbackErr1 = errors_Join [callbackErr, managed_Stop LoopDone];
                              callbackErr2 = (if loss = None then callbackErr1
                                else errors_Join [callbackErr1, loss_error loss])
                          in (case guard_release B g h2 s2 of
                                (releaseErr, h3, s3) \<Rightarrow> Some (errors_Join [callbackErr2, releaseErr], s3, r1)))))
          else (case callback (handle_Token h) r of
              (callbackErr, r1) \<Rightarrow>
                (case guard_release B g h s1 of
                   (releaseErr, h2, s2) \<Rightarrow> Some (errors_Join [callbackErr, releaseErr], s2, r1))))"

text \<open>
  A run whose callback panics, as the handle and the backend state it leaves behind; \<open>None\<close>
  if the callback is not reached or the renewal loop does not end. The deferred \<^verbatim>\<open>cancel\<close> ends the
  loop; the panic unwinds past the release.
\<close>

definition guard_Run_panics ::
  "('e, 's) Backend \<Rightarrow> Client \<Rightarrow> ctx_error option option \<Rightarrow> 'e guard_env \<Rightarrow> Policy \<Rightarrow> Key \<Rightarrow> 's \<Rightarrow> (Handle \<times> 's) option" where
  "guard_Run_panics B cl ctx g policy key s =
     (case guard_acquire B cl ctx g policy key s of
        (Inl err, s1) \<Rightarrow> None
      | (Inr h, s1) \<Rightarrow>
          if 0 <s RenewEvery policy
          then (case handle_StartManaged (ge_start g) (cl_managed cl) (cl_maxManaged cl) h of
              (Some err, h1, used) \<Rightarrow> None
            | (None, h1, used) \<Rightarrow>
                (case managed_run B (ge_rounds g) h1 s1 of
                   (None, h2, s2) \<Rightarrow> None
                 | (Some loss, h2, s2) \<Rightarrow> Some (h2, s2)))
          else Some (h, s1))"

section \<open>The queue worker\<close>

text \<open>
  A context is the fence that \<^verbatim>\<open>tokenContextKey\<close> carries in it, if any. The inner worker of
  the queue library is a record of its operations on a state \<open>'r\<close> of its own; it and the
  function that derives keys from tasks are arguments.
\<close>

record Context =
  ctx_token :: "Token option"

definition context_WithToken :: "Context \<Rightarrow> Token \<Rightarrow> Context" where
  "context_WithToken ctx token = ctx\<lparr>ctx_token := Some token\<rparr>"

definition TokenFromContext :: "Context \<Rightarrow> Token \<times> bool" where
  "TokenFromContext ctx = (case ctx_token ctx of None \<Rightarrow> (0, False) | Some token \<Rightarrow> (token, True))"

record ('t, 'r) core_Worker =
  iw_Run :: "Context \<Rightarrow> 't \<Rightarrow> 'r \<Rightarrow> gerror option \<times> 'r"
  iw_Shutdown :: "'r \<Rightarrow> gerror option \<times> 'r"
  iw_Queue :: "'t \<Rightarrow> 'r \<Rightarrow> gerror option \<times> 'r"
  iw_Request :: "'r \<Rightarrow> ('t option \<times> gerror option) \<times> 'r"

type_synonym 't KeyFunc = "'t \<Rightarrow> Key result"

record ('t, 'r) Worker =
  wk_inner :: "('t, 'r) core_Worker"
  wk_client :: Client
  wk_policy :: Policy
  wk_key :: "'t KeyFunc"

definition NewWorker ::
  "('t, 'r) core_Worker option \<Rightarrow> Client option \<Rightarrow> Policy \<Rightarrow> 't KeyFunc option \<Rightarrow> ('t, 'r) Worker result" where
  "NewWorker inner client policy key =
     (case (inner, client, key) of
        (Some i, Some c, Some k) \<Rightarrow> Inr \<lparr>wk_inner = i, wk_client = c, wk_policy = policy, wk_key = k\<rparr>
      | _ \<Rightarrow> Inl (Wrap (Sentinel ErrInvalidState) ''queue worker''))"

definition worker_Run ::
  "('t, 'r) Worker \<Rightarrow> ('e, 's) Backend \<Rightarrow> ctx_error option option \<Rightarrow> 'e guard_env \<Rightarrow> Context \<Rightarrow> 't \<Rightarrow> 's \<Rightarrow> 'r \<Rightarrow>
   (gerror option \<times> 's \<times> 'r) option" where
  "worker_Run worker B ctx g values task s r =
     (case wk_key worker task of
        Inl err \<Rightarrow> Some (Some (Fmt ''queue lease key: '' err ''''), s, r)
      | Inr key \<Rightarrow>
          guard_Run B (wk_client worker) ctx g (wk_policy worker) key
            (\<lambda>token. iw_Run (wk_inner worker) (context_WithToken values token) task) s r)"

definition worker_Shutdown :: "('t, 'r) Worker \<Rightarrow> 'r \<Rightarrow> gerror option \<times> 'r" where
  "worker_Shutdown worker r = iw_Shutdown (wk_inner worker) r"

definition worker_Queue :: "('t, 'r) Worker \<Rightarrow> 't \<Rightarrow> 'r \<Rightarrow> gerror option \<times> 'r" where
  "worker_Queue worker task r = iw_Queue (wk_inner worker) task r"

definition worker_Request :: "('t, 'r) Worker \<Rightarrow> 'r \<Rightarrow> ('t option \<times> gerror option) \<times> 'r" where
  "worker_Request worker r = iw_Request (wk_inner worker) r"

section \<open>The scheduler coordinator\<close>

record Coordinator =
  co_client :: Client
  co_policy :: Policy

definition coordinator_New :: "Client option \<Rightarrow> Policy \<Rightarrow> Coordinator result" where
  "coordinator_New client policy =
     (case client of
        None \<Rightarrow> Inl (Wrap (Sentinel ErrInvalidState) ''scheduler coordinator'')
      | Some c \<Rightarrow> Inr \<lparr>co_client = c, co_policy = policy\<rparr>)"

definition OnOneServer ::
  "Coordinator \<Rightarrow> ('e, 's) Backend \<Rightarrow> ctx_error option option \<Rightarrow> 'e guard_env \<Rightarrow> Key \<Rightarrow> 'r callback option \<Rightarrow> 's \<Rightarrow> 'r \<Rightarrow>
   (gerror option \<times> 's \<times> 'r) option" where
  "OnOneServer coordinator B ctx g key task s r =
     (case task of
        None \<Rightarrow> Some (Some (Wrap (Sentinel ErrInvalidState) ''scheduler task''), s, r)
      | Some f \<Rightarrow> guard_Run B (co_client coordinator) ctx g (co_policy coordinator) key f s r)"

definition WithoutOverlapping ::
  "Coordinator \<Rightarrow> ('e, 's) Backend \<Rightarrow> ctx_error option option \<Rightarrow> 'e guard_env \<Rightarrow> Key \<Rightarrow> 'r callback option \<Rightarrow> 's \<Rightarrow> 'r \<Rightarrow>
   (gerror option \<times> 's \<times> 'r) option" where
  "WithoutOverlapping coordinator B ctx g key task s r = OnOneServer coordinator B ctx g key task s r"

section \<open>What a run consists of\<close>

lemma err_is_loss [simp]: "err_is (loss_error (Some l)) t \<longleftrightarrow> t = Sentinel ErrLost \<or> errors_Is (loss_Err l) t"
  by (auto simp: loss_error_def)

lemma loss_error_None [simp]: "loss_error loss = None \<longleftrightarrow> loss = None"
  by (simp add: loss_error_def split: option.splits)

text \<open>
  The four ways a run can go: no lease, no renewal loop (the lease is released at once),
  the callback without renewal, and the callback with renewal.
\<close>

lemma guard_Run_cases [consumes 1, case_names refused unmanaged worked]:
  assumes "guard_Run B cl ctx g policy key callback s r = Some (err, s', r')"
  obtains e where "guard_acquire B cl ctx g policy key s = (Inl e, s')" "err = Some e" "r' = r"
  | h s1 e h1 used releaseErr h2 where "guard_acquire B cl ctx g policy key s = (Inr h, s1)"
      "handle_StartManaged (ge_start g) (cl_managed cl) (cl_maxManaged cl) h = (Some e, h1, used)"
      "guard_release B g h1 s1 = (releaseErr, h2, s')" "err = errors_Join [Some e, releaseErr]" "r' = r"
  | h s1 callbackErr loss h2 s2 releaseErr h3 where "guard_acquire B cl ctx g policy key s = (Inr h, s1)"
      "callback (handle_Token h) r = (callbackErr, r')"
      "\<not> 0 <s RenewEvery policy \<and> h2 = h \<and> s2 = s1 \<and> loss = None \<or>
       0 <s RenewEvery policy \<and> (\<exists>h1 used. handle_StartManaged (ge_start g) (cl_managed cl) (cl_maxManaged cl) h = (None, h1, used) \<and>
         managed_run B (ge_rounds g) h1 s1 = (Some loss, h2, s2))"
      "guard_release B g h2 s2 = (releaseErr, h3, s')"
      "err = None \<longleftrightarrow> callbackErr = None \<and> loss = None \<and> releaseErr = None"
      "\<And>t. err_is err t \<longleftrightarrow> err_is callbackErr t \<or> err_is (loss_error loss) t \<or> err_is releaseErr t"
proof -
  obtain res s1 where acq: "guard_acquire B cl ctx g policy key s = (res, s1)" by fastforce
  show thesis
  proof (cases res)
    case (Inl e)
    then show thesis using that(1) [of e] assms acq by (simp add: guard_Run_def)
  next
    case (Inr h)
    show thesis
    proof (cases "0 <s RenewEvery policy")
      case False
      obtain callbackErr r1 where cb: "callback (handle_Token h) r = (callbackErr, r1)" by fastforce
      obtain releaseErr h3 s3 where rel: "guard_release B g h s1 = (releaseErr, h3, s3)" by (metis prod_cases3)
      have "err = errors_Join [callbackErr, releaseErr]" "s' = s3" "r' = r1"
        using assms acq Inr False cb rel by (simp_all add: guard_Run_def)
      then show thesis using that(3) [of h s1 callbackErr h s1 None releaseErr h3] acq Inr False cb rel
        by (auto simp: loss_error_def)
    next
      case True
      obtain startErr h1 used where start:
        "handle_StartManaged (ge_start g) (cl_managed cl) (cl_maxManaged cl) h = (startErr, h1, used)" by (metis prod_cases3)
      have token: "handle_Token h1 = handle_Token h"
        using StartManaged_effect [OF start] by (auto simp: handle_Token_def)
      show thesis
      proof (cases startErr)
        case (Some e)
        obtain releaseErr h2 s2 where rel: "guard_release B g h1 s1 = (releaseErr, h2, s2)" by (metis prod_cases3)
        then show thesis using that(2) [of h s1 e h1 used releaseErr h2] assms acq Inr True start Some
          by (simp add: guard_Run_def)
      next
        case None
        obtain callbackErr r1 where cb: "callback (handle_Token h1) r = (callbackErr, r1)" by fastforce
        obtain out h2 s2 where run: "managed_run B (ge_rounds g) h1 s1 = (out, h2, s2)" by (metis prod_cases3)
        obtain loss where out: "out = Some loss"
          using assms acq Inr True start None cb run by (cases out) (simp_all add: guard_Run_def)
        obtain releaseErr h3 s3 where rel: "guard_release B g h2 s2 = (releaseErr, h3, s3)" by (metis prod_cases3)
        have "err = errors_Join [if loss = None then errors_Join [callbackErr, None]
            else errors_Join [errors_Join [callbackErr, None], loss_error loss], releaseErr]" "s' = s3" "r' = r1"
          using assms acq Inr True start None cb run out rel by (simp_all add: guard_Run_def Let_def)
        then show thesis using that(3) [of h s1 callbackErr h2 s2 loss releaseErr h3] acq Inr True start None cb run out rel token
          by (auto simp: loss_error_def split: option.splits if_splits)
      qed
    qed
  qed
qed

section \<open>The handle of a run\<close>

lemma guard_acquire_handle:
  assumes "guard_acquire B cl ctx g policy key s = (Inr h, s1)"
  shows "\<not> h_busy h \<and> h_state h = StateActive \<and> h_policy h = policy \<and> key_String (rec_Key (h_record h)) = key_String key"
proof -
  from assms have "client_Acquire B cl ctx (ge_owner g) (ge_started g) (ge_attempts g) key policy s = (Inr h, s1)"
    by (simp add: guard_acquire_def)
  then show ?thesis
  proof (cases rule: client_Acquire_cases)
    case (loop owner)
    from acquire_loop_success [where P = "\<lambda>_. True", OF loop(6)] obtain i r where "validAcquisition key owner r"
      "h = newHandleAt policy r (clk_now (at_clocks (ge_attempts g i))) (clk_wall (at_clocks (ge_attempts g i)))" by blast
    then show ?thesis by (simp add: newHandleAt_def Let_def validAcquisition_def)
  qed simp
qed

lemma StartManaged_handle:
  assumes "handle_StartManaged c used cap h = (err, h1, used1)" "\<not> h_busy h" "h_state h = StateActive"
  shows "\<not> h_busy h1 \<and> h_record h1 = h_record h \<and> h_policy h1 = h_policy h \<and> h_state h1 \<in> {StateActive, StateExpired} \<and>
    (err = None \<longrightarrow> h_state h1 = StateActive)"
  using assms expireLocked_state [of c h] by (auto simp: section_defs split: option.splits prod.splits if_splits)

lemma handle_Renew_calls:
  assumes "handle_Renew B e c c1 c2 h s = (res, h1, s1)" and "\<not> h_busy h" "h_state h = StateActive"
  shows "same_identity (h_record h) (h_record h1) \<and> h_policy h1 = h_policy h \<and>
    (s1 = s \<or> (\<exists>out. be_Renew B e (h_record h) (TTL (h_policy h)) s = (out, s1)))"
proof (cases "h_state (expireLocked c h) = StateActive")
  case True
  let ?h = "(expireLocked c h)\<lparr>h_busy := True\<rparr>" and ?f = "FRenew (h_record h) (clk_now c1) (clk_wall c1)"
  have beg: "renew_begin c c1 h = (Inr ?f, ?h)" using True assms(2) by (simp add: section_defs)
  then obtain out where call: "be_Renew B e (h_record h) (TTL (h_policy h)) s = (out, s1)"
    and fin: "flight_finish ?f c2 (RecordResponse out) ?h = (res, h1)"
    using assms(1) by (auto simp: handle_Renew_def split: prod.splits)
  have step: "handle_step (?h, [?f]) (h1, [])" using handle_step.complete [of ?f "[?f]", OF _ _ fin] by simp
  have "handle_ok (h_record h) (?h, [?f])" using True by (simp add: handle_ok_def)
  from handle_step_invariant [OF step this] call show ?thesis by (auto simp: handle_ok_def)
next
  case False
  then have "h_state (expireLocked c h) = StateExpired" using expireLocked_state [of c h] assms(3) by auto
  then show ?thesis using assms(1) by (auto simp: handle_Renew_def section_defs)
qed

text \<open>What the renewal loop does to the backend is renewing this acquisition.\<close>

lemma managed_run_calls:
  assumes "managed_run B rounds h s = (out, h1, s1)" and "\<not> h_busy h" "h_state h = StateActive"
    and "P s" and "\<And>e r ttl s out s1. P s \<Longrightarrow> same_identity (h_record h) r \<Longrightarrow> be_Renew B e r ttl s = (out, s1) \<Longrightarrow>
      e \<in> ro_env ` set rounds \<Longrightarrow> P s1"
  shows "P s1 \<and> same_identity (h_record h) (h_record h1)"
  using assms
proof (induction rounds arbitrary: h s)
  case (Cons ro rounds)
  show ?case
  proof (cases "ro_sleep ro")
    case (Some e)
    then show ?thesis using Cons.prems by (auto simp: managed_exit_def)
  next
    case None
    obtain res h2 s2 where renew: "handle_Renew B (ro_env ro) (ro_clocks ro) (ro_started ro) (ro_finished ro) h s = (res, h2, s2)"
      by (metis prod_cases3)
    note eff = handle_Renew_calls [OF renew Cons.prems(2,3)] handle_Renew_closed [OF renew Cons.prems(2,3)]
    have P2: "P s2" using eff(1) Cons.prems(4) Cons.prems(5) [OF Cons.prems(4) same_identity_refl] by auto
    show ?thesis
    proof (cases res)
      case (Some err)
      then show ?thesis using Cons.prems(1) None renew eff P2
        by (auto simp: handle_State_def Let_def managed_exit_def)
    next
      case res: None
      then have "managed_run B rounds h2 s2 = (out, h1, s1)" using Cons.prems(1) None renew by simp
      moreover have "P s4" if "P s3" "same_identity (h_record h2) r" "be_Renew B e r ttl s3 = (out, s4)" "e \<in> ro_env ` set rounds"
        for e r ttl s3 out s4
        using Cons.prems(5) [OF that(1) _ that(3)] same_identity_trans eff(1) that(2,4) by auto
      ultimately have "P s1 \<and> same_identity (h_record h2) (h_record h1)"
        using Cons.IH [of h2 s2] eff res P2 by auto
      then show ?thesis using eff(1) same_identity_trans by blast
    qed
  qed
qed simp

lemma handle_Release_calls:
  assumes "handle_Release B e h s = (err, h1, s1)" "\<not> h_busy h"
  shows "(h_state h = StateActive \<or> h_state h = StateExpired) \<and> be_Release B e (h_record h) s = (err, s1) \<or>
    h_state h = StateReleased \<and> err = None \<and> s1 = s \<or>
    (h_state h = StateLost \<or> h_state h = StateUncertain) \<and> err_is err (Sentinel ErrInvalidState) \<and> s1 = s"
  using assms by (cases "h_state h")
    (auto simp: handle_Release_def release_begin_def release_finish_def Let_def split: prod.splits option.splits)

lemma guard_release_calls:
  assumes "guard_release B g h s = (err, h1, s1)" "\<not> h_busy h"
  shows "(h_state h = StateActive \<or> h_state h = StateExpired) \<and> be_Release B (ge_release g) (h_record h) s = (err, s1) \<or>
    h_state h = StateReleased \<and> err = None \<and> s1 = s \<or>
    (h_state h = StateLost \<or> h_state h = StateUncertain) \<and> err_is err (Sentinel ErrInvalidState) \<and> s1 = s"
  using handle_Release_calls [OF assms(1) [unfolded guard_release_def] assms(2)] .

text \<open>A run without an error, with a property of the backend's state that its calls keep.\<close>

lemma guard_Run_nil:
  assumes "guard_Run B cl ctx g policy key callback s r = Some (None, s', r')"
    and acquired: "\<And>h s1. guard_acquire B cl ctx g policy key s = (Inr h, s1) \<Longrightarrow> P s1"
    and renewed: "\<And>e rec ttl s out s1. P s \<Longrightarrow> be_Renew B e rec ttl s = (out, s1) \<Longrightarrow> e \<in> ro_env ` set (ge_rounds g) \<Longrightarrow> P s1"
  obtains h s1 rec s2 where "guard_acquire B cl ctx g policy key s = (Inr h, s1)"
    "callback (handle_Token h) r = (None, r')" "same_identity (h_record h) rec" "P s2"
    "be_Release B (ge_release g) rec s2 = (None, s')"
  using assms(1)
proof (cases rule: guard_Run_cases)
  case (worked h s1 callbackErr loss h2 s2 releaseErr h3)
  have none: "callbackErr = None" "loss = None" "releaseErr = None" using worked(5) by auto
  note h = guard_acquire_handle [OF worked(1)]
  have h2: "\<not> h_busy h2 \<and> h_state h2 = StateActive \<and> same_identity (h_record h) (h_record h2) \<and> P s2"
    using worked(3)
  proof (elim disjE conjE exE)
    fix h1 used
    assume start: "handle_StartManaged (ge_start g) (cl_managed cl) (cl_maxManaged cl) h = (None, h1, used)"
      and run: "managed_run B (ge_rounds g) h1 s1 = (Some loss, h2, s2)"
    have h1: "\<not> h_busy h1" "h_record h1 = h_record h" "h_state h1 = StateActive"
      using StartManaged_handle [OF start] h by auto
    have "P s2 \<and> same_identity (h_record h1) (h_record h2)"
      by (rule managed_run_calls [OF run h1(1,3)]) (use acquired [OF worked(1)] renewed in auto)
    then show ?thesis using managed_run_state [OF run h1(1,3)] none h1(2) by simp
  qed (use h acquired [OF worked(1)] in simp)
  then have "be_Release B (ge_release g) (h_record h2) s2 = (None, s')"
    using guard_release_calls [OF worked(4)] none by auto
  then show thesis using that worked(1,2) none h2 by blast
qed (simp_all add: errors_Join_def Let_def)

section \<open>Properties\<close>

text \<open>
  A nil result of \<^verbatim>\<open>guard.Run\<close> means that everything worked: the lease was acquired, the
  callback ran exactly once, with the fence of that acquisition, and succeeded, no renewal
  was lost, and the backend confirmed the release of the same acquisition.
\<close>

theorem guard_Run_success:
  assumes "guard_Run B cl ctx g policy key callback s r = Some (None, s', r')"
  shows "\<exists>h s1 rec s2. guard_acquire B cl ctx g policy key s = (Inr h, s1) \<and>
    callback (handle_Token h) r = (None, r') \<and> same_identity (h_record h) rec \<and>
    be_Release B (ge_release g) rec s2 = (None, s')"
  by (rule guard_Run_nil [where P = "\<lambda>_. True", OF assms]) blast+


text \<open>The calls of a run after its acquisition.\<close>

definition is_renewal :: "Record \<Rightarrow> call \<times> reply \<Rightarrow> bool" where
  "is_renewal r = (\<lambda>(c, rep). \<exists>rec ttl. c = CallRenew rec ttl \<and> same_identity r rec)"

definition is_release :: "Record \<Rightarrow> call \<times> reply \<Rightarrow> bool" where
  "is_release r = (\<lambda>(c, rep). \<exists>rec. c = CallRelease rec \<and> same_identity r rec)"

lemma worked_calls:
  assumes "guard_acquire (logged B) cl ctx g policy key (s, []) = (Inr h, (s1, tr1))"
    and "\<not> 0 <s RenewEvery policy \<and> h2 = h \<and> s2 = (s1, tr1) \<and> loss = None \<or>
       0 <s RenewEvery policy \<and> (\<exists>h1 used. handle_StartManaged (ge_start g) (cl_managed cl) (cl_maxManaged cl) h = (None, h1, used) \<and>
         managed_run (logged B) (ge_rounds g) h1 (s1, tr1) = (Some loss, h2, s2))"
  shows "\<not> h_busy h2 \<and> (\<exists>renewals. snd s2 = tr1 @ renewals \<and> list_all (is_renewal (h_record h)) renewals) \<and>
    same_identity (h_record h) (h_record h2) \<and>
    (h_state h2 \<in> {StateActive, StateExpired} \<or> loss \<noteq> None \<and> h_state h2 \<in> {StateLost, StateUncertain})"
  using assms(2)
proof (elim disjE conjE exE, goal_cases)
  case 1
  then show ?case using guard_acquire_handle [OF assms(1)] by (auto intro: exI [of _ "[]"])
next
  case (2 h1 used)
  let ?P = "\<lambda>x. \<exists>renewals. snd x = tr1 @ renewals \<and> list_all (is_renewal (h_record h)) renewals"
  have renewing: "?P y" if "?P x" "same_identity (h_record h) rec" "be_Renew (logged B) e rec ttl x = (out, y)"
    for x y e rec ttl out
    using that by (auto simp: logged_def is_renewal_def prod.case_eq_if)
  have h1: "\<not> h_busy h1" "h_record h1 = h_record h" "h_state h1 = StateActive"
    using StartManaged_handle [OF 2(2)] guard_acquire_handle [OF assms(1)] by auto
  have "?P s2 \<and> same_identity (h_record h1) (h_record h2)"
    by (rule managed_run_calls [OF 2(3) h1(1,3)]) (use renewing h1(2) in auto)
  then show ?case using managed_run_state [OF 2(3) h1(1,3)] h1(2) by (auto split: option.splits)
qed

text \<open>A panic leaks the lease: the backend has seen no release, so the key is held until it expires.\<close>

lemma guard_panic_calls:
  assumes "guard_Run_panics (logged B) cl ctx g policy key (s, []) = Some (h2, (s', tr))"
  shows "\<exists>h s1 tr1 renewals. guard_acquire (logged B) cl ctx g policy key (s, []) = (Inr h, (s1, tr1)) \<and>
    tr = tr1 @ renewals \<and> list_all (is_renewal (h_record h)) renewals \<and> same_identity (h_record h) (h_record h2)"
proof -
  from assms obtain h s1 tr1 loss where acq: "guard_acquire (logged B) cl ctx g policy key (s, []) = (Inr h, (s1, tr1))"
    and "\<not> 0 <s RenewEvery policy \<and> h2 = h \<and> (s', tr) = (s1, tr1) \<and> loss = None \<or>
       0 <s RenewEvery policy \<and> (\<exists>h1 used. handle_StartManaged (ge_start g) (cl_managed cl) (cl_maxManaged cl) h = (None, h1, used) \<and>
         managed_run (logged B) (ge_rounds g) h1 (s1, tr1) = (Some loss, h2, (s', tr)))"
    by (force simp: guard_Run_panics_def split: prod.splits sum.splits option.splits if_splits)
  from worked_calls [OF this] acq show ?thesis by auto
qed

lemma guard_Run_calls:
  assumes "guard_Run (logged B) cl ctx g policy key callback (s, []) r = Some (err, (s', tr), r')"
    and "guard_acquire (logged B) cl ctx g policy key (s, []) = (Inr h, (s1, tr1))"
  shows "\<exists>renewals releases. tr = tr1 @ renewals @ releases \<and>
    list_all (is_renewal (h_record h)) renewals \<and> list_all (is_release (h_record h)) releases \<and>
    (length releases = 1 \<or> releases = [] \<and> err_is err (Sentinel ErrLost))"
proof -
  have releasing: "\<exists>rep. snd y = snd x @ [(CallRelease rec, rep)]" if "be_Release (logged B) e rec x = (out, y)" for e rec x out y
    using that by (auto simp: logged_def prod.case_eq_if)
  from assms(1) show ?thesis
  proof (cases rule: guard_Run_cases)
    case (refused e)
    then show ?thesis using assms(2) by simp
  next
    case (unmanaged h' s1' e h1 used releaseErr h2)
    have eq: "h' = h" "s1' = (s1, tr1)" using unmanaged(1) assms(2) by simp_all
    have h1: "\<not> h_busy h1" "h_record h1 = h_record h" "h_state h1 \<in> {StateActive, StateExpired}"
      using StartManaged_handle [OF unmanaged(2) [unfolded eq]] guard_acquire_handle [OF assms(2)] by auto
    have "be_Release (logged B) (ge_release g) (h_record h) (s1, tr1) = (releaseErr, (s', tr))"
      using guard_release_calls [OF unmanaged(3) h1(1)] h1(2,3) eq by auto
    from releasing [OF this] obtain rep where "tr = tr1 @ [(CallRelease (h_record h), rep)]" by auto
    then show ?thesis by (intro exI [of _ "[]"] exI [of _ "[(CallRelease (h_record h), rep)]"]) (simp add: is_release_def)
  next
    case (worked h' s1' callbackErr loss h2 s2 releaseErr h3)
    have eq: "h' = h" "s1' = (s1, tr1)" using worked(1) assms(2) by simp_all
    note h2 = worked_calls [OF assms(2) worked(3) [unfolded eq]]
    obtain renewals where tr2: "snd s2 = tr1 @ renewals" "list_all (is_renewal (h_record h)) renewals" using h2 by blast
    consider (released) "be_Release (logged B) (ge_release g) (h_record h2) s2 = (releaseErr, (s', tr))"
      | (lost) l where "loss = Some l" "s2 = (s', tr)"
      using guard_release_calls [OF worked(4)] h2 by auto
    then show ?thesis
    proof cases
      case released
      from releasing [OF this] obtain rep where "tr = snd s2 @ [(CallRelease (h_record h2), rep)]" by auto
      then show ?thesis using tr2 h2
        by (intro exI [of _ renewals] exI [of _ "[(CallRelease (h_record h2), rep)]"]) (simp add: is_release_def)
    next
      case lost
      then have "err_is err (Sentinel ErrLost)" using worked(6) by simp
      then show ?thesis using tr2 lost by (intro exI [of _ renewals] exI [of _ "[]"]) simp
    qed
  qed
qed


text \<open>
  \<^verbatim>\<open>guard.Run\<close> returns. When the callback returns and the sleeper honours cancellation,
  so that some sleep of the renewal loop is cut short, the run has a result.
\<close>

theorem guard_Run_returns:
  assumes "list_ex (\<lambda>ro. ro_sleep ro \<noteq> None) (ge_rounds g)"
  shows "\<exists>err s' r'. guard_Run B cl ctx g policy key callback s r = Some (err, s', r')"
proof (rule ccontr)
  assume "\<not> ?thesis"
  then have "guard_Run B cl ctx g policy key callback s r = None"
    by (cases "guard_Run B cl ctx g policy key callback s r") auto
  then obtain h s1 h1 used h2 s2 where acq: "guard_acquire B cl ctx g policy key s = (Inr h, s1)"
    and start: "handle_StartManaged (ge_start g) (cl_managed cl) (cl_maxManaged cl) h = (None, h1, used)"
    and run: "managed_run B (ge_rounds g) h1 s1 = (None, h2, s2)"
    by (auto simp: guard_Run_def Let_def split: prod.splits sum.splits option.splits if_splits)
  have "\<not> h_busy h1" "h_state h1 = StateActive"
    using StartManaged_handle [OF start] guard_acquire_handle [OF acq] by auto
  from managed_run_state [OF run this] assms show False by (auto simp: list_all_iff list_ex_iff)
qed

section \<open>Releasing a shared backend\<close>

context lease_backend
begin

lemma shared_invar:
  assumes "invar s" "shared_ok x"
  shows "invar (snd (backend_run B (fst x) s))"
  using run_invar [of "fst x" s "fst (backend_run B (fst x) s)" "snd (backend_run B (fst x) s)"] assms
  by (simp add: shared_ok_def)

lemma guard_frees:
  assumes run: "guard_Run (shared B) cl ctx g policy key callback s r = Some (None, s', r')" and "invar s"
    and ident_string: "\<And>k k'. key_String k = key_String k' \<Longrightarrow> ident k = ident k'"
    and envs: "\<forall>i. shared_ok (at_env (ge_attempts g i))" "\<forall>ro \<in> set (ge_rounds g). shared_ok (ro_env ro)"
      "shared_ok (ge_release g)"
  shows "\<exists>h s1. guard_acquire (shared B) cl ctx g policy key s = (Inr h, s1) \<and>
    callback (handle_Token h) r = (None, r') \<and> fence s (ident key) < unat (handle_Token h) \<and>
    (\<forall>t \<ge> ends (snd (ge_release g)). live s' t (ident key) \<noteq> Some (handle_Owner h, handle_Token h))"
proof -
  have acquired: "invar s1 \<and> fence s (ident key) < unat (handle_Token h)"
    if "guard_acquire (shared B) cl ctx g policy key s = (Inr h, s1)" for h s1
  proof -
    from that have "client_Acquire (shared B) cl ctx (ge_owner g) (ge_started g) (ge_attempts g) key policy s = (Inr h, s1)"
      by (simp add: guard_acquire_def)
    from this \<open>invar s\<close> envs(1) show ?thesis
    proof (rule client_Acquire_got)
      fix i s0 owner r
      assume s0: "invar s0" "\<And>j. fence s j \<le> fence s0 j"
        and call: "backend_call B (snd (at_env (ge_attempts g i))) (CallAcquire key owner (TTL policy)) s0 = (Got r, s1)"
        and h: "h = newHandleAt policy r (clk_now (at_clocks (ge_attempts g i))) (clk_wall (at_clocks (ge_attempts g i)))"
      have e: "env_ok (snd (at_env (ge_attempts g i)))" using envs(1) by (simp add: shared_ok_def)
      show ?thesis using invar_call [OF e s0(1) call] acquire_got [OF e s0(1) call] s0(2) [of "ident key"] h
        by (simp add: handle_Token_def newHandleAt_def Let_def)
    qed
  qed
  have renewed: "invar s2" if "invar s1" "be_Renew (shared B) e rec ttl s1 = (out, s2)" "e \<in> ro_env ` set (ge_rounds g)"
    for e rec ttl s1 out s2
  proof -
    have ok: "shared_ok e" using that(3) envs(2) by auto
    then have e: "env_ok (snd e)" by (simp add: shared_ok_def)
    have call: "backend_call B (snd e) (CallRenew rec ttl) (snd (backend_run B (fst e) s1)) = (reply_of out, s2)"
      using that(2) by (simp add: shared_def prod.case_eq_if map_prod_eq)
    show ?thesis by (rule invar_call [OF e shared_invar [OF that(1) ok] call])
  qed
  from run show ?thesis
  proof (rule guard_Run_nil [where P = invar])
    fix h s1 rec s2
    assume acq: "guard_acquire (shared B) cl ctx g policy key s = (Inr h, s1)" and cb: "callback (handle_Token h) r = (None, r')"
      and same: "same_identity (h_record h) rec" and inv: "invar s2"
      and rel: "be_Release (shared B) (ge_release g) rec s2 = (None, s')"
    have call: "backend_call B (snd (ge_release g)) (CallRelease rec) (snd (backend_run B (fst (ge_release g)) s2)) = (Done, s')"
      using rel by (simp add: shared_def prod.case_eq_if map_prod_eq)
    have e: "env_ok (snd (ge_release g))" using envs(3) by (simp add: shared_ok_def)
    have "live s' t (ident (rec_Key rec)) \<noteq> Some (rec_Owner rec, rec_Token rec)" if "ends (snd (ge_release g)) \<le> t" for t
      by (rule release_done [OF e shared_invar [OF inv envs(3)] call that])
    moreover have "ident (rec_Key rec) = ident key" "rec_Owner rec = handle_Owner h" "rec_Token rec = handle_Token h"
      using same guard_acquire_handle [OF acq] ident_string [of "rec_Key rec" key]
      by (simp_all add: same_identity_def handle_Owner_def handle_Token_def)
    ultimately show ?thesis using acq cb acquired [OF acq] by auto
  qed (use acquired renewed in blast)+
qed

end

text \<open>
  Over a memory store that other clients use at the same time: when \<^verbatim>\<open>guard.Run\<close> returns
  nil, its callback worked under a fence above every earlier one, and from its release on
  the acquisition does not hold the key any more.
\<close>

theorem memory_guard_frees:
  assumes "guard_Run (shared memory_backend) cl ctx g policy key callback s r = Some (None, s', r')" and "memory_invar s"
  shows "\<exists>h s1. guard_acquire (shared memory_backend) cl ctx g policy key s = (Inr h, s1) \<and>
    callback (handle_Token h) r = (None, r') \<and> memory_fence s (key_String key) < unat (handle_Token h) \<and>
    (\<forall>t \<ge> mem_now (snd (ge_release g)). memory_live s' t (key_String key) \<noteq> Some (handle_Owner h, handle_Token h))"
  by (rule mem.guard_frees [OF assms]) (simp_all add: mem.shared_ok_def)

section \<open>Witnesses\<close>

definition ex_guard :: "mem_env guard_env" where
  "ex_guard = \<lparr>ge_owner = Inr ''y'', ge_started = 0, ge_attempts = ex_attempt, ge_start = ex_clocks 100000010,
     ge_rounds = [ex_round 1100000000, (ex_round 1200000000)\<lparr>ro_sleep := Some (CtxError Canceled)\<rparr>],
     ge_release = ex_env 1300000000\<rparr>"

text \<open>A callback that notes the fence it was given, and one that also fails.\<close>

definition ex_callback :: "Token list callback" where
  "ex_callback token r = (None, token # r)"

definition ex_failing :: "Token list callback" where
  "ex_failing token r = (Some (Sentinel ErrTimeout), token # r)"

lemma ex_guard_acquired:
  "guard_acquire (logged memory_backend) ex_client (Some None) ex_guard ex_policy ex_key (ex_store, []) =
     (Inr (newHandleAt ex_policy (ex_record ''y'' 1 100000000 5100000000) 100000000 100000000),
      snd (memory_TryAcquire (ex_env 100000000) ex_key ''y'' (5 * Second) ex_store),
      [(CallAcquire ex_key ''y'' (5 * Second), Got (ex_record ''y'' 1 100000000 5100000000))])"
  by code_simp

lemma ex_guard_failed:
  "map_option (\<lambda>(err, (s, tr), r). (err, map fst tr, r))
     (guard_Run (logged memory_backend) ex_client (Some None) ex_guard ex_policy ex_key ex_failing (ex_store, []) []) =
   Some (Some (Joined [Joined [Sentinel ErrTimeout]]),
     [CallAcquire ex_key ''y'' (5 * Second), CallRenew (ex_record ''y'' 1 100000000 5100000000) (5 * Second),
      CallRelease (ex_record ''y'' 1 100000000 6100000000)], [1])"
  by code_simp



theorem guard_Run_returns_witness:
  "\<exists>err s' r'. guard_Run memory_backend ex_client (Some None) ex_guard ex_policy ex_key ex_callback ex_store [] = Some (err, s', r')"
  by (rule guard_Run_returns) (simp add: ex_guard_def)

definition ex_shared_attempt :: "uint32 \<Rightarrow> ((mem_env \<times> call) list \<times> mem_env) attempt" where
  "ex_shared_attempt n = \<lparr>at_clocks = ex_clocks 1000, at_env = ([(ex_env 10, CallAcquire ex_key ''z'' 50)], ex_env 1000),
     at_ctxErr = None, at_waitErr = None, at_jitter = 0, at_now = 1000, at_sleep = None, at_ctxErr2 = None, at_waitErr2 = None\<rparr>"

definition ex_shared_guard :: "((mem_env \<times> call) list \<times> mem_env) guard_env" where
  "ex_shared_guard = \<lparr>ge_owner = Inr ''y'', ge_started = 0, ge_attempts = ex_shared_attempt, ge_start = ex_clocks 1000,
     ge_rounds = [\<lparr>ro_sleep = Some (CtxError Canceled), ro_clocks = ex_clocks 1000, ro_started = ex_clocks 1000,
       ro_env = ([], ex_env 1000), ro_finished = ex_clocks 1000, ro_at = 1000, ro_state = ex_clocks 1000\<rparr>],
     ge_release = ([(ex_env 2000, CallAcquire ex_key ''z'' 50)], ex_env 3000)\<rparr>"

lemma ex_shared_run:
  "map_option (\<lambda>(err, s, r). (err, r)) (guard_Run (shared memory_backend) ex_client (Some None) ex_shared_guard ex_policy ex_key
     ex_callback ex_store []) = Some (None, [2])"
  by code_simp

text \<open>Another client had the key before, and asks for it again while the callback runs.\<close>

theorem memory_guard_frees_witness:
  "\<exists>s' h. guard_Run (shared memory_backend) ex_client (Some None) ex_shared_guard ex_policy ex_key ex_callback ex_store [] =
     Some (None, s', [2]) \<and> handle_Token h = 2 \<and>
     memory_live s' 3000 (key_String ex_key) \<noteq> Some (handle_Owner h, handle_Token h)"
proof -
  from ex_shared_run obtain s' where run: "guard_Run (shared memory_backend) ex_client (Some None) ex_shared_guard ex_policy ex_key
      ex_callback ex_store [] = Some (None, s', [2])" by auto
  from memory_guard_frees [OF this ex_store_invar(1)] obtain h where
    "ex_callback (handle_Token h) [] = (None, [2])"
    "memory_live s' (mem_now (snd (ge_release ex_shared_guard))) (key_String ex_key) \<noteq> Some (handle_Owner h, handle_Token h)" by blast
  with run show ?thesis by (auto simp: ex_callback_def ex_shared_guard_def ex_env_def)
qed

section \<open>Tasks of the queue worker\<close>


text \<open>A worker that notes the fences it reads from the context, and whose keys are the tasks.\<close>

definition ex_worker :: "(Key, (Token \<times> bool) list) Worker" where
  "ex_worker = \<lparr>wk_inner = \<lparr>iw_Run = (\<lambda>ctx task r. (Some (Sentinel ErrTimeout), TokenFromContext ctx # r)), iw_Shutdown = Pair None,
       iw_Queue = (\<lambda>task. Pair None), iw_Request = Pair (None, None)\<rparr>,
     wk_client = ex_client, wk_policy = ex_policy, wk_key = Inr\<rparr>"

lemma ex_worker_run:
  "map_option (\<lambda>(err, (s, tr), r). (map fst tr, r)) (worker_Run ex_worker (logged memory_backend) (Some None) ex_guard
     \<lparr>ctx_token = None\<rparr> ex_key (ex_store, []) []) =
   Some ([CallAcquire ex_key ''y'' (5 * Second), CallRenew (ex_record ''y'' 1 100000000 5100000000) (5 * Second),
      CallRelease (ex_record ''y'' 1 100000000 6100000000)], [(1, True)])"
  by code_simp


end
