(* ===== verification/Service_Manager.thy ===== *)
theory Service_Manager
  imports Lease_Guard
begin

text \<open>
  \<^verbatim>\<open>adapters/service/manager.go\<close>: the lifecycle manager of a service. The sections under the
  manager's mutex are functions on its state, with the 32-bit counters of the code; a
  channel is a number, open until it is in the list of closed channels, and closing a closed
  channel is the panic it is in Go. The sections are composed to the whole operations, and
  interleaved by a step relation.
\<close>

section \<open>State\<close>

record owned =
  ow_handle :: Handle
  ow_managed :: bool

record Manager =
  mg_max :: uint32
  mg_active :: uint32
  mg_acquiring :: uint32
  mg_closed :: bool
  mg_entries :: "owned list"
  mg_acquisitionsDone :: nat
  mg_shutdownStarted :: bool
  mg_shutdownDone :: "nat option"
  mg_shutdownErr :: "gerror option"
  mg_channels :: nat
  mg_closedChannels :: "nat list"
  mg_panicked :: bool

definition make_channel :: "Manager \<Rightarrow> nat \<times> Manager" where
  "make_channel m = (mg_channels m, m\<lparr>mg_channels := mg_channels m + 1\<rparr>)"

definition close_channel :: "nat \<Rightarrow> Manager \<Rightarrow> Manager" where
  "close_channel ch m =
     (if ch \<in> set (mg_closedChannels m) then m\<lparr>mg_panicked := True\<rparr>
      else m\<lparr>mg_closedChannels := ch # mg_closedChannels m\<rparr>)"

definition manager_New :: "bool \<Rightarrow> uint32 \<Rightarrow> Manager result" where
  "manager_New client_set maxHandles =
     (if \<not> client_set \<or> maxHandles = 0 then Inl (Wrap (Sentinel ErrInvalidState) ''service manager'')
      else Inr (close_channel 0 \<lparr>mg_max = maxHandles, mg_active = 0, mg_acquiring = 0, mg_closed = False, mg_entries = [],
        mg_acquisitionsDone = 0, mg_shutdownStarted = False, mg_shutdownDone = None, mg_shutdownErr = None,
        mg_channels = 1, mg_closedChannels = [], mg_panicked = False\<rparr>))"

section \<open>Sections\<close>

definition operationContextError :: "ctx_error option option \<Rightarrow> string \<Rightarrow> gerror option" where
  "operationContextError ctx operation =
     (case ctx of
        None \<Rightarrow> Some (Wrap (Sentinel ErrInvalidState) (operation @ '' context''))
      | Some (Some cerr) \<Rightarrow> errors_Join [Some (Wrap (Sentinel ErrCanceled) operation), Some (CtxError cerr)]
      | Some None \<Rightarrow> None)"

definition acquire_enter :: "ctx_error option option \<Rightarrow> Manager \<Rightarrow> gerror option \<times> Manager" where
  "acquire_enter ctx m =
     (case operationContextError ctx ''service acquire'' of
        Some err \<Rightarrow> (Some err, m)
      | None \<Rightarrow>
          if mg_closed m then (Some (Wrap (Sentinel ErrInvalidState) ''service shutdown''), m)
          else if mg_active m \<ge> mg_max m then (Some (Wrap (Sentinel ErrBackendUnavailable) ''service capacity''), m)
          else
            let m1 = m\<lparr>mg_active := mg_active m + 1\<rparr>;
                m2 = (if mg_acquiring m1 = 0
                  then (case make_channel m1 of (ch, m') \<Rightarrow> m'\<lparr>mg_acquisitionsDone := ch\<rparr>) else m1)
            in (None, m2\<lparr>mg_acquiring := mg_acquiring m2 + 1\<rparr>))"

definition finishAcquisitionLocked :: "Manager \<Rightarrow> Manager" where
  "finishAcquisitionLocked m =
     (let m1 = m\<lparr>mg_acquiring := mg_acquiring m - 1\<rparr>
      in if mg_acquiring m1 = 0 then close_channel (mg_acquisitionsDone m1) m1 else m1)"

definition releaseReservation :: "Manager \<Rightarrow> Manager" where
  "releaseReservation m = finishAcquisitionLocked (m\<lparr>mg_active := mg_active m - 1\<rparr>)"

text \<open>The acquired handle joins the entries; the channel of a shutdown that won is returned.\<close>

definition acquire_join :: "owned \<Rightarrow> Manager \<Rightarrow> nat option \<times> Manager" where
  "acquire_join ow m =
     (let m1 = finishAcquisitionLocked (m\<lparr>mg_entries := mg_entries m @ [ow]\<rparr>)
      in (if mg_closed m then mg_shutdownDone m1 else None, m1))"

definition manager_Active :: "Manager \<Rightarrow> uint32" where
  "manager_Active m = mg_active m"

definition shutdown_enter :: "Manager \<Rightarrow> bool \<times> Manager" where
  "shutdown_enter m =
     (if mg_shutdownStarted m then (False, m)
      else (case make_channel (m\<lparr>mg_closed := True, mg_shutdownStarted := True\<rparr>) of
          (ch, m1) \<Rightarrow> (True, m1\<lparr>mg_shutdownDone := Some ch\<rparr>)))"

definition cleanup_finish :: "gerror option \<Rightarrow> owned list \<Rightarrow> Manager \<Rightarrow> Manager" where
  "cleanup_finish result entries m =
     (let m1 = m\<lparr>mg_shutdownErr := result, mg_entries := [], mg_active := mg_active m - of_nat (length entries)\<rparr>
      in case mg_shutdownDone m1 of None \<Rightarrow> m1 | Some ch \<Rightarrow> close_channel ch m1)"

section \<open>Whole operations\<close>

text \<open>
  \<^verbatim>\<open>Manager.Acquire\<close>. \<open>between\<close> is what other goroutines do to the manager while the lease is
  acquired, \<open>waited\<close> the error of the caller's context when it ends before the shutdown does,
  \<open>after\<close> the manager when the shutdown is done.
\<close>

definition manager_Acquire ::
  "('e, 's) Backend \<Rightarrow> Client \<Rightarrow> ctx_error option option \<Rightarrow> 'e guard_env \<Rightarrow> (Manager \<Rightarrow> Manager) \<Rightarrow> ctx_error option \<Rightarrow>
   (Manager \<Rightarrow> Manager) \<Rightarrow> Key \<Rightarrow> Policy \<Rightarrow> Manager \<Rightarrow> 's \<Rightarrow> Handle result \<times> Manager \<times> 's" where
  "manager_Acquire B cl ctx g between waited after key policy m s =
     (case acquire_enter ctx m of
        (Some err, m1) \<Rightarrow> (Inl err, m1, s)
      | (None, m1) \<Rightarrow>
          (case guard_acquire B cl ctx g policy key s of
             (Inl err, s1) \<Rightarrow> (Inl err, releaseReservation (between m1), s1)
           | (Inr h, s1) \<Rightarrow>
               let renewing = 0 <s RenewEvery policy;
                   start = (if renewing then handle_StartManaged (ge_start g) (cl_managed cl) (cl_maxManaged cl) h
                     else (None, h, cl_managed cl))
               in (case start of
                    (Some err, h1, used) \<Rightarrow>
                      (case handle_Release B (ge_release g) h1 s1 of
                         (releaseErr, h2, s2) \<Rightarrow>
                           (Inl (the (errors_Join [Some err, releaseErr])), releaseReservation (between m1), s2))
                  | (None, h1, used) \<Rightarrow>
                      (case acquire_join \<lparr>ow_handle = h1, ow_managed = renewing\<rparr> (between m1) of
                         (None, m2) \<Rightarrow> (Inr h1, m2, s1)
                       | (Some done, m2) \<Rightarrow>
                           (case waited of
                              None \<Rightarrow> (Inl (the (errors_Join [Some (Wrap (Sentinel ErrInvalidState) ''service shutdown''),
                                  mg_shutdownErr (after m2)])), after m2, s1)
                            | Some cerr \<Rightarrow> (Inl (the (errors_Join [Some (Wrap (Sentinel ErrInvalidState) ''service shutdown''),
                                  Some (Wrap (Sentinel ErrCanceled) ''service acquire''), Some (CtxError cerr)])), m2, s1))))))"

text \<open>
  One entry of the cleanup: the renewal loop of a managed handle is stopped, which waits
  until it has ended, and the handle is released.
\<close>

fun cleanup_entries ::
  "('e, 's) Backend \<Rightarrow> (owned \<times> 'e round list \<times> 'e) list \<Rightarrow> gerror option \<Rightarrow> 's \<Rightarrow> (gerror option \<times> 's) option" where
  "cleanup_entries B [] result s = Some (result, s)"
| "cleanup_entries B ((entry, rounds, e) # rest) result s =
     (case (if ow_managed entry
            then (case managed_run B rounds (ow_handle entry) s of
                (None, h1, s1) \<Rightarrow> None
              | (Some loss, h1, s1) \<Rightarrow> Some (errors_Join [result, managed_Stop LoopDone], h1, s1))
            else Some (result, ow_handle entry, s)) of
        None \<Rightarrow> None
      | Some (result1, h1, s1) \<Rightarrow>
          (case handle_Release B e h1 s1 of
             (releaseErr, h2, s2) \<Rightarrow> cleanup_entries B rest (errors_Join [result1, releaseErr]) s2))"

text \<open>
  \<^verbatim>\<open>Manager.cleanup\<close>, run once the acquisitions are done; \<open>envs i\<close> is what the entry with index
  \<open>i\<close> meets.
\<close>

definition manager_cleanup ::
  "('e, 's) Backend \<Rightarrow> (nat \<Rightarrow> 'e round list \<times> 'e) \<Rightarrow> (Manager \<Rightarrow> Manager) \<Rightarrow> Manager \<Rightarrow> 's \<Rightarrow> (Manager \<times> 's) option" where
  "manager_cleanup B envs between m s =
     (let entries = mg_entries m
      in case cleanup_entries B (zip entries (map envs [0..<length entries])) None s of
           None \<Rightarrow> None
         | Some (result, s1) \<Rightarrow> Some (cleanup_finish result entries (between m), s1))"

text \<open>
  \<^verbatim>\<open>Manager.Shutdown\<close>: \<open>waited\<close> is the error of the caller's context when it ends first, and
  otherwise \<open>after\<close> is the manager when the cleanup is done.
\<close>

definition manager_Shutdown ::
  "ctx_error option option \<Rightarrow> ctx_error option \<Rightarrow> (Manager \<Rightarrow> Manager) \<Rightarrow> Manager \<Rightarrow> gerror option \<times> bool \<times> Manager" where
  "manager_Shutdown ctx waited after m =
     (case ctx of
        None \<Rightarrow> (Some (Wrap (Sentinel ErrInvalidState) ''service shutdown context''), False, m)
      | Some c \<Rightarrow>
          (case shutdown_enter m of
             (started, m1) \<Rightarrow>
               (case waited of
                  None \<Rightarrow> (mg_shutdownErr (after m1), started, after m1)
                | Some cerr \<Rightarrow> (errors_Join [Some (Wrap (Sentinel ErrCanceled) ''service shutdown''), Some (CtxError cerr)],
                    started, m1))))"

text \<open>The hooks for a service runner: a start that does nothing, and the shutdown as stop.\<close>

definition manager_Hooks where
  "manager_Hooks = ((\<lambda>ctx :: ctx_error option option. None :: gerror option), manager_Shutdown)"

section \<open>Interleaving\<close>

text \<open>
  Any number of acquisitions and shutdowns beside one cleanup. \<open>sv_reserved\<close> counts the
  acquisitions between their first and their last section, \<open>sv_joined\<close> collects the handles
  that joined the entries, and \<open>sv_cleaned\<close> those the cleanup stopped and released.
\<close>

datatype cleanup_phase = CleanupIdle | CleanupStarted | CleanupWaiting nat | CleanupRunning "owned list" | CleanupDone

record service =
  sv_manager :: Manager
  sv_reserved :: nat
  sv_phase :: cleanup_phase
  sv_joined :: "owned list"
  sv_cleaned :: "owned list"

inductive service_step :: "service \<Rightarrow> service \<Rightarrow> bool" where
  enter: "acquire_enter ctx (sv_manager v) = (None, m1) \<Longrightarrow>
    service_step v (v\<lparr>sv_manager := m1, sv_reserved := sv_reserved v + 1\<rparr>)"
| refuse: "acquire_enter ctx (sv_manager v) = (Some err, m1) \<Longrightarrow> service_step v (v\<lparr>sv_manager := m1\<rparr>)"
| rollback: "0 < sv_reserved v \<Longrightarrow>
    service_step v (v\<lparr>sv_manager := releaseReservation (sv_manager v), sv_reserved := sv_reserved v - 1\<rparr>)"
| join: "0 < sv_reserved v \<Longrightarrow> acquire_join ow (sv_manager v) = (done, m1) \<Longrightarrow>
    service_step v (v\<lparr>sv_manager := m1, sv_reserved := sv_reserved v - 1, sv_joined := sv_joined v @ [ow]\<rparr>)"
| shutdown: "shutdown_enter (sv_manager v) = (started, m1) \<Longrightarrow>
    service_step v (v\<lparr>sv_manager := m1, sv_phase := (if started then CleanupStarted else sv_phase v)\<rparr>)"
| cleanup_begin: "sv_phase v = CleanupStarted \<Longrightarrow>
    service_step v (v\<lparr>sv_phase := CleanupWaiting (mg_acquisitionsDone (sv_manager v))\<rparr>)"
| cleanup_snapshot: "sv_phase v = CleanupWaiting ch \<Longrightarrow> ch \<in> set (mg_closedChannels (sv_manager v)) \<Longrightarrow>
    service_step v (v\<lparr>sv_phase := CleanupRunning (mg_entries (sv_manager v))\<rparr>)"
| cleanup_end: "sv_phase v = CleanupRunning entries \<Longrightarrow>
    service_step v (v\<lparr>sv_manager := cleanup_finish result entries (sv_manager v), sv_phase := CleanupDone,
      sv_cleaned := entries\<rparr>)"

definition service_new :: "Manager \<Rightarrow> service" where
  "service_new m = \<lparr>sv_manager = m, sv_reserved = 0, sv_phase = CleanupIdle, sv_joined = [], sv_cleaned = []\<rparr>"

section \<open>Accounting\<close>

text \<open>The channels: those that are or were in use have been made, and are closed when they should be.\<close>

definition channels_ok :: "service \<Rightarrow> bool" where
  "channels_ok v \<longleftrightarrow> (let m = sv_manager v in
     \<not> mg_panicked m \<and> mg_acquisitionsDone m < mg_channels m \<and>
     (\<forall>ch \<in> set (mg_closedChannels m). ch < mg_channels m) \<and>
     (mg_acquisitionsDone m \<in> set (mg_closedChannels m) \<longleftrightarrow> sv_reserved v = 0) \<and>
     (\<forall>ch. mg_shutdownDone m = Some ch \<longrightarrow> ch < mg_channels m \<and> ch \<noteq> mg_acquisitionsDone m \<and>
        (ch \<in> set (mg_closedChannels m) \<longleftrightarrow> sv_phase v = CleanupDone)) \<and>
     (mg_shutdownDone m \<noteq> None \<longleftrightarrow> mg_shutdownStarted m))"

definition counts_ok :: "service \<Rightarrow> bool" where
  "counts_ok v \<longleftrightarrow> (let m = sv_manager v in
     unat (mg_acquiring m) = sv_reserved v \<and>
     unat (mg_active m) = sv_reserved v + length (mg_entries m) \<and> mg_active m \<le> mg_max m)"

definition phase_ok :: "service \<Rightarrow> bool" where
  "phase_ok v \<longleftrightarrow> (let m = sv_manager v in
     mg_closed m = mg_shutdownStarted m \<and> (sv_phase v = CleanupIdle \<longleftrightarrow> \<not> mg_shutdownStarted m) \<and>
     (case sv_phase v of
        CleanupWaiting ch \<Rightarrow> ch = mg_acquisitionsDone m \<and> mg_entries m = sv_joined v
      | CleanupRunning entries \<Rightarrow> sv_reserved v = 0 \<and> entries = sv_joined v \<and> mg_entries m = sv_joined v
      | CleanupDone \<Rightarrow> sv_reserved v = 0 \<and> mg_entries m = [] \<and> sv_cleaned v = sv_joined v
      | _ \<Rightarrow> mg_entries m = sv_joined v))"

lemmas service_invs = channels_ok_def counts_ok_def phase_ok_def Let_def

lemma unat32_inc:
  assumes "x < (y :: uint32)"
  shows "unat (x + 1) = unat x + 1" "x + 1 \<le> y"
proof -
  have "x \<noteq> - 1" using assms by auto
  then show "unat (x + 1) = unat x + 1" by (simp add: unat_succ)
qed (use assms in \<open>rule inc_le\<close>)

lemma unat32_dec: "0 < unat (x :: uint32) \<Longrightarrow> unat (x - 1) = unat x - 1"
  by (simp add: unat_minus_one unat_gt_0)

lemma acquire_enter_None:
  assumes "acquire_enter ctx m = (None, m1)"
  shows "\<not> mg_closed m \<and> mg_active m < mg_max m \<and>
    (if mg_acquiring m = 0
     then m1 = m\<lparr>mg_active := mg_active m + 1, mg_channels := mg_channels m + 1, mg_acquisitionsDone := mg_channels m,
       mg_acquiring := mg_acquiring m + 1\<rparr>
     else m1 = m\<lparr>mg_active := mg_active m + 1, mg_acquiring := mg_acquiring m + 1\<rparr>)"
  using assms by (auto simp: acquire_enter_def make_channel_def Let_def split: option.splits if_splits)

lemma acquire_enter_Some: "acquire_enter ctx m = (Some err, m1) \<Longrightarrow> m1 = m"
  by (auto simp: acquire_enter_def Let_def split: option.splits if_splits)

text \<open>The end of an acquisition, with the accounting it starts from.\<close>

lemma finishAcquisition_effect:
  assumes "unat (mg_acquiring m) = Suc n" "mg_acquisitionsDone m \<notin> set (mg_closedChannels m)"
  shows "finishAcquisitionLocked m = m\<lparr>mg_acquiring := mg_acquiring m - 1,
      mg_closedChannels := (if n = 0 then mg_acquisitionsDone m # mg_closedChannels m else mg_closedChannels m)\<rparr>"
    "unat (mg_acquiring m - 1) = n"
proof -
  show n: "unat (mg_acquiring m - 1) = n" using unat32_dec [of "mg_acquiring m"] assms(1) by simp
  then have "mg_acquiring m - 1 = 0 \<longleftrightarrow> n = 0" by (metis unat_eq_zero)
  then show "finishAcquisitionLocked m = m\<lparr>mg_acquiring := mg_acquiring m - 1,
      mg_closedChannels := (if n = 0 then mg_acquisitionsDone m # mg_closedChannels m else mg_closedChannels m)\<rparr>"
    using assms(2) by (simp add: finishAcquisitionLocked_def close_channel_def Let_def)
qed

definition service_ok :: "service \<Rightarrow> bool" where
  "service_ok v \<longleftrightarrow> channels_ok v \<and> counts_ok v \<and> phase_ok v"

lemma service_step_ok:
  assumes "service_step v v'" and "service_ok v"
  shows "service_ok v' \<and> mg_max (sv_manager v') = mg_max (sv_manager v)"
  using assms(1)
proof (cases rule: service_step.cases)
  case (enter ctx m1)
  note eff = acquire_enter_None [OF enter(2)]
  have le: "unat (mg_acquiring (sv_manager v)) \<le> unat (mg_active (sv_manager v))"
    using assms(2) by (simp add: service_ok_def service_invs)
  then have "mg_acquiring (sv_manager v) < mg_max (sv_manager v)"
    using eff by (simp add: word_less_nat_alt)
  note inc = unat32_inc [OF this] unat32_inc [of "mg_active (sv_manager v)" "mg_max (sv_manager v)"]
  have idle: "sv_phase v = CleanupIdle" using assms(2) eff by (auto simp: service_ok_def service_invs)
  have z: "mg_acquiring (sv_manager v) = 0 \<longleftrightarrow> sv_reserved v = 0"
    using assms(2) by (auto simp: service_ok_def service_invs unat_eq_zero)
  show ?thesis
    using assms(2) eff inc idle z unfolding enter(1) by (auto simp: service_ok_def service_invs split: if_splits)
next
  case (refuse ctx err m1)
  then show ?thesis using assms(2) acquire_enter_Some [OF refuse(2)] by simp
next
  case rollback
  then obtain n where n: "sv_reserved v = Suc n" by (cases "sv_reserved v") auto
  let ?m = "(sv_manager v)\<lparr>mg_active := mg_active (sv_manager v) - 1\<rparr>"
  have pre: "unat (mg_acquiring ?m) = Suc n" "mg_acquisitionsDone ?m \<notin> set (mg_closedChannels ?m)"
    using assms(2) n by (simp_all add: service_ok_def service_invs)
  have act: "unat (mg_active (sv_manager v) - 1) = unat (mg_active (sv_manager v)) - 1"
    by (rule unat32_dec) (use assms(2) n in \<open>simp add: service_ok_def service_invs\<close>)
  moreover have "unat (mg_active (sv_manager v)) \<le> unat (mg_max (sv_manager v))"
    using assms(2) by (simp add: service_ok_def service_invs word_le_nat_alt)
  ultimately have le: "mg_active (sv_manager v) - 1 \<le> mg_max (sv_manager v)" by (simp add: word_le_nat_alt)
  show ?thesis
    using assms(2) n act le finishAcquisition_effect [OF pre] unfolding rollback(1) releaseReservation_def
    by (auto simp: service_ok_def service_invs split: cleanup_phase.splits)
next
  case (join ow ch m1)
  then obtain n where n: "sv_reserved v = Suc n" by (cases "sv_reserved v") auto
  let ?m = "(sv_manager v)\<lparr>mg_entries := mg_entries (sv_manager v) @ [ow]\<rparr>"
  have pre: "unat (mg_acquiring ?m) = Suc n" "mg_acquisitionsDone ?m \<notin> set (mg_closedChannels ?m)"
    using assms(2) n by (simp_all add: service_ok_def service_invs)
  have "m1 = finishAcquisitionLocked ?m" using join(3) by (simp add: acquire_join_def Let_def)
  then show ?thesis
    using assms(2) n finishAcquisition_effect [OF pre] unfolding join(1)
    by (auto simp: service_ok_def service_invs split: cleanup_phase.splits)
next
  case (shutdown started m1)
  show ?thesis
  proof (cases "mg_shutdownStarted (sv_manager v)")
    case True
    then have "v' = v" using shutdown by (cases v) (simp add: shutdown_enter_def)
    then show ?thesis using assms(2) by simp
  next
    case False
    then have "m1 = (sv_manager v)\<lparr>mg_closed := True, mg_shutdownStarted := True, mg_channels := mg_channels (sv_manager v) + 1,
        mg_shutdownDone := Some (mg_channels (sv_manager v))\<rparr>" "started"
      using shutdown(2) by (auto simp: shutdown_enter_def make_channel_def)
    then show ?thesis using assms(2) False unfolding shutdown(1)
      by (auto simp: service_ok_def service_invs split: cleanup_phase.splits)
  qed
next
  case cleanup_begin
  then show ?thesis using assms(2) by (auto simp: service_ok_def service_invs)
next
  case (cleanup_snapshot ch)
  then show ?thesis using assms(2) by (auto simp: service_ok_def service_invs)
next
  case (cleanup_end entries result)
  have "unat (mg_active (sv_manager v)) = length entries"
    using assms(2) cleanup_end(2) by (auto simp: service_ok_def service_invs)
  moreover have "mg_active (sv_manager v) = of_nat (unat (mg_active (sv_manager v)))" by simp
  ultimately have "mg_active (sv_manager v) = of_nat (length entries)" by simp
  then show ?thesis using assms(2) cleanup_end
    by (auto simp: service_ok_def service_invs cleanup_finish_def close_channel_def split: option.splits)
qed

lemma service_new_ok: "manager_New c n = Inr m \<Longrightarrow> service_ok (service_new m) \<and> mg_max m = n"
  by (auto simp: manager_New_def service_new_def service_ok_def service_invs close_channel_def split: if_splits)

lemma service_steps_ok:
  "service_step\<^sup>*\<^sup>* v v' \<Longrightarrow> service_ok v \<Longrightarrow> service_ok v' \<and> mg_max (sv_manager v') = mg_max (sv_manager v)"
  by (induction rule: rtranclp_induct) (auto dest: service_step_ok)

lemma service_done_step:
  assumes "service_step v v'" "service_ok v" "sv_phase v = CleanupDone"
  shows "sv_phase v' = CleanupDone"
  using assms by (cases rule: service_step.cases)
    (auto simp: service_ok_def service_invs shutdown_enter_def split: if_splits)

lemma service_done_steps:
  "service_step\<^sup>*\<^sup>* v v' \<Longrightarrow> service_ok v \<Longrightarrow> sv_phase v = CleanupDone \<Longrightarrow> sv_phase v' = CleanupDone"
  by (induction rule: rtranclp_induct) (auto dest: service_steps_ok service_done_step)

section \<open>Properties\<close>

text \<open>
  C20: Accounting of the service manager. However acquisitions, shutdowns and the cleanup
  interleave, the active count is the acquisitions in flight plus the entries, it never
  exceeds the bound, no counter wraps, no channel is closed twice, and the channel the
  cleanup waits for is closed exactly when no acquisition is in flight, so the cleanup
  never waits for a channel that nobody closes.
\<close>

theorem manager_accounting:
  assumes "manager_New c maxHandles = Inr m" and "service_step\<^sup>*\<^sup>* (service_new m) v"
  shows "\<not> mg_panicked (sv_manager v) \<and>
    unat (manager_Active (sv_manager v)) = sv_reserved v + length (mg_entries (sv_manager v)) \<and>
    manager_Active (sv_manager v) \<le> maxHandles \<and>
    unat (mg_acquiring (sv_manager v)) = sv_reserved v \<and>
    (mg_acquisitionsDone (sv_manager v) \<in> set (mg_closedChannels (sv_manager v)) \<longleftrightarrow> sv_reserved v = 0) \<and>
    (case sv_phase v of CleanupWaiting ch \<Rightarrow> ch = mg_acquisitionsDone (sv_manager v) | _ \<Rightarrow> True)"
  using service_steps_ok [OF assms(2)] service_new_ok [OF assms(1)]
  by (auto simp: service_ok_def service_invs manager_Active_def service_new_def split: cleanup_phase.splits)


section \<open>Cleanup reports every failure\<close>

lemma cleanup_entries_keeps:
  "cleanup_entries B xs result s = Some (result', s') \<Longrightarrow> err_is result t \<Longrightarrow> err_is result' t"
proof (induction xs arbitrary: result s)
  case (Cons x xs)
  obtain entry rounds e where x: "x = (entry, rounds, e)" by (cases x)
  show ?case using Cons.prems Cons.IH unfolding x
    by (auto split: option.splits prod.splits if_splits)
qed simp

section \<open>Witnesses\<close>

definition ex_manager :: Manager where
  "ex_manager = (case manager_New True 2 of Inr m \<Rightarrow> m | Inl e \<Rightarrow> undefined)"

lemma ex_manager_New: "manager_New True 2 = Inr ex_manager"
  by (simp add: ex_manager_def manager_New_def)

definition ex_owned :: owned where
  "ex_owned = \<lparr>ow_handle = ex_handle, ow_managed = False\<rparr>"

text \<open>An acquisition is in flight when the shutdown starts, joins, and is cleaned up.\<close>

definition ex_service1 :: service where
  "ex_service1 = (service_new ex_manager)\<lparr>sv_manager := snd (acquire_enter (Some None) ex_manager), sv_reserved := 1\<rparr>"

definition ex_service2 :: service where
  "ex_service2 = ex_service1\<lparr>sv_manager := snd (shutdown_enter (sv_manager ex_service1)), sv_phase := CleanupStarted\<rparr>"

definition ex_service3 :: service where
  "ex_service3 = ex_service2\<lparr>sv_manager := snd (acquire_join ex_owned (sv_manager ex_service2)), sv_reserved := 0,
     sv_joined := [ex_owned]\<rparr>"

definition ex_service4 :: service where
  "ex_service4 = ex_service3\<lparr>sv_manager := cleanup_finish None [ex_owned] (sv_manager ex_service3), sv_phase := CleanupDone,
     sv_cleaned := [ex_owned]\<rparr>"

lemma ex_service_steps: "service_step\<^sup>*\<^sup>* (service_new ex_manager) ex_service3" "service_step\<^sup>*\<^sup>* (service_new ex_manager) ex_service4"
  "service_step\<^sup>*\<^sup>* (service_new ex_manager) ex_service2"
proof -
  have "acquire_enter (Some None) (sv_manager (service_new ex_manager)) = (None, sv_manager ex_service1)"
    by (simp add: acquire_enter_def operationContextError_def service_new_def ex_service1_def ex_manager_def manager_New_def
        close_channel_def make_channel_def Let_def)
  from service_step.enter [OF this] have one: "service_step (service_new ex_manager) ex_service1"
    by (simp add: ex_service1_def service_new_def)
  have "shutdown_enter (sv_manager ex_service1) = (True, sv_manager ex_service2)"
    by (simp add: shutdown_enter_def ex_service1_def ex_service2_def ex_manager_def manager_New_def
        close_channel_def make_channel_def acquire_enter_def operationContextError_def Let_def)
  from service_step.shutdown [OF this] have two: "service_step ex_service1 ex_service2"
    by (simp add: ex_service2_def)
  have "acquire_join ex_owned (sv_manager ex_service2) = (fst (acquire_join ex_owned (sv_manager ex_service2)), sv_manager ex_service3)"
    by (simp add: ex_service3_def)
  from service_step.join [OF _ this] have three: "service_step ex_service2 ex_service3"
    by (simp add: ex_service3_def ex_service2_def ex_service1_def service_new_def)
  have m3: "mg_acquisitionsDone (sv_manager ex_service3) \<in> set (mg_closedChannels (sv_manager ex_service3))"
    "mg_entries (sv_manager ex_service3) = [ex_owned]"
    by code_simp+
  let ?w = "ex_service3\<lparr>sv_phase := CleanupWaiting (mg_acquisitionsDone (sv_manager ex_service3))\<rparr>"
  have "service_step ex_service3 ?w"
    by (rule service_step.cleanup_begin) (simp add: ex_service3_def ex_service2_def)
  moreover have "service_step ?w (ex_service3\<lparr>sv_phase := CleanupRunning [ex_owned]\<rparr>)"
    using service_step.cleanup_snapshot [of ?w] m3 by simp
  moreover have "service_step (ex_service3\<lparr>sv_phase := CleanupRunning [ex_owned]\<rparr>) ex_service4"
    using service_step.cleanup_end [of "ex_service3\<lparr>sv_phase := CleanupRunning [ex_owned]\<rparr>" "[ex_owned]" None]
    by (simp add: ex_service4_def)
  ultimately show "service_step\<^sup>*\<^sup>* (service_new ex_manager) ex_service3" "service_step\<^sup>*\<^sup>* (service_new ex_manager) ex_service4"
    "service_step\<^sup>*\<^sup>* (service_new ex_manager) ex_service2"
    using one two three by (meson converse_rtranclp_into_rtranclp rtranclp.rtrancl_refl)+
qed

theorem manager_accounting_witness:
  "unat (manager_Active (sv_manager ex_service3)) = 1 \<and> \<not> mg_panicked (sv_manager ex_service3)"
  using manager_accounting [OF ex_manager_New ex_service_steps(1)] by (simp add: ex_service3_def) code_simp


section \<open>Shutdown is reached\<close>

lemma drain:
  "service_ok v \<Longrightarrow> \<exists>w. (service_step ^^ sv_reserved v) v w \<and> sv_reserved w = 0 \<and> sv_phase w = sv_phase v \<and> service_ok w \<and>
     mg_shutdownStarted (sv_manager w) = mg_shutdownStarted (sv_manager v)"
proof (induction "sv_reserved v" arbitrary: v)
  case (Suc n)
  let ?v1 = "v\<lparr>sv_manager := releaseReservation (sv_manager v), sv_reserved := sv_reserved v - 1\<rparr>"
  have step: "service_step v ?v1" by (rule service_step.rollback) (use Suc.hyps(2) in simp)
  have started: "mg_shutdownStarted (releaseReservation m) = mg_shutdownStarted m" for m
    by (simp add: releaseReservation_def finishAcquisitionLocked_def close_channel_def Let_def)
  have n: "n = sv_reserved ?v1" using Suc.hyps(2) by simp
  have ok: "service_ok ?v1" using service_step_ok [OF step Suc.prems] by simp
  from Suc.hyps(1) [OF n ok] obtain w where w: "(service_step ^^ n) ?v1 w" "sv_reserved w = 0" "sv_phase w = sv_phase ?v1" "service_ok w"
    "mg_shutdownStarted (sv_manager w) = mg_shutdownStarted (sv_manager ?v1)" unfolding n [symmetric] by blast
  have "(service_step ^^ sv_reserved v) v w" unfolding Suc.hyps(2) [symmetric] by (rule relpowp_Suc_I2 [OF step w(1)])
  then show ?case using w(2-5) started by auto
qed auto

lemma cleanup_ends:
  assumes "service_ok w" "sv_reserved w = 0" "mg_shutdownStarted (sv_manager w)"
  shows "\<exists>n \<le> 3. \<exists>v'. (service_step ^^ n) w v' \<and> sv_phase v' = CleanupDone"
proof -
  have run: "\<exists>v'. service_step w v' \<and> sv_phase v' = CleanupDone" if "sv_phase w = CleanupRunning entries" for entries w
    using service_step.cleanup_end [OF that, of None] by fastforce
  have wait: "\<exists>v1. service_step w v1 \<and> (\<exists>entries. sv_phase v1 = CleanupRunning entries)"
    if "service_ok w" "sv_reserved w = 0" "sv_phase w = CleanupWaiting ch" for ch w
    using service_step.cleanup_snapshot [OF that(3)] that by (fastforce simp: service_ok_def service_invs)
  have start: "\<exists>v1. service_step w v1 \<and> sv_reserved v1 = 0 \<and> (\<exists>ch. sv_phase v1 = CleanupWaiting ch)"
    if "sv_phase w = CleanupStarted" "sv_reserved w = 0" for w
    using service_step.cleanup_begin [OF that(1)] that(2) by fastforce
  show ?thesis
  proof (cases "sv_phase w")
    case CleanupIdle
    then show ?thesis using assms by (auto simp: service_ok_def service_invs)
  next
    case CleanupStarted
    from start [OF this assms(2)] obtain v1 where 1: "service_step w v1" "sv_reserved v1 = 0" "\<exists>ch. sv_phase v1 = CleanupWaiting ch" by blast
    moreover from wait [of v1] 1 service_step_ok [OF 1(1) assms(1)] obtain v2 where
      2: "service_step v1 v2" "\<exists>entries. sv_phase v2 = CleanupRunning entries" by blast
    moreover from run [of v2] 2 obtain v3 where "service_step v2 v3" "sv_phase v3 = CleanupDone" by blast
    ultimately have "(service_step ^^ 3) w v3" by (auto simp: numeral_3_eq_3)
    then show ?thesis using \<open>sv_phase v3 = CleanupDone\<close> by blast
  next
    case (CleanupWaiting ch)
    from wait [OF assms(1,2) this] obtain v2 where 2: "service_step w v2" "\<exists>entries. sv_phase v2 = CleanupRunning entries" by blast
    moreover from run [of v2] 2 obtain v3 where "service_step v2 v3" "sv_phase v3 = CleanupDone" by blast
    ultimately have "(service_step ^^ 2) w v3" by (auto simp: numeral_2_eq_2)
    then show ?thesis using \<open>sv_phase v3 = CleanupDone\<close> by (intro exI [of _ 2]) auto
  next
    case (CleanupRunning entries)
    from run [OF this] show ?thesis by (intro exI [of _ 1]) auto
  next
    case CleanupDone
    then show ?thesis by (intro exI [of _ 0]) auto
  qed
qed

text \<open>
  C25: A shutdown that has started can always be completed: from every reachable state the
  cleanup is done after the acquisitions in flight have ended, each by one section of its
  own, and at most three sections of the cleanup; nothing else has to happen, and none of
  these sections waits for another goroutine.
\<close>

theorem manager_shutdown_reaches:
  assumes "manager_New c maxHandles = Inr m" and "service_step\<^sup>*\<^sup>* (service_new m) v" and "mg_shutdownStarted (sv_manager v)"
  shows "\<exists>n \<le> sv_reserved v + 3. \<exists>v'. (service_step ^^ n) v v' \<and> sv_phase v' = CleanupDone"
proof -
  have "service_ok v" using service_steps_ok [OF assms(2)] service_new_ok [OF assms(1)] by simp
  from drain [OF this] assms(3) obtain w where w: "(service_step ^^ sv_reserved v) v w" "sv_reserved w = 0" "service_ok w"
    "mg_shutdownStarted (sv_manager w)" by auto
  from cleanup_ends [OF w(3,2,4)] obtain n v' where "n \<le> 3" "(service_step ^^ n) w v'" "sv_phase v' = CleanupDone" by blast
  moreover from this w(1) have "(service_step ^^ (sv_reserved v + n)) v v'" by (auto simp: relpowp_add)
  ultimately show ?thesis by (metis add_le_cancel_left)
qed

section \<open>What the cleanup sends\<close>

text \<open>
  The entry's handle when the cleanup reaches it: no operation of a caller is in flight,
  and a handle with a renewal loop is active.
\<close>

definition at_rest :: "owned \<Rightarrow> bool" where
  "at_rest entry \<longleftrightarrow> \<not> h_busy (ow_handle entry) \<and> (ow_managed entry \<longrightarrow> h_state (ow_handle entry) = StateActive)"

definition call_of :: "owned \<Rightarrow> call \<times> reply \<Rightarrow> bool" where
  "call_of entry = (\<lambda>(c, rep). (\<exists>rec ttl. c = CallRenew rec ttl \<and> same_identity (h_record (ow_handle entry)) rec) \<or>
     (\<exists>rec. c = CallRelease rec \<and> same_identity (h_record (ow_handle entry)) rec))"

text \<open>An entry is settled by a confirmed or failed release, or its failure is in the result.\<close>

definition settled_entry :: "(call \<times> reply) list \<Rightarrow> gerror option \<Rightarrow> owned \<Rightarrow> bool" where
  "settled_entry tr result entry \<longleftrightarrow> h_state (ow_handle entry) = StateReleased \<or>
     (\<exists>rec rep. (CallRelease rec, rep) \<in> set tr \<and> same_identity (h_record (ow_handle entry)) rec \<and>
        (\<forall>err t. rep = Failed err \<longrightarrow> errors_Is err t \<longrightarrow> err_is result t)) \<or>
     err_is result (Sentinel ErrInvalidState)"

lemma settled_entry_mono:
  "settled_entry tr result entry \<Longrightarrow> set tr \<subseteq> set tr' \<Longrightarrow> (\<And>t. err_is result t \<Longrightarrow> err_is result' t) \<Longrightarrow> settled_entry tr' result' entry"
  unfolding settled_entry_def by blast

lemma cleanup_stop:
  assumes "(if ow_managed entry
      then (case managed_run (logged B) rounds (ow_handle entry) x of
          (None, h1, x1) \<Rightarrow> None | (Some loss, h1, x1) \<Rightarrow> Some (errors_Join [result, managed_Stop LoopDone], h1, x1))
      else Some (result, ow_handle entry, x)) = Some (result1, h1, x1)" and "at_rest entry"
  shows "\<not> h_busy h1 \<and> same_identity (h_record (ow_handle entry)) (h_record h1) \<and> (\<forall>t. err_is result1 t \<longleftrightarrow> err_is result t) \<and>
    (\<exists>renewals. snd x1 = snd x @ renewals \<and> list_all (call_of entry) renewals) \<and>
    (h_state h1 = StateReleased \<longrightarrow> h_state (ow_handle entry) = StateReleased)"
proof (cases "ow_managed entry")
  case False
  then show ?thesis using assms by (auto simp: at_rest_def intro: exI [of _ "[]"])
next
  case True
  obtain loss where run: "managed_run (logged B) rounds (ow_handle entry) x = (Some loss, h1, x1)"
    and result1: "result1 = errors_Join [result, managed_Stop LoopDone]"
    using assms(1) True by (auto split: prod.splits option.splits)
  have rest: "\<not> h_busy (ow_handle entry)" "h_state (ow_handle entry) = StateActive" using assms(2) True by (simp_all add: at_rest_def)
  let ?P = "\<lambda>y. \<exists>renewals. snd y = snd x @ renewals \<and> list_all (call_of entry) renewals"
  have "?P x1 \<and> same_identity (h_record (ow_handle entry)) (h_record h1)"
  proof (rule managed_run_calls [OF run rest])
    show "?P x" by simp
    fix e r ttl y out y1
    assume "?P y" "same_identity (h_record (ow_handle entry)) r" "be_Renew (logged B) e r ttl y = (out, y1)"
    then show "?P y1" by (auto simp: logged_def call_of_def prod.case_eq_if)
  qed
  then show ?thesis using managed_run_state [OF run rest] rest result1 by (auto split: option.splits)
qed

lemma cleanup_release:
  assumes "handle_Release (logged B) e h1 x1 = (releaseErr, h2, x2)" "\<not> h_busy h1"
    and same: "same_identity (h_record (ow_handle entry)) (h_record h1)"
    and "h_state h1 = StateReleased \<longrightarrow> h_state (ow_handle entry) = StateReleased"
  shows "\<exists>releases. snd x2 = snd x1 @ releases \<and> list_all (call_of entry) releases \<and> settled_entry (snd x2) releaseErr entry"
proof (cases "h_state h1 = StateActive \<or> h_state h1 = StateExpired")
  case True
  then have "be_Release (logged B) e (h_record h1) x1 = (releaseErr, x2)"
    using handle_Release_calls [OF assms(1,2)] by auto
  then have x2: "snd x2 = snd x1 @ [(CallRelease (h_record h1), reply_of_error releaseErr)]"
    by (auto simp: logged_def prod.case_eq_if)
  have "settled_entry (snd x2) releaseErr entry"
    unfolding settled_entry_def x2 using same
    by (intro disjI2 disjI1 exI [of _ "h_record h1"] exI [of _ "reply_of_error releaseErr"]) auto
  then show ?thesis using x2 same by (auto simp: call_of_def)
next
  case False
  then show ?thesis using handle_Release_calls [OF assms(1,2)] assms(4) by (auto simp: settled_entry_def)
qed

lemma cleanup_entries_effect:
  assumes "cleanup_entries (logged B) xs result x = Some (result', x')" and "list_all (\<lambda>(entry, env). at_rest entry) xs"
  shows "(\<exists>tr. snd x' = snd x @ tr \<and> list_all (\<lambda>c. list_ex (\<lambda>(entry, env). call_of entry c) xs) tr) \<and>
    (\<forall>t. err_is result t \<longrightarrow> err_is result' t) \<and> list_all (\<lambda>(entry, env). settled_entry (snd x') result' entry) xs"
  using assms
proof (induction xs arbitrary: result x)
  case (Cons y xs)
  obtain entry rounds e where y: "y = (entry, rounds, e)" by (cases y)
  obtain result1 h1 x1 where stop: "(if ow_managed entry
      then (case managed_run (logged B) rounds (ow_handle entry) x of
          (None, h1, x1) \<Rightarrow> None | (Some loss, h1, x1) \<Rightarrow> Some (errors_Join [result, managed_Stop LoopDone], h1, x1))
      else Some (result, ow_handle entry, x)) = Some (result1, h1, x1)"
    using Cons.prems(1) y by (auto split: option.splits)
  obtain releaseErr h2 x2 where rel: "handle_Release (logged B) e h1 x1 = (releaseErr, h2, x2)" by (metis prod_cases3)
  have rest: "at_rest entry" "list_all (\<lambda>(entry, env). at_rest entry) xs" using Cons.prems(2) y by auto
  note st = cleanup_stop [OF stop rest(1)]
  obtain renewals where r1: "snd x1 = snd x @ renewals" "list_all (call_of entry) renewals" using st by blast
  obtain releases where r2: "snd x2 = snd x1 @ releases" "list_all (call_of entry) releases" "settled_entry (snd x2) releaseErr entry"
    using cleanup_release [OF rel] st by blast
  have "cleanup_entries (logged B) xs (errors_Join [result1, releaseErr]) x2 = Some (result', x')"
    using Cons.prems(1) y stop rel by (simp only: cleanup_entries.simps option.case prod.case)
  from Cons.IH [OF this rest(2)] obtain tr where tr: "snd x' = snd x2 @ tr"
    "list_all (\<lambda>c. list_ex (\<lambda>(entry, env). call_of entry c) xs) tr"
    and err: "\<And>t. err_is result t \<or> err_is releaseErr t \<Longrightarrow> err_is result' t"
    and rest': "list_all (\<lambda>(entry, env). settled_entry (snd x') result' entry) xs"
    using st by auto
  have "settled_entry (snd x') result' entry"
    by (rule settled_entry_mono [OF r2(3)]) (use tr(1) err in auto)
  moreover have "list_all (\<lambda>c. list_ex (\<lambda>(entry, env). call_of entry c) (y # xs)) (renewals @ releases @ tr)"
    using r1(2) r2(2) tr(2) y by (auto simp: list_all_iff)
  ultimately show ?case using r1(1) r2(1) tr(1) err rest' y by auto
qed auto


section \<open>A whole acquisition\<close>

text \<open>What other goroutines do to the manager meanwhile: any of its steps, but they do not end this acquisition.\<close>

definition others :: "(Manager \<Rightarrow> Manager) \<Rightarrow> bool" where
  "others f \<longleftrightarrow> (\<forall>w. \<exists>w'. service_step\<^sup>*\<^sup>* w w' \<and> sv_manager w' = f (sv_manager w) \<and> (0 < sv_reserved w \<longrightarrow> 0 < sv_reserved w'))"

lemma othersE:
  assumes "others f"
  obtains w' where "service_step\<^sup>*\<^sup>* w w'" "sv_manager w' = f (sv_manager w)" "0 < sv_reserved w \<Longrightarrow> 0 < sv_reserved w'"
  using assms unfolding others_def by blast

lemma joined_mono: "service_step\<^sup>*\<^sup>* v v' \<Longrightarrow> set (sv_joined v) \<subseteq> set (sv_joined v')"
proof (induction rule: rtranclp_induct)
  case (step y z)
  from step(2) have "set (sv_joined y) \<subseteq> set (sv_joined z)" by cases auto
  with step(3) show ?case by simp
qed simp

lemma acquire_join_entries: "acquire_join ow m = (ch, m1) \<Longrightarrow> mg_entries m1 = mg_entries m @ [ow]"
  by (auto simp: acquire_join_def finishAcquisitionLocked_def close_channel_def Let_def)

text \<open>An acquisition that has entered finds its reservation again when it comes back to the manager.\<close>

lemma entered_steps:
  assumes "others between" and "acquire_enter ctx (sv_manager v) = (None, m1)"
  obtains w where "service_step\<^sup>*\<^sup>* v w" "sv_manager w = between m1" "0 < sv_reserved w"
proof -
  let ?v1 = "v\<lparr>sv_manager := m1, sv_reserved := sv_reserved v + 1\<rparr>"
  have "service_step v ?v1" using service_step.enter assms(2) by blast
  moreover obtain w where "service_step\<^sup>*\<^sup>* ?v1 w" "sv_manager w = between m1" "0 < sv_reserved w"
    using othersE [OF assms(1), of ?v1] by auto
  ultimately show thesis using that by (meson converse_rtranclp_into_rtranclp)
qed

lemma join_steps:
  assumes "others after" and "service_step\<^sup>*\<^sup>* v w" "0 < sv_reserved w" and "acquire_join ow (sv_manager w) = (ch, m2)"
  obtains v2 v3 where "service_step\<^sup>*\<^sup>* v v2" "sv_manager v2 = m2" "ow \<in> set (sv_joined v2)" "ow \<in> set (mg_entries m2)"
    and "service_step\<^sup>*\<^sup>* v v3" "sv_manager v3 = after m2" "ow \<in> set (sv_joined v3)"
proof -
  let ?v2 = "w\<lparr>sv_manager := m2, sv_reserved := sv_reserved w - 1, sv_joined := sv_joined w @ [ow]\<rparr>"
  have v2: "service_step\<^sup>*\<^sup>* v ?v2" using assms(2) service_step.join [OF assms(3,4)] by (rule rtranclp.rtrancl_into_rtrancl)
  obtain v3 where v3: "service_step\<^sup>*\<^sup>* ?v2 v3" "sv_manager v3 = after m2" using othersE [OF assms(1), of ?v2] by auto
  show thesis using that [OF v2 _ _ _ rtranclp_trans [OF v2 v3(1)] v3(2)] joined_mono [OF v3(1)] acquire_join_entries [OF assms(4)]
    by auto
qed

text \<open>The ways an acquisition can go, each as steps of the interleaved system.\<close>

lemma manager_Acquire_steps:
  assumes others: "others between" "others after"
    and run: "manager_Acquire B cl ctx g between waited after key policy (sv_manager v) s = (res, m', s')"
  obtains (refused) v' err where "service_step\<^sup>*\<^sup>* v v'" "sv_manager v' = m'" "res = Inl err" "s' = s"
  | (failed) v' err where "service_step\<^sup>*\<^sup>* v v'" "sv_manager v' = m'" "res = Inl err"
      "guard_acquire B cl ctx g policy key s = (Inl err, s')"
  | (unmanaged) v' err h s1 e h1 used releaseErr h2 where "service_step\<^sup>*\<^sup>* v v'" "sv_manager v' = m'" "res = Inl err"
      "guard_acquire B cl ctx g policy key s = (Inr h, s1)"
      "handle_StartManaged (ge_start g) (cl_managed cl) (cl_maxManaged cl) h = (Some e, h1, used)"
      "handle_Release B (ge_release g) h1 s1 = (releaseErr, h2, s')"
  | (joined) v' h h1 ow where "service_step\<^sup>*\<^sup>* v v'" "sv_manager v' = m'"
      "guard_acquire B cl ctx g policy key s = (Inr h, s')" "h_record h1 = h_record h"
      "ow_handle ow = h1" "ow \<in> set (sv_joined v')" "res = Inr h1 \<and> ow \<in> set (mg_entries m') \<or> (\<exists>err. res = Inl err)"
proof -
  obtain start m1 where enter: "acquire_enter ctx (sv_manager v) = (start, m1)" by fastforce
  show thesis
  proof (cases start)
    case (Some err)
    have "service_step v (v\<lparr>sv_manager := m1\<rparr>)" using service_step.refuse enter Some by blast
    moreover have "res = Inl err" "m' = m1" "s' = s" using run enter Some by (simp_all add: manager_Acquire_def)
    ultimately show thesis using refused [OF r_into_rtranclp, of "v\<lparr>sv_manager := m1\<rparr>" err] by simp
  next
    case None
    obtain w where w: "service_step\<^sup>*\<^sup>* v w" "sv_manager w = between m1" "0 < sv_reserved w"
      using entered_steps [OF others(1)] enter None by blast
    have undone: "service_step\<^sup>*\<^sup>* v (w\<lparr>sv_manager := releaseReservation (between m1), sv_reserved := sv_reserved w - 1\<rparr>)"
      using w(1) service_step.rollback [OF w(3)] w(2) by auto
    obtain acq s1 where acq: "guard_acquire B cl ctx g policy key s = (acq, s1)" by fastforce
    show thesis
    proof (cases acq)
      case (Inl err)
      then show thesis using failed [OF undone, of err] run enter None acq by (simp add: manager_Acquire_def)
    next
      case (Inr h)
      obtain startErr h1 used where start: "(if 0 <s RenewEvery policy
          then handle_StartManaged (ge_start g) (cl_managed cl) (cl_maxManaged cl) h else (None, h, cl_managed cl)) = (startErr, h1, used)"
        by (metis prod_cases3)
      have rec: "h_record h1 = h_record h"
        using start StartManaged_effect [of "ge_start g" "cl_managed cl" "cl_maxManaged cl" h startErr h1 used] by (auto split: if_splits)
      show thesis
      proof (cases startErr)
        case (Some e)
        obtain releaseErr h2 s2 where rel: "handle_Release B (ge_release g) h1 s1 = (releaseErr, h2, s2)" by (metis prod_cases3)
        have "handle_StartManaged (ge_start g) (cl_managed cl) (cl_maxManaged cl) h = (Some e, h1, used)"
          using start Some by (simp split: if_splits)
        moreover have "res = Inl (the (errors_Join [Some e, releaseErr]))" "m' = releaseReservation (between m1)" "s' = s2"
          using run enter None acq Inr start Some rel by (simp_all add: manager_Acquire_def)
        ultimately show thesis using unmanaged [OF undone] acq Inr rel by simp
      next
        case start_ok: None
        let ?ow = "\<lparr>ow_handle = h1, ow_managed = 0 <s RenewEvery policy\<rparr>"
        obtain ch m2 where join: "acquire_join ?ow (between m1) = (ch, m2)" by fastforce
        note unfold = run [unfolded manager_Acquire_def enter None acq Inr prod.case option.case sum.case Let_def start start_ok join]
        obtain v2 v3 where v2: "service_step\<^sup>*\<^sup>* v v2" "sv_manager v2 = m2" "?ow \<in> set (sv_joined v2)" "?ow \<in> set (mg_entries m2)"
          and v3: "service_step\<^sup>*\<^sup>* v v3" "sv_manager v3 = after m2" "?ow \<in> set (sv_joined v3)"
          by (rule join_steps [OF others(2) w(1,3), of ?ow ch m2]) (use join w(2) in auto)
        show thesis
          using joined [OF v2(1), of h h1 ?ow] joined [OF v3(1), of h h1 ?ow] acq Inr rec unfold v2 v3
          by (cases "ch = None \<or> waited \<noteq> None") (auto split: option.splits)
      qed
    qed
  qed
qed


text \<open>The service shuts down while its client acquires: the caller is refused, the lease has joined for the cleanup.\<close>

lemma ex_others: "others (\<lambda>m. snd (shutdown_enter m))" "others (\<lambda>m. m)"
proof -
  show "others (\<lambda>m. snd (shutdown_enter m))" unfolding others_def
  proof
    fix w
    show "\<exists>w'. service_step\<^sup>*\<^sup>* w w' \<and> sv_manager w' = snd (shutdown_enter (sv_manager w)) \<and> (0 < sv_reserved w \<longrightarrow> 0 < sv_reserved w')"
    proof (cases "fst (shutdown_enter (sv_manager w))")
      case True
      then have "shutdown_enter (sv_manager w) = (True, snd (shutdown_enter (sv_manager w)))" by (simp add: prod_eq_iff)
      from service_step.shutdown [OF this] show ?thesis
        by (intro exI [of _ "w\<lparr>sv_manager := snd (shutdown_enter (sv_manager w)), sv_phase := CleanupStarted\<rparr>"]) auto
    next
      case False
      then show ?thesis by (intro exI [of _ w]) (auto simp: shutdown_enter_def Let_def split: if_splits prod.splits)
    qed
  qed
  show "others (\<lambda>m. m)" unfolding others_def by blast
qed

lemma ex_manager_Acquire:
  "let (res, m', s', tr) = manager_Acquire (logged memory_backend) ex_client (Some None) ex_guard (\<lambda>m. snd (shutdown_enter m))
     (Some Canceled) (\<lambda>m. m) ex_key ex_policy (sv_manager (service_new ex_manager)) (ex_store, [])
   in sum.isl res \<and> length tr = 1 \<and> map fst tr \<noteq> [CallRelease (ex_record ''y'' 1 100000000 5100000000)] \<and> length (mg_entries m') = 1"
  by code_simp


theorem manager_shutdown_reaches_witness:
  "\<exists>n \<le> 4. \<exists>v'. (service_step ^^ n) ex_service2 v' \<and> sv_phase v' = CleanupDone"
proof -
  have "sv_reserved ex_service2 = 1" "mg_shutdownStarted (sv_manager ex_service2)" by code_simp+
  with manager_shutdown_reaches [OF ex_manager_New ex_service_steps(3)] show ?thesis by simp
qed

lemma ex_cleanup:
  "map_option (\<lambda>(m, s, tr). map fst tr) (manager_cleanup (logged memory_backend) (\<lambda>i. ([], ex_env 50)) (\<lambda>m. m)
     (sv_manager ex_service3) (ex_store1, [])) = Some [CallRelease (ex_lease 5000000100)]"
  by code_simp


end
