(* ===== verification/Shared_Stores.thy ===== *)
theory Shared_Stores
  imports Service_Manager Postgres_Safety Valkey_Safety
begin

text \<open>
  The guard and the service manager over stores that other clients use at the same time. A
  guarded run without an error does not hold its key any more. A lease that has been
  released stays released whatever other clients do, so a shutdown without an error leaves
  none of the manager's leases in the backend.
\<close>

section \<open>Guarded work\<close>

text \<open>
  C19: Over a PostgreSQL database that other clients use at the same time, with statements
  that do not overlap: when \<^verbatim>\<open>guard.Run\<close> returns nil, its callback worked under a fence above
  every earlier one, and from its release on the acquisition does not hold the key any more.
\<close>

theorem pg_guard_frees:
  assumes "guard_Run (shared pg_backend) cl ctx g policy key callback db r = Some (None, db', r')" and "pg_invar db"
    and "\<forall>x \<in> range (\<lambda>i. at_env (ge_attempts g i)) \<union> ro_env ` set (ge_rounds g) \<union> {ge_release g}.
      (\<forall>(e, c) \<in> set (fst x). pg_serial e) \<and> pg_serial (snd x)"
  shows "\<exists>h db1. guard_acquire (shared pg_backend) cl ctx g policy key db = (Inr h, db1) \<and>
    callback (handle_Token h) r = (None, r') \<and> pg_fence db (pg_digest key) < unat (handle_Token h) \<and>
    (\<forall>t \<ge> pg_instant (pg_end (snd (ge_release g))). pg_live db' t (pg_digest key) \<noteq> Some (handle_Owner h, handle_Token h))"
  by (rule lease_backend.guard_frees [OF pg.lease_backend_axioms assms(1,2)])
    (use assms(3) in \<open>auto simp: pg_digest_def lease_safety.shared_ok_def [OF pg.lease_safety_axioms]\<close>)

text \<open>The same over Valkey, on any server with the documented behaviour.\<close>

theorem valkey_guard_frees:
  assumes "valkey_server S hash_at count_at"
    and "guard_Run (shared (valkey_backend S prefix)) cl ctx g policy key callback v r = Some (None, v', r')"
    and "valkey_invar hash_at count_at prefix v"
    and "\<forall>x \<in> range (\<lambda>i. at_env (ge_attempts g i)) \<union> ro_env ` set (ge_rounds g) \<union> {ge_release g}.
      (\<forall>(e, c) \<in> set (fst x). valkey_env_ok e) \<and> valkey_env_ok (snd x)"
  shows "\<exists>h v1. guard_acquire (shared (valkey_backend S prefix)) cl ctx g policy key v = (Inr h, v1) \<and>
    callback (handle_Token h) r = (None, r') \<and> valkey_fence count_at prefix v (key_digest key) < unat (handle_Token h) \<and>
    (\<forall>t \<ge> valkey_instant (vk_now (snd (ge_release g))).
       valkey_live hash_at prefix v' t (key_digest key) \<noteq> Some (handle_Owner h, handle_Token h))"
proof -
  note lb = lease_progress.axioms(1) [OF valkey_lease.progress_contract [OF valkey_lease.intro [OF assms(1)], of prefix]]
  show ?thesis
    by (rule lease_backend.guard_frees [OF lb assms(2,3)])
      (use assms(4) in \<open>auto simp: key_digest_def lease_safety.shared_ok_def [OF lease_backend.axioms(1) [OF lb]]\<close>)
qed

section \<open>Released for good\<close>

text \<open>From \<open>T\<close> on the holder is not named, and its fence has been handed out.\<close>

definition gone_from :: "instant \<Rightarrow> holder \<Rightarrow> view \<Rightarrow> bool" where
  "gone_from T h v \<longleftrightarrow> unat (snd h) \<le> fst v \<and> (\<forall>t \<ge> T. snd v t \<noteq> Some h)"

lemma gone_from_later: "gone_from T h v \<Longrightarrow> T \<le> T' \<Longrightarrow> gone_from T' h v"
  by (auto simp: gone_from_def)

lemma spec_step_gone: "spec_step t0 t1 c v v' \<Longrightarrow> T \<le> t0 \<Longrightarrow> gone_from T h v \<Longrightarrow> gone_from T h v'"
proof (induction rule: spec_step.induct)
  case (install L t1 F tok ow L' t0 k ttl)
  then show ?case by (auto simp: gone_from_def dest: only_holderD)
next
  case (extend L t0 r L' t1 ttl F)
  then have "h \<noteq> (rec_Owner r, rec_Token r)" by (auto simp: gone_from_def)
  then show ?case using extend by (auto simp: gone_from_def dest: only_holderD)
qed (auto simp: gone_from_def)

text \<open>A call of a client and the calls of others before it, none of which begins before \<open>T\<close>.\<close>

definition shared_from :: "('e \<Rightarrow> bool) \<Rightarrow> ('e \<Rightarrow> instant) \<Rightarrow> instant \<Rightarrow> ('e \<times> call) list \<times> 'e \<Rightarrow> bool" where
  "shared_from ok begins T x \<longleftrightarrow> (\<forall>(e, c) \<in> set (fst x). ok e \<and> T \<le> begins e) \<and> ok (snd x) \<and> T \<le> begins (snd x)"

context lease_safety
begin

lemma call_gone:
  assumes "env_ok e" "invar s" "backend_call B e c s = (rep, s')" "T \<le> begins e" "gone_from T h (fence s i, \<lambda>t. live s t i)"
  shows "gone_from T h (fence s' i, \<lambda>t. live s' t i)"
proof (cases "i = ident (call_key c)")
  case True
  then show ?thesis using spec_step_gone [OF simulates [OF assms(1-3)] assms(4)] assms(5) by simp
next
  case False
  then show ?thesis using frame [OF assms(1-3)] assms(5) by (simp add: gone_from_def)
qed

lemma run_gone:
  "backend_run B cs s = (tr, s') \<Longrightarrow> invar s \<Longrightarrow> \<forall>(e, c) \<in> set cs. env_ok e \<and> T \<le> begins e \<Longrightarrow>
   gone_from T h (fence s i, \<lambda>t. live s t i) \<Longrightarrow> invar s' \<and> gone_from T h (fence s' i, \<lambda>t. live s' t i)"
proof (induction cs arbitrary: s tr)
  case (Cons ec cs)
  obtain e c where ec: "ec = (e, c)" by (cases ec)
  obtain rep s1 where call: "backend_call B e c s = (rep, s1)" by fastforce
  obtain tr1 where "backend_run B cs s1 = (tr1, s')" using Cons.prems(1) ec call by (auto split: prod.splits)
  moreover have "env_ok e" "T \<le> begins e" using Cons.prems(3) ec by auto
  ultimately show ?case
    using Cons.IH [of s1 tr1] invar_call [OF _ Cons.prems(2) call] call_gone [OF _ Cons.prems(2) call _ Cons.prems(4)] Cons.prems(3)
    by simp
qed simp

text \<open>The same for a call through the shared store, and what a call keeps besides.\<close>

lemma shared_call:
  assumes "backend_call (shared B) x c s = (rep, s')" "shared_from env_ok begins T x" "invar s"
  obtains s0 where "backend_call B (snd x) c s0 = (rep, s')" "invar s0" "invar s'" "\<And>j. fence s j \<le> fence s0 j" "\<And>j. fence s j \<le> fence s' j"
    "\<And>h i. gone_from T h (fence s i, \<lambda>t. live s t i) \<Longrightarrow> gone_from T h (fence s' i, \<lambda>t. live s' t i)"
proof -
  obtain cs e where x: "x = (cs, e)" by (cases x)
  obtain tr s0 where run: "backend_run B cs s = (tr, s0)" by fastforce
  have ok: "\<forall>(e, c) \<in> set cs. env_ok e \<and> T \<le> begins e" "\<forall>(e, c) \<in> set cs. env_ok e" "env_ok e" "T \<le> begins e"
    using assms(2) x by (auto simp: shared_from_def)
  have call: "backend_call B e c s0 = (rep, s')" using assms(1) x run by (cases c) (auto simp: shared_def map_prod_eq)
  have inv0: "invar s0" by (rule run_invar [OF run assms(3) ok(2)])
  have fence0: "fence s j \<le> fence s0 j" for j by (rule run_fence_mono [OF run assms(3) ok(2)])
  show thesis
  proof (rule that)
    show "backend_call B (snd x) c s0 = (rep, s')" "invar s0" using call inv0 x by simp_all
    show "invar s'" by (rule invar_call [OF ok(3) inv0 call])
    show "fence s j \<le> fence s0 j" "fence s j \<le> fence s' j" for j
      using fence0 [of j] fence_mono [OF ok(3) inv0 call, of j] by auto
    show "gone_from T h (fence s' i, \<lambda>t. live s' t i)" if "gone_from T h (fence s i, \<lambda>t. live s t i)" for h i
      using run_gone [OF run assms(3) ok(1) that] call_gone [OF ok(3) inv0 call ok(4)] by blast
  qed
qed

end

section \<open>The cleanup on a shared store\<close>

text \<open>The entries are cleaned up one after the other: the calls for one begin when the release before has ended.\<close>

type_synonym 'e cleanup_plan = "(owned \<times> (('e \<times> call) list \<times> 'e) round list \<times> ('e \<times> call) list \<times> 'e) list"

fun cleanup_order :: "('e \<Rightarrow> bool) \<Rightarrow> ('e \<Rightarrow> instant) \<Rightarrow> ('e \<Rightarrow> instant) \<Rightarrow> instant \<Rightarrow> 'e cleanup_plan \<Rightarrow> bool" where
  "cleanup_order ok begins ends T [] \<longleftrightarrow> True"
| "cleanup_order ok begins ends T ((entry, rounds, x) # rest) \<longleftrightarrow>
     (\<forall>ro \<in> set rounds. shared_from ok begins T (ro_env ro)) \<and> shared_from ok begins T x \<and>
     cleanup_order ok begins ends (ends (snd x)) rest"

fun cleanup_until :: "('e \<Rightarrow> instant) \<Rightarrow> instant \<Rightarrow> 'e cleanup_plan \<Rightarrow> instant" where
  "cleanup_until ends T [] = T"
| "cleanup_until ends T ((entry, rounds, x) # rest) = cleanup_until ends (ends (snd x)) rest"

text \<open>An entry that can be released: at rest, not released before, its fence handed out by the store.\<close>

definition releasable :: "(Key \<Rightarrow> nat) \<Rightarrow> owned \<Rightarrow> bool" where
  "releasable fence_of entry \<longleftrightarrow> at_rest entry \<and> h_state (ow_handle entry) \<in> {StateActive, StateExpired} \<and>
     unat (handle_Token (ow_handle entry)) \<le> fence_of (rec_Key (h_record (ow_handle entry)))"

definition entry_holder :: "owned \<Rightarrow> holder" where
  "entry_holder entry = (handle_Owner (ow_handle entry), handle_Token (ow_handle entry))"

lemma cleanup_entries_nil: "cleanup_entries B xs result s = Some (None, s') \<Longrightarrow> result = None"
proof (induction xs arbitrary: result s)
  case (Cons y xs)
  obtain entry rounds e where y: "y = (entry, rounds, e)" by (cases y)
  from Cons.prems show ?case by (auto simp: y split: if_splits option.splits prod.splits dest!: Cons.IH)
qed simp

lemma releasable_handle:
  assumes "releasable fence_of entry"
  shows "\<not> h_busy (ow_handle entry)" "ow_managed entry \<Longrightarrow> h_state (ow_handle entry) = StateActive"
    "h_state (ow_handle entry) \<in> {StateActive, StateExpired}"
  using assms by (auto simp: releasable_def at_rest_def)

context lease_backend
begin

text \<open>One entry: its renewal loop has ended, then its release succeeded.\<close>

lemma entry_stops:
  assumes "(if ow_managed entry
      then (case managed_run (shared B) rounds (ow_handle entry) s of
          (None, h1, s1) \<Rightarrow> None | (Some loss, h1, s1) \<Rightarrow> Some (errors_Join [result, managed_Stop LoopDone], h1, s1))
      else Some (result, ow_handle entry, s)) = Some (result1, h1, s1)"
    and "releasable fence_of entry" "invar s" "\<forall>ro \<in> set rounds. shared_from env_ok begins T (ro_env ro)"
  shows "\<not> h_busy h1 \<and> h_state h1 \<noteq> StateReleased \<and> same_identity (h_record (ow_handle entry)) (h_record h1) \<and> invar s1 \<and>
    (\<forall>j. fence s j \<le> fence s1 j) \<and>
    (\<forall>h i. gone_from T h (fence s i, \<lambda>t. live s t i) \<longrightarrow> gone_from T h (fence s1 i, \<lambda>t. live s1 t i))"
proof (cases "ow_managed entry")
  case False
  then show ?thesis using assms(1,3) releasable_handle [OF assms(2)] by auto
next
  case True
  note rest = releasable_handle(1) [OF assms(2)] releasable_handle(2) [OF assms(2) True]
  obtain loss where run: "managed_run (shared B) rounds (ow_handle entry) s = (Some loss, h1, s1)"
    using assms(1) True by (auto split: prod.splits option.splits)
  let ?P = "\<lambda>s1. invar s1 \<and> (\<forall>j. fence s j \<le> fence s1 j) \<and>
    (\<forall>h i. gone_from T h (fence s i, \<lambda>t. live s t i) \<longrightarrow> gone_from T h (fence s1 i, \<lambda>t. live s1 t i))"
  have "?P s1 \<and> same_identity (h_record (ow_handle entry)) (h_record h1)"
  proof (rule managed_run_calls [OF run rest])
    show "?P s" using assms(3) by simp
    fix x r ttl s2 out s3
    assume s2: "?P s2" and x: "x \<in> ro_env ` set rounds" and call: "be_Renew (shared B) x r ttl s2 = (out, s3)"
    have "backend_call (shared B) x (CallRenew r ttl) s2 = (reply_of out, s3)" using call by simp
    from this _ conjunct1 [OF s2] show "?P s3"
      by (rule shared_call [where T = T]) (use x assms(4) s2 in \<open>auto intro: order_trans\<close>)
  qed
  then show ?thesis using managed_run_state [OF run rest] by (auto split: option.splits)
qed

lemma entry_released:
  assumes "handle_Release (shared B) x h1 s1 = (None, h2, s2)" "\<not> h_busy h1" "h_state h1 \<noteq> StateReleased"
    and "invar s1" "shared_from env_ok begins T x" "unat (rec_Token (h_record h1)) \<le> fence s1 (ident (rec_Key (h_record h1)))"
  shows "invar s2 \<and> (\<forall>j. fence s1 j \<le> fence s2 j) \<and>
    gone_from (ends (snd x)) (rec_Owner (h_record h1), rec_Token (h_record h1))
      (fence s2 (ident (rec_Key (h_record h1))), \<lambda>t. live s2 t (ident (rec_Key (h_record h1)))) \<and>
    (\<forall>h i. gone_from T h (fence s1 i, \<lambda>t. live s1 t i) \<longrightarrow> gone_from (ends (snd x)) h (fence s2 i, \<lambda>t. live s2 t i))"
proof -
  have "be_Release (shared B) x (h_record h1) s1 = (None, s2)" using handle_Release_calls [OF assms(1,2)] assms(3) by auto
  then have call: "backend_call (shared B) x (CallRelease (h_record h1)) s1 = (Done, s2)" by simp
  have x: "env_ok (snd x)" "T \<le> ends (snd x)"
    using assms(5) begins_ends [of "snd x"] by (auto simp: shared_from_def)
  from call assms(5,4) show ?thesis
  proof (rule shared_call)
    fix s0
    assume s0: "backend_call B (snd x) (CallRelease (h_record h1)) s0 = (Done, s2)" "invar s0" "invar s2"
      "\<And>j. fence s1 j \<le> fence s2 j"
      and kept: "\<And>h i. gone_from T h (fence s1 i, \<lambda>t. live s1 t i) \<Longrightarrow> gone_from T h (fence s2 i, \<lambda>t. live s2 t i)"
    have "gone_from (ends (snd x)) (rec_Owner (h_record h1), rec_Token (h_record h1))
        (fence s2 (ident (rec_Key (h_record h1))), \<lambda>t. live s2 t (ident (rec_Key (h_record h1))))"
      using release_done [OF x(1) s0(2,1)] order_trans [OF assms(6) s0(4)] by (simp add: gone_from_def)
    then show ?thesis using s0(3,4) kept gone_from_later [OF _ x(2)] by blast
  qed
qed

lemma cleanup_frees:
  assumes "cleanup_entries (shared B) xs result s = Some (None, s')" "invar s"
    and "list_all (\<lambda>(entry, env). releasable (\<lambda>k. fence s (ident k)) entry) xs" "cleanup_order env_ok begins ends T xs"
    and ident_string: "\<And>k k'. key_String k = key_String k' \<Longrightarrow> ident k = ident k'"
    and "\<forall>(h, i) \<in> H. gone_from T h (fence s i, \<lambda>t. live s t i)"
  shows "\<forall>(h, i) \<in> H \<union> (\<lambda>(entry, env). (entry_holder entry, ident (rec_Key (h_record (ow_handle entry))))) ` set xs.
    gone_from (cleanup_until ends T xs) h (fence s' i, \<lambda>t. live s' t i)"
  using assms(1-4,6)
proof (induction xs arbitrary: result s T H)
  case (Cons y xs)
  obtain entry rounds x where y: "y = (entry, rounds, x)" by (cases y)
  let ?i = "ident (rec_Key (h_record (ow_handle entry)))"
  obtain result1 h1 s1 where stop: "(if ow_managed entry
      then (case managed_run (shared B) rounds (ow_handle entry) s of
          (None, h1, s1) \<Rightarrow> None | (Some loss, h1, s1) \<Rightarrow> Some (errors_Join [result, managed_Stop LoopDone], h1, s1))
      else Some (result, ow_handle entry, s)) = Some (result1, h1, s1)"
    using Cons.prems(1) y by (auto split: option.splits)
  obtain releaseErr h2 s2 where rel: "handle_Release (shared B) x h1 s1 = (releaseErr, h2, s2)" by (metis prod_cases3)
  have rest: "cleanup_entries (shared B) xs (errors_Join [result1, releaseErr]) s2 = Some (None, s')"
    using Cons.prems(1) y stop rel by (simp only: cleanup_entries.simps option.case prod.case)
  have nil: "releaseErr = None" using cleanup_entries_nil [OF rest] by simp
  have entry: "releasable (\<lambda>k. fence s (ident k)) entry" "\<forall>ro \<in> set rounds. shared_from env_ok begins T (ro_env ro)"
    "shared_from env_ok begins T x" "cleanup_order env_ok begins ends (ends (snd x)) xs"
    using Cons.prems(3,4) y by auto
  note st = entry_stops [OF stop entry(1) Cons.prems(2) entry(2)]
  have same: "rec_Owner (h_record h1) = handle_Owner (ow_handle entry)" "rec_Token (h_record h1) = handle_Token (ow_handle entry)"
    "ident (rec_Key (h_record h1)) = ?i"
    using st ident_string [of "rec_Key (h_record h1)" "rec_Key (h_record (ow_handle entry))"]
    by (auto simp: same_identity_def handle_Owner_def handle_Token_def)
  have "unat (rec_Token (h_record h1)) \<le> fence s1 (ident (rec_Key (h_record h1)))"
    using entry(1) st unfolding same by (auto simp: releasable_def intro: order_trans)
  with entry_released [OF rel [unfolded nil]] st entry(3)
  have s2: "invar s2" "\<And>j. fence s1 j \<le> fence s2 j" "gone_from (ends (snd x)) (entry_holder entry) (fence s2 ?i, \<lambda>t. live s2 t ?i)"
    "\<And>h i. gone_from T h (fence s1 i, \<lambda>t. live s1 t i) \<Longrightarrow> gone_from (ends (snd x)) h (fence s2 i, \<lambda>t. live s2 t i)"
    by (auto simp: same entry_holder_def)
  have "list_all (\<lambda>(entry, env). releasable (\<lambda>k. fence s2 (ident k)) entry) xs"
    using Cons.prems(3) y st s2(2) by (fastforce simp: list_all_iff releasable_def intro: order_trans)
  moreover have "\<forall>(h, i) \<in> insert (entry_holder entry, ?i) H. gone_from (ends (snd x)) h (fence s2 i, \<lambda>t. live s2 t i)"
    using s2(3,4) st Cons.prems(5) by blast
  ultimately have "\<forall>(h, i) \<in> insert (entry_holder entry, ?i) H \<union>
      (\<lambda>(entry, env). (entry_holder entry, ident (rec_Key (h_record (ow_handle entry))))) ` set xs.
    gone_from (cleanup_until ends (ends (snd x)) xs) h (fence s' i, \<lambda>t. live s' t i)"
    using Cons.IH [OF rest s2(1) _ entry(4)] by blast
  then show ?case by (simp add: y)
qed auto

lemma manager_frees:
  assumes "manager_cleanup (shared B) envs between m s = Some (m', s')" "mg_shutdownErr m' = None" "invar s"
    and "list_all (releasable (\<lambda>k. fence s (ident k))) (mg_entries m)"
    and "cleanup_order env_ok begins ends T (zip (mg_entries m) (map envs [0..<length (mg_entries m)]))"
    and ident_string: "\<And>k k'. key_String k = key_String k' \<Longrightarrow> ident k = ident k'"
    and "entry \<in> set (mg_entries m)" "cleanup_until ends T (zip (mg_entries m) (map envs [0..<length (mg_entries m)])) \<le> t"
  shows "live s' t (ident (rec_Key (h_record (ow_handle entry)))) \<noteq> Some (entry_holder entry)"
proof -
  let ?xs = "zip (mg_entries m) (map envs [0..<length (mg_entries m)])"
  obtain result where run: "cleanup_entries (shared B) ?xs None s = Some (result, s')"
    and m': "m' = cleanup_finish result (mg_entries m) (between m)"
    using assms(1) by (auto simp: manager_cleanup_def Let_def split: option.splits)
  have "mg_shutdownErr m' = result"
    by (simp add: m' cleanup_finish_def close_channel_def Let_def split: option.splits)
  then have nil: "cleanup_entries (shared B) ?xs None s = Some (None, s')" using run assms(2) by simp
  have "list_all (\<lambda>(entry, env). releasable (\<lambda>k. fence s (ident k)) entry) ?xs"
    using assms(4) by (auto simp: list_all_iff dest: set_zip_leftD)
  from cleanup_frees [OF nil assms(3) this assms(5) ident_string, of "{}"]
  have all: "\<forall>(h, i) \<in> (\<lambda>(entry, env). (entry_holder entry, ident (rec_Key (h_record (ow_handle entry))))) ` set ?xs.
    gone_from (cleanup_until ends T ?xs) h (fence s' i, \<lambda>t. live s' t i)" by simp
  have gone: "gone_from (cleanup_until ends T ?xs) (entry_holder e) (fence s' (ident (rec_Key (h_record (ow_handle e)))),
      \<lambda>t. live s' t (ident (rec_Key (h_record (ow_handle e)))))" if "(e, env) \<in> set ?xs" for e env
    using bspec [OF all imageI [OF that]] by simp
  obtain k where "k < length (mg_entries m)" "entry = mg_entries m ! k" using assms(7) by (auto simp: in_set_conv_nth)
  then have "(entry, envs k) \<in> set ?xs" by (auto simp: set_zip intro!: exI [of _ k])
  from gone [OF this] assms(8) show ?thesis by (simp add: gone_from_def)
qed

end

text \<open>
  C24: Shutdown gives everything back. Over PostgreSQL, used by other clients at the same time
  with statements that do not overlap: when the cleanup of a service manager ends without an
  error, then from its end on the database names none of the leases the manager held, though
  most were released earlier and other clients went on.
\<close>

theorem pg_shutdown_frees:
  assumes "manager_cleanup (shared pg_backend) envs between m db = Some (m', db')" and "mg_shutdownErr m' = None" and "pg_invar db"
    and "list_all (releasable (\<lambda>k. pg_fence db (pg_digest k))) (mg_entries m)"
    and "cleanup_order pg_serial (\<lambda>e. pg_instant (pg_begin e)) (\<lambda>e. pg_instant (pg_end e)) T
      (zip (mg_entries m) (map envs [0..<length (mg_entries m)]))"
  defines "T' \<equiv> cleanup_until (\<lambda>e. pg_instant (pg_end e)) T (zip (mg_entries m) (map envs [0..<length (mg_entries m)]))"
  shows "\<forall>entry \<in> set (mg_entries m). \<forall>t \<ge> T'.
    pg_live db' t (pg_digest (rec_Key (h_record (ow_handle entry)))) \<noteq> Some (entry_holder entry)"
  unfolding T'_def
  by (intro ballI allI impI, rule lease_backend.manager_frees [OF pg.lease_backend_axioms assms(1-5)]) (simp_all add: pg_digest_def)

text \<open>The same over Valkey, on any server with the documented behaviour.\<close>

theorem valkey_shutdown_frees:
  assumes "valkey_server S hash_at count_at"
    and "manager_cleanup (shared (valkey_backend S prefix)) envs between m v = Some (m', v')" and "mg_shutdownErr m' = None"
    and "valkey_invar hash_at count_at prefix v"
    and "list_all (releasable (\<lambda>k. valkey_fence count_at prefix v (key_digest k))) (mg_entries m)"
    and "cleanup_order valkey_env_ok (\<lambda>e. valkey_instant (vk_now e)) (\<lambda>e. valkey_instant (vk_now e)) T
      (zip (mg_entries m) (map envs [0..<length (mg_entries m)]))"
  defines "T' \<equiv> cleanup_until (\<lambda>e. valkey_instant (vk_now e)) T (zip (mg_entries m) (map envs [0..<length (mg_entries m)]))"
  shows "\<forall>entry \<in> set (mg_entries m). \<forall>t \<ge> T'.
    valkey_live hash_at prefix v' t (key_digest (rec_Key (h_record (ow_handle entry)))) \<noteq> Some (entry_holder entry)"
  unfolding T'_def
  by (intro ballI allI impI, rule lease_backend.manager_frees [OF lease_progress.axioms(1)
        [OF valkey_lease.progress_contract [OF valkey_lease.intro [OF assms(1)]]] assms(2-6)]) (simp_all add: key_digest_def)

section \<open>Witnesses\<close>

definition ex_pg_owned :: owned where
  "ex_pg_owned = \<lparr>ow_handle = newHandleAt ex_policy (ex_precord ''y'' 2 1000 5001000) 1000000 1000000, ow_managed = False\<rparr>"

definition ex_pg_plan :: "nat \<Rightarrow> ((pg_env \<times> call) list \<times> pg_env) round list \<times> (pg_env \<times> call) list \<times> pg_env" where
  "ex_pg_plan i = ([], [], ex_penv 2000 None)"

lemma ex_pg_released: "\<exists>db'. pg_Release (ex_penv 2000 None) (ex_precord ''y'' 2 1000 5001000) ex_tables1 = (None, db')"
proof -
  have calm: "pg_calm (ex_penv 2000 None)" by (simp add: pg_calm_def)
  have "pg_text ''y''" by code_simp
  then have input: "pg_input ex_pkey ''y'' 2 1000000"
    by (simp add: pg_input_def pg_validate_def ex_pkey_def word_sless_alt word_less_nat_alt)
  have inv: "pg_invar ex_tables1" by (simp add: pg_invar_def ex_tables1_def ex_row_def row_check_def max_bigint_def)
  have live: "pg_live ex_tables1 (pg_instant 2000) (pg_digest ex_pkey) = Some (''y'', 2)"
    by (simp add: pg_live_def row_live_def ex_tables1_def ex_row_def pg_instant_def)
  show ?thesis
    using pgp.release_live [OF calm inv, of "ex_precord ''y'' 2 1000 5001000"] input live by (auto simp: ex_precord_def)
qed

lemma ex_pg_cleanup:
  "\<exists>m' db'. manager_cleanup (shared pg_backend) ex_pg_plan (\<lambda>m. m) (ex_manager\<lparr>mg_entries := [ex_pg_owned]\<rparr>) ex_tables1 = Some (m', db') \<and>
     mg_shutdownErr m' = None"
  using ex_pg_released
  by (auto simp: manager_cleanup_def ex_pg_owned_def ex_pg_plan_def handle_Release_def release_begin_def release_finish_def newHandleAt_def
      shared_def cleanup_finish_def close_channel_def Let_def split: option.splits)

theorem pg_shutdown_frees_witness:
  "\<exists>m' db'. manager_cleanup (shared pg_backend) ex_pg_plan (\<lambda>m. m) (ex_manager\<lparr>mg_entries := [ex_pg_owned]\<rparr>) ex_tables1 = Some (m', db') \<and>
     pg_live db' 3000000 (pg_digest ex_pkey) \<noteq> Some (''y'', 2)"
proof -
  obtain m' db' where run: "manager_cleanup (shared pg_backend) ex_pg_plan (\<lambda>m. m) (ex_manager\<lparr>mg_entries := [ex_pg_owned]\<rparr>) ex_tables1 =
      Some (m', db')" "mg_shutdownErr m' = None" using ex_pg_cleanup by blast
  have inv: "pg_invar ex_tables1" by (simp add: pg_invar_def ex_tables1_def ex_row_def row_check_def max_bigint_def)
  have "releasable (\<lambda>k. pg_fence ex_tables1 (pg_digest k)) ex_pg_owned"
    by (simp add: releasable_def at_rest_def ex_pg_owned_def newHandleAt_def Let_def handle_Token_def ex_precord_def
        pg_fence_def ex_tables1_def)
  moreover have "cleanup_order pg_serial (\<lambda>e. pg_instant (pg_begin e)) (\<lambda>e. pg_instant (pg_end e)) 0 [(ex_pg_owned, ex_pg_plan 0)]"
    by (simp add: ex_pg_plan_def shared_from_def pg_instant_def)
  ultimately have "pg_live db' 3000000 (pg_digest (rec_Key (h_record (ow_handle ex_pg_owned)))) \<noteq> Some (entry_holder ex_pg_owned)"
    using pg_shutdown_frees [OF run inv, of 0] by (simp add: ex_pg_plan_def pg_instant_def)
  then show ?thesis using run(1)
    by (auto simp: ex_pg_owned_def newHandleAt_def Let_def entry_holder_def handle_Owner_def handle_Token_def ex_precord_def)
qed

text \<open>A guarded run over the database, without renewal.\<close>

definition ex_pg_guard :: "((pg_env \<times> call) list \<times> pg_env) guard_env" where
  "ex_pg_guard = \<lparr>ge_owner = Inr ''y'', ge_started = 0,
     ge_attempts = (\<lambda>n. \<lparr>at_clocks = ex_clocks 1000000, at_env = ([], ex_penv 1000 None), at_ctxErr = None, at_waitErr = None,
       at_jitter = 0, at_now = 0, at_sleep = None, at_ctxErr2 = None, at_waitErr2 = None\<rparr>),
     ge_start = ex_clocks 1000000, ge_rounds = [], ge_release = ([], ex_penv 2000 None)\<rparr>"

lemma ex_pg_guard_acquired:
  "guard_acquire (shared pg_backend) ex_client (Some None) ex_pg_guard (ex_policy\<lparr>RenewEvery := 0\<rparr>) ex_pkey ex_tables =
     (Inr (newHandleAt (ex_policy\<lparr>RenewEvery := 0\<rparr>) (ex_precord ''y'' 2 1000 5001000) 1000000 1000000), ex_tables1)"
  unfolding guard_acquire_def using ex_acquired
  by (subst client_Acquire_def, subst acquire_loop.simps)
    (simp add: acquisitionContextError_def valid_owner_def ex_client_def ex_pg_guard_def shared_def validAcquisition_def
      ex_precord_def pg_instant_def ex_clocks_def Let_def)

theorem pg_guard_frees_witness:
  "\<exists>db'. guard_Run (shared pg_backend) ex_client (Some None) ex_pg_guard (ex_policy\<lparr>RenewEvery := 0\<rparr>) ex_pkey ex_callback ex_tables [] =
      Some (None, db', [2]) \<and> pg_live db' 3000000 (pg_digest ex_pkey) \<noteq> Some (''y'', 2)"
proof -
  obtain db' where rel: "pg_Release (ex_penv 2000 None) (ex_precord ''y'' 2 1000 5001000) ex_tables1 = (None, db')"
    using ex_pg_released by blast
  let ?h = "newHandleAt (ex_policy\<lparr>RenewEvery := 0\<rparr>) (ex_precord ''y'' 2 1000 5001000) 1000000 1000000"
  have token: "handle_Token ?h = 2" "handle_Owner ?h = ''y''"
    by (simp_all add: handle_Token_def handle_Owner_def newHandleAt_def Let_def ex_precord_def)
  have "be_Release (shared pg_backend) (ge_release ex_pg_guard) (ex_precord ''y'' 2 1000 5001000) ex_tables1 = (None, db')"
    using rel by (simp add: shared_def ex_pg_guard_def)
  then obtain h2 where released: "guard_release (shared pg_backend) ex_pg_guard ?h ex_tables1 = (None, h2, db')"
    by (auto simp: guard_release_def handle_Release_def release_begin_def release_finish_def newHandleAt_def Let_def)
  have run: "guard_Run (shared pg_backend) ex_client (Some None) ex_pg_guard (ex_policy\<lparr>RenewEvery := 0\<rparr>) ex_pkey ex_callback ex_tables [] =
      Some (None, db', [2])"
    by (simp add: guard_Run_def ex_pg_guard_acquired ex_callback_def token released)
  have inv: "pg_invar ex_tables" by (simp add: pg_invar_def ex_tables_def max_bigint_def)
  have "pg_live db' 3000000 (pg_digest ex_pkey) \<noteq> Some (handle_Owner ?h, handle_Token ?h)"
    using pg_guard_frees [OF run inv] ex_pg_guard_acquired by (auto simp: ex_pg_guard_def pg_instant_def)
  then show ?thesis using run token by simp
qed

end
