(* ===== verification/Lease_Observation.thy ===== *)
theory Lease_Observation
  imports Lease_Backend Sha256 Memory_Store
begin

text \<open>
  \<^verbatim>\<open>observation.go\<close>: the observing decorator of a backend. Its state is that of the inner
  backend, one busy flag per registered observer (the one-element channel of a slot) and
  the callbacks started so far; which callbacks have ended before a call and the clock
  reading of the event come with the environment of the call.
\<close>

section \<open>Events\<close>

type_synonym Operation = string
type_synonym Outcome = string

definition OperationAcquire :: Operation where "OperationAcquire = ''acquire''"
definition OperationRenew :: Operation where "OperationRenew = ''renew''"
definition OperationValidate :: Operation where "OperationValidate = ''validate''"
definition OperationRelease :: Operation where "OperationRelease = ''release''"

definition OutcomeSuccess :: Outcome where "OutcomeSuccess = ''success''"
definition OutcomeContended :: Outcome where "OutcomeContended = ''contended''"
definition OutcomeStale :: Outcome where "OutcomeStale = ''stale''"
definition OutcomeCanceled :: Outcome where "OutcomeCanceled = ''canceled''"
definition OutcomeUnavailable :: Outcome where "OutcomeUnavailable = ''unavailable''"
definition OutcomeAmbiguous :: Outcome where "OutcomeAmbiguous = ''ambiguous''"
definition OutcomeInvalid :: Outcome where "OutcomeInvalid = ''invalid''"

record Event =
  ev_At :: instant
  ev_Operation :: Operation
  ev_Outcome :: Outcome
  ev_KeyHash :: string

definition event_String :: "Event \<Rightarrow> string" where
  "event_String event = ''lease operation='' @ ev_Operation event @ '' outcome='' @ ev_Outcome event @
     '' key_hash='' @ ev_KeyHash event"

definition classifyOutcome :: "gerror option \<Rightarrow> Outcome" where
  "classifyOutcome err =
     (if err = None then OutcomeSuccess
      else if err_is err (Sentinel ErrContended) \<or> err_is err (Sentinel ErrTimeout) then OutcomeContended
      else if err_is err (Sentinel ErrStaleOwner) \<or> err_is err (Sentinel ErrLost) then OutcomeStale
      else if err_is err (Sentinel ErrCanceled) then OutcomeCanceled
      else if err_is err (Sentinel ErrAmbiguousOutcome) then OutcomeAmbiguous
      else if err_is err (Sentinel ErrInvalidState) then OutcomeInvalid
      else OutcomeUnavailable)"

section \<open>The decorator\<close>

record 's observed =
  ob_inner :: 's
  ob_busy :: "bool list"
  ob_started :: "(nat \<times> Event) list"

record 'e ob_env =
  oe_inner :: 'e
  oe_now :: instant
  oe_ended :: "bool list"

text \<open>An observer argument is \<open>False\<close> where the interface is nil.\<close>

definition NewObservedBackend :: "bool \<Rightarrow> bool \<Rightarrow> bool list \<Rightarrow> 's \<Rightarrow> 's observed result" where
  "NewObservedBackend backend_set clock_set observers s =
     (if \<not> backend_set \<or> \<not> clock_set \<or> length observers = 0 \<or> length observers > 16
      then Inl (Wrap (Sentinel ErrInvalidState) ''observation options'')
      else if False \<in> set observers then Inl (Wrap (Sentinel ErrInvalidState) ''nil observer'')
      else Inr \<lparr>ob_inner = s, ob_busy = map (\<lambda>_. False) observers, ob_started = []\<rparr>)"

text \<open>The callbacks that have ended give their slots back.\<close>

definition end_callbacks :: "bool list \<Rightarrow> bool list \<Rightarrow> bool list" where
  "end_callbacks ended busy = map (\<lambda>(b, i). b \<and> \<not> (i < length ended \<and> ended ! i)) (zip busy [0..<length busy])"

fun offer_event :: "nat \<Rightarrow> Event \<Rightarrow> bool list \<Rightarrow> bool list \<times> (nat \<times> Event) list" where
  "offer_event i event [] = ([], [])"
| "offer_event i event (busy # slots) =
     (case offer_event (Suc i) event slots of
        (slots1, started) \<Rightarrow>
          if busy then (True # slots1, started) else (True # slots1, (i, event) # started))"

definition emit :: "Operation \<Rightarrow> Key \<Rightarrow> gerror option \<Rightarrow> 'e ob_env \<Rightarrow> 's observed \<Rightarrow> 's observed" where
  "emit operation key err e os =
     (let event = \<lparr>ev_At = oe_now e, ev_Operation = operation, ev_Outcome = classifyOutcome err,
          ev_KeyHash = hex_EncodeToString (take 16 (sha256_Sum256 (key_String key)))\<rparr>
      in case offer_event 0 event (end_callbacks (oe_ended e) (ob_busy os)) of
           (busy, started) \<Rightarrow> os\<lparr>ob_busy := busy, ob_started := ob_started os @ started\<rparr>)"

definition result_error :: "'a result \<Rightarrow> gerror option" where
  "result_error res = (case res of Inl err \<Rightarrow> Some err | Inr x \<Rightarrow> None)"

definition observed_TryAcquire ::
  "('e, 's) Backend \<Rightarrow> 'e ob_env \<Rightarrow> Key \<Rightarrow> string \<Rightarrow> duration \<Rightarrow> 's observed \<Rightarrow> Record result \<times> 's observed" where
  "observed_TryAcquire B e key owner ttl os =
     (case be_TryAcquire B (oe_inner e) key owner ttl (ob_inner os) of
        (res, s1) \<Rightarrow> (res, emit OperationAcquire key (result_error res) e (os\<lparr>ob_inner := s1\<rparr>)))"

definition observed_Renew ::
  "('e, 's) Backend \<Rightarrow> 'e ob_env \<Rightarrow> Record \<Rightarrow> duration \<Rightarrow> 's observed \<Rightarrow> Record result \<times> 's observed" where
  "observed_Renew B e record0 ttl os =
     (case be_Renew B (oe_inner e) record0 ttl (ob_inner os) of
        (res, s1) \<Rightarrow> (res, emit OperationRenew (rec_Key record0) (result_error res) e (os\<lparr>ob_inner := s1\<rparr>)))"

definition observed_Validate ::
  "('e, 's) Backend \<Rightarrow> 'e ob_env \<Rightarrow> Record \<Rightarrow> 's observed \<Rightarrow> Record result \<times> 's observed" where
  "observed_Validate B e record0 os =
     (case be_Validate B (oe_inner e) record0 (ob_inner os) of
        (res, s1) \<Rightarrow> (res, emit OperationValidate (rec_Key record0) (result_error res) e (os\<lparr>ob_inner := s1\<rparr>)))"

definition observed_Release ::
  "('e, 's) Backend \<Rightarrow> 'e ob_env \<Rightarrow> Record \<Rightarrow> 's observed \<Rightarrow> gerror option \<times> 's observed" where
  "observed_Release B e record0 os =
     (case be_Release B (oe_inner e) record0 (ob_inner os) of
        (err, s1) \<Rightarrow> (err, emit OperationRelease (rec_Key record0) err e (os\<lparr>ob_inner := s1\<rparr>)))"

definition observed_backend :: "('e, 's) Backend \<Rightarrow> ('e ob_env, 's observed) Backend" where
  "observed_backend B = \<lparr>be_TryAcquire = observed_TryAcquire B, be_Renew = observed_Renew B,
     be_Validate = observed_Validate B, be_Release = observed_Release B\<rparr>"

lemmas observed_defs = observed_backend_def observed_TryAcquire_def observed_Renew_def observed_Validate_def
  observed_Release_def

section \<open>Transparency\<close>

lemma emit_inner [simp]: "ob_inner (emit operation key err e os) = ob_inner os"
  by (simp add: emit_def Let_def split: prod.splits)

lemma observed_call:
  "backend_call (observed_backend B) e c os = (rep, os1) \<Longrightarrow>
   backend_call B (oe_inner e) c (ob_inner os) = (rep, ob_inner os1)"
  by (cases c) (auto simp: observed_defs map_prod_eq split: prod.splits)

lemma observed_run:
  "backend_run (observed_backend B) cs os = (tr, os1) \<Longrightarrow>
   backend_run B (map (map_prod oe_inner id) cs) (ob_inner os) = (map (map_prod oe_inner id) tr, ob_inner os1)"
proof (induction cs arbitrary: os tr)
  case (Cons ec cs)
  obtain e c where ec: "ec = (e, c)" by (cases ec)
  obtain rep os2 where call: "backend_call (observed_backend B) e c os = (rep, os2)" by fastforce
  obtain tr2 where "backend_run (observed_backend B) cs os2 = (tr2, os1)" "tr = (e, c, rep) # tr2"
    using Cons.prems ec call by (auto split: prod.splits)
  then show ?case using Cons.IH [of os2 tr2] observed_call [OF call] ec by simp
qed simp

section \<open>Slots\<close>

lemma offer_event_spec:
  "offer_event i event slots = (slots1, started) \<Longrightarrow>
   slots1 = replicate (length slots) True \<and>
   started = map (\<lambda>j. (i + j, event)) (filter (\<lambda>j. \<not> slots ! j) [0..<length slots])"
proof (induction slots arbitrary: i slots1 started)
  case (Cons busy slots)
  obtain slots2 started2 where rest: "offer_event (Suc i) event slots = (slots2, started2)" by fastforce
  have "[0..<Suc (length slots)] = 0 # map Suc [0..<length slots]" by (simp only: upt_conv_Cons zero_less_Suc map_Suc_upt)
  then have up: "filter (\<lambda>j. \<not> (busy # slots) ! j) [0..<Suc (length slots)] =
      (if busy then [] else [0]) @ map Suc (filter (\<lambda>j. \<not> slots ! j) [0..<length slots])"
    by (simp add: filter_map o_def)
  show ?case using Cons.IH [OF rest] Cons.prems rest by (simp add: up del: upt_Suc split: if_splits) auto
qed simp

text \<open>
  C33: Observing a backend changes nothing it does. Any sequence of calls through the
  decorator gets the replies, and leaves the inner state, of the same calls made directly;
  so the decorated backend keeps the safety contract of the backend it decorates.
\<close>

theorem observed_contract:
  assumes "lease_safety B invar ident live fence begins ends env_ok"
  shows "lease_safety (observed_backend B) (\<lambda>os. invar (ob_inner os)) ident (\<lambda>os. live (ob_inner os))
      (\<lambda>os. fence (ob_inner os)) (\<lambda>e. begins (oe_inner e)) (\<lambda>e. ends (oe_inner e)) (\<lambda>e. env_ok (oe_inner e)) \<and>
    (\<forall>cs os tr os1. backend_run (observed_backend B) cs os = (tr, os1) \<longrightarrow>
      backend_run B (map (map_prod oe_inner id) cs) (ob_inner os) = (map (map_prod oe_inner id) tr, ob_inner os1))"
proof (rule conjI, rule lease_safety.intro, goal_cases)
  case (1 e)
  then show ?case by (rule lease_safety.begins_ends [OF assms])
next
  case (2 e s c rep s')
  then show ?case using lease_safety.invar_call [OF assms] observed_call by blast
next
  case (3 e s c rep s')
  then show ?case using lease_safety.simulates [OF assms] observed_call by blast
next
  case (4 e s c rep s' i t)
  then show ?case using lease_safety.frame [OF assms] observed_call by blast
next
  case (5 s t i ow tok)
  then show ?case by (rule lease_safety.live_fence [OF assms])
next
  case (6 s t' i h t)
  then show ?case by (rule lease_safety.live_expires [OF assms])
next
  case (7 e s k ow ttl r s')
  then show ?case using lease_safety.acquire_got [OF assms] observed_call by blast
next
  case (8 e s k ow ttl err s' t i)
  then show ?case using lease_safety.acquire_failed [OF assms] observed_call by blast
next
  case (9 e s r ttl r' s')
  then show ?case using lease_safety.renew_got [OF assms] observed_call by blast
qed (intro allI impI observed_run)

text \<open>
  What one call emits. Every registered observer is called at most once, and exactly
  when its previous callback has ended; afterwards every slot is taken. The event depends
  on the key only through 128 bits of its SHA-256 digest and on the error only through its
  class.
\<close>

theorem emit_exact:
  "ob_inner (emit operation key err e os) = ob_inner os \<and>
   ob_busy (emit operation key err e os) = replicate (length (ob_busy os)) True \<and>
   ob_started (emit operation key err e os) = ob_started os @
     map (\<lambda>j. (j, \<lparr>ev_At = oe_now e, ev_Operation = operation, ev_Outcome = classifyOutcome err,
        ev_KeyHash = hex_EncodeToString (take 16 (sha256_Sum256 (key_String key)))\<rparr>))
       (filter (\<lambda>j. if ob_busy os ! j then j < length (oe_ended e) \<and> oe_ended e ! j else True) [0..<length (ob_busy os)])"
proof -
  have len: "length (end_callbacks (oe_ended e) (ob_busy os)) = length (ob_busy os)"
    by (simp add: end_callbacks_def)
  have free: "filter (\<lambda>j. \<not> end_callbacks (oe_ended e) (ob_busy os) ! j) [0..<length (ob_busy os)] =
    filter (\<lambda>j. if ob_busy os ! j then j < length (oe_ended e) \<and> oe_ended e ! j else True) [0..<length (ob_busy os)]"
    by (rule filter_cong) (auto simp: end_callbacks_def)
  let ?event = "\<lparr>ev_At = oe_now e, ev_Operation = operation, ev_Outcome = classifyOutcome err,
     ev_KeyHash = hex_EncodeToString (take 16 (sha256_Sum256 (key_String key)))\<rparr>"
  obtain busy started where off: "offer_event 0 ?event (end_callbacks (oe_ended e) (ob_busy os)) = (busy, started)"
    by fastforce
  show ?thesis unfolding free [symmetric] using offer_event_spec [OF off] by (simp add: emit_def off len)
qed

theorem observed_contract_witness:
  "lease_safety (observed_backend memory_backend) (\<lambda>os. memory_invar (ob_inner os)) key_String
     (\<lambda>os. memory_live (ob_inner os)) (\<lambda>os. memory_fence (ob_inner os))
     (\<lambda>e. mem_now (oe_inner e)) (\<lambda>e. mem_now (oe_inner e)) (\<lambda>e. True)"
  using observed_contract [OF mem.lease_safety_axioms] by blast

section \<open>Callbacks\<close>

text \<open>
  An observer is called with an event in the state \<open>'o\<close> of the program around it; its callback
  returns or panics, or never ends, which is a call step that is never taken below.
\<close>

datatype callback_end = Returned | Panicked

type_synonym 'o Observer = "Event \<Rightarrow> 'o \<Rightarrow> callback_end \<times> 'o"

definition ObserverFunc_Observe :: "(Event \<Rightarrow> 'o \<Rightarrow> callback_end \<times> 'o) \<Rightarrow> 'o Observer" where
  "ObserverFunc_Observe observer event w = observer event w"

text \<open>The deferred \<^verbatim>\<open>recover\<close> turns a panic into a return.\<close>

definition callObserver :: "'o Observer \<Rightarrow> Event \<Rightarrow> 'o \<Rightarrow> callback_end \<times> 'o" where
  "callObserver observer event w =
     (case observer event w of
        (Returned, w1) \<Rightarrow> (Returned, w1)
      | (Panicked, w1) \<Rightarrow> (Returned, w1))"

lemma callObserver_returns: "\<exists>w1. callObserver observer event w = (Returned, w1)"
  by (cases "observer event w"; cases "fst (observer event w)") (auto simp: callObserver_def)

text \<open>
  A slot: the number of values in its channel of capacity one, and the goroutines started
  for it that have not ended, each with its event and whether its callback has returned.
\<close>

record observerSlot =
  sl_active :: nat
  sl_goroutines :: "(Event \<times> bool) list"

definition new_slot :: observerSlot where
  "new_slot = \<lparr>sl_active = 0, sl_goroutines = []\<rparr>"

text \<open>The \<^verbatim>\<open>select\<close> of \<^verbatim>\<open>emit\<close>: a send that would block takes the default branch.\<close>

definition slot_offer :: "Event \<Rightarrow> observerSlot \<Rightarrow> observerSlot" where
  "slot_offer event slot =
     (if sl_active slot < 1
      then slot\<lparr>sl_active := sl_active slot + 1, sl_goroutines := sl_goroutines slot @ [(event, False)]\<rparr>
      else slot)"

text \<open>
  One step of the decorator's goroutines on the slots: an emitting call reaches a slot, a
  callback runs to its end, or a goroutine whose callback has ended receives from the
  channel, which blocks while it is empty.
\<close>

inductive slot_step :: "'o Observer list \<Rightarrow> observerSlot list \<times> 'o \<Rightarrow> observerSlot list \<times> 'o \<Rightarrow> bool" for observers where
  offer: "i < length slots \<Longrightarrow> slot_step observers (slots, w) (slots[i := slot_offer event (slots ! i)], w)"
| call_back: "i < length slots \<Longrightarrow> j < length (sl_goroutines (slots ! i)) \<Longrightarrow> sl_goroutines (slots ! i) ! j = (event, False) \<Longrightarrow>
    callObserver (observers ! i) event w = (Returned, w1) \<Longrightarrow>
    slot_step observers (slots, w)
      (slots[i := (slots ! i)\<lparr>sl_goroutines := (sl_goroutines (slots ! i))[j := (event, True)]\<rparr>], w1)"
| receive: "i < length slots \<Longrightarrow> j < length (sl_goroutines (slots ! i)) \<Longrightarrow> sl_goroutines (slots ! i) ! j = (event, True) \<Longrightarrow>
    0 < sl_active (slots ! i) \<Longrightarrow>
    slot_step observers (slots, w)
      (slots[i := (slots ! i)\<lparr>sl_active := sl_active (slots ! i) - 1,
         sl_goroutines := take j (sl_goroutines (slots ! i)) @ drop (Suc j) (sl_goroutines (slots ! i))\<rparr>], w)"

text \<open>The channel holds one value for the goroutine of the slot, if there is one.\<close>

definition slot_ok :: "observerSlot \<Rightarrow> bool" where
  "slot_ok slot \<longleftrightarrow> sl_active slot = length (sl_goroutines slot) \<and> sl_active slot \<le> 1"

definition slot_busy :: "observerSlot \<Rightarrow> bool" where
  "slot_busy slot \<longleftrightarrow> sl_active slot = 1"

lemma slot_offer_ok: "slot_ok slot \<Longrightarrow> slot_ok (slot_offer event slot)"
  by (auto simp: slot_ok_def slot_offer_def)

lemma list_all_update: "list_all P xs \<Longrightarrow> (i < length xs \<Longrightarrow> P x) \<Longrightarrow> list_all P (xs[i := x])"
  by (cases "i < length xs") (auto simp: list_all_iff list_update_beyond dest: subsetD [OF set_update_subset_insert])

lemma slot_step_ok: "slot_step observers x y \<Longrightarrow> list_all slot_ok (fst x) \<Longrightarrow> list_all slot_ok (fst y) \<and> length (fst y) = length (fst x)"
proof (induction rule: slot_step.induct)
  case (offer i slots w event)
  then have "slot_ok (slots ! i)" by (simp add: list_all_length)
  with offer show ?case by (simp add: list_all_update slot_offer_ok)
next
  case (call_back i slots j event w w1)
  then have "slot_ok (slots ! i)" by (simp add: list_all_length)
  with call_back show ?case by (intro conjI) (auto intro!: list_all_update simp: slot_ok_def)
next
  case (receive i slots j event w)
  then have "slot_ok (slots ! i)" by (simp add: list_all_length)
  with receive show ?case by (intro conjI) (auto intro!: list_all_update simp: slot_ok_def)
qed

lemma slot_steps_ok:
  "(slot_step observers)\<^sup>*\<^sup>* x y \<Longrightarrow> list_all slot_ok (fst x) \<Longrightarrow> list_all slot_ok (fst y) \<and> length (fst y) = length (fst x)"
  by (induction rule: rtranclp_induct) (auto dest: slot_step_ok)

text \<open>A slot in use gives itself back in at most two steps, whatever its observer does.\<close>

lemma slot_frees:
  assumes "i < length slots" and "slot_ok (slots ! i)" and "slot_busy (slots ! i)"
  shows "\<exists>w1. (slot_step observers)\<^sup>*\<^sup>* (slots, w) (slots[i := new_slot], w1)"
proof -
  obtain event ended where g: "sl_goroutines (slots ! i) = [(event, ended)]"
    using assms(2,3) by (auto simp: slot_ok_def slot_busy_def length_Suc_conv)
  have receive: "slot_step observers (slots', w1) (slots'[i := new_slot], w1)"
    if "i < length slots'" "slots' ! i = \<lparr>sl_active = 1, sl_goroutines = [(event, True)]\<rparr>" for slots' w1
    using slot_step.receive [of i slots' 0 event observers w1] that by (simp add: new_slot_def)
  have slot: "slots ! i = \<lparr>sl_active = 1, sl_goroutines = [(event, ended)]\<rparr>"
    using assms(3) g by (simp add: slot_busy_def)
  show ?thesis
  proof (cases ended)
    case True
    then show ?thesis using receive [OF assms(1), of w] slot by auto
  next
    case False
    obtain w1 where "callObserver (observers ! i) event w = (Returned, w1)" using callObserver_returns [of "observers ! i" event w] by blast
    then have "slot_step observers (slots, w) (slots[i := \<lparr>sl_active = 1, sl_goroutines = [(event, True)]\<rparr>], w1)"
      using slot_step.call_back [of i slots 0 event observers w w1] assms(1) slot False by simp
    moreover have "slot_step observers (slots[i := \<lparr>sl_active = 1, sl_goroutines = [(event, True)]\<rparr>], w1) (slots[i := new_slot], w1)"
      using receive [of "slots[i := \<lparr>sl_active = 1, sl_goroutines = [(event, True)]\<rparr>]" w1] assms(1) by simp
    ultimately show ?thesis by (meson converse_rtranclp_into_rtranclp rtranclp.rtrancl_refl)
  qed
qed

text \<open>
  C34: Observers are isolated from the lease operations and bounded. However the emitting calls,
  the callbacks and the goroutines of the decorator interleave, each registration has at
  most one callback in flight; a goroutine whose callback has ended never blocks on the
  channel; and whether a callback returns or panics, its slot becomes free again, after
  which the next event is delivered.
\<close>

theorem observers_bounded:
  assumes "(slot_step observers)\<^sup>*\<^sup>* (replicate n new_slot, w0) (slots, w)" and "i < n"
  shows "length (sl_goroutines (slots ! i)) \<le> 1 \<and> (sl_goroutines (slots ! i) \<noteq> [] \<longrightarrow> 0 < sl_active (slots ! i)) \<and>
    (\<exists>slots1 w1. (slot_step observers)\<^sup>*\<^sup>* (slots, w) (slots1, w1) \<and>
       sl_goroutines (slot_offer event (slots1 ! i)) = [(event, False)])"
proof -
  have "list_all slot_ok (replicate n new_slot)" by (simp add: list_all_length slot_ok_def new_slot_def)
  with slot_steps_ok [OF assms(1)] have all: "list_all slot_ok slots" and len: "length slots = n" by auto
  have ok: "slot_ok (slots ! i)" using all assms(2) len by (simp add: list_all_length)
  have "\<exists>slots1 w1. (slot_step observers)\<^sup>*\<^sup>* (slots, w) (slots1, w1) \<and> slots1 ! i = new_slot"
  proof (cases "slot_busy (slots ! i)")
    case True
    then show ?thesis using slot_frees [of i slots, OF _ ok] assms(2) len by (metis nth_list_update_eq)
  next
    case False
    then have "slots ! i = new_slot" using ok by (cases "slots ! i") (auto simp: slot_busy_def slot_ok_def new_slot_def le_Suc_eq)
    then show ?thesis by blast
  qed
  moreover have "sl_goroutines (slot_offer event new_slot) = [(event, False)]" by (simp add: slot_offer_def new_slot_def)
  ultimately show ?thesis using ok by (auto simp: slot_ok_def)
qed

text \<open>
  The busy flags of the decorator are these slots seen from a call: the callbacks reported
  as ended give their slots back, then the event is offered to every slot.
\<close>

definition free_slots :: "bool list \<Rightarrow> observerSlot list \<Rightarrow> observerSlot list" where
  "free_slots ended slots = map (\<lambda>(slot, i). if i < length ended \<and> ended ! i then new_slot else slot) (zip slots [0..<length slots])"

lemma free_slots_busy: "map slot_busy (free_slots ended slots) = end_callbacks ended (map slot_busy slots)"
  by (rule nth_equalityI) (auto simp: free_slots_def end_callbacks_def slot_busy_def new_slot_def)

lemma update_first: "length ys = i \<Longrightarrow> (ys @ x # zs)[i := z] = ys @ z # zs"
  by (simp add: list_update_append)

lemma free_slots_steps:
  assumes "list_all slot_ok (done1 @ slots)"
  shows "\<exists>w1. (slot_step observers)\<^sup>*\<^sup>* (done1 @ slots, w)
    (done1 @ map (\<lambda>(slot, i). if i < length ended \<and> ended ! i then new_slot else slot)
       (zip slots [length done1..<length done1 + length slots]), w1)"
  using assms
proof (induction slots arbitrary: done1 w)
  case (Cons slot slots)
  let ?i = "length done1" and ?slot = "if length done1 < length ended \<and> ended ! length done1 then new_slot else slot"
  have here: "(done1 @ slot # slots) ! ?i = slot" by simp
  have ok: "slot_ok slot" using Cons.prems by simp
  have "\<exists>w1. (slot_step observers)\<^sup>*\<^sup>* (done1 @ slot # slots, w) (done1 @ ?slot # slots, w1)"
  proof (cases "slot_busy slot \<and> ?slot = new_slot")
    case True
    then show ?thesis using slot_frees [of ?i "done1 @ slot # slots" observers w] ok here by (simp add: update_first)
  next
    case False
    then have "?slot = slot" using ok
      by (cases slot) (auto simp: slot_busy_def slot_ok_def new_slot_def le_Suc_eq split: if_splits)
    then show ?thesis by auto
  qed
  then obtain w1 where one: "(slot_step observers)\<^sup>*\<^sup>* (done1 @ slot # slots, w) (done1 @ ?slot # slots, w1)" by blast
  have "slot_ok new_slot" by (simp add: slot_ok_def new_slot_def)
  then have "list_all slot_ok ((done1 @ [?slot]) @ slots)" using Cons.prems by simp
  from Cons.IH [OF this, of w1] obtain w2 where "(slot_step observers)\<^sup>*\<^sup>* (done1 @ ?slot # slots, w1)
      (done1 @ ?slot # map (\<lambda>(slot, i). if i < length ended \<and> ended ! i then new_slot else slot)
        (zip slots [Suc ?i..<Suc (?i + length slots)]), w2)" by (auto simp del: upt_Suc)
  with one have "(slot_step observers)\<^sup>*\<^sup>* (done1 @ slot # slots, w)
      (done1 @ ?slot # map (\<lambda>(slot, i). if i < length ended \<and> ended ! i then new_slot else slot)
        (zip slots [Suc ?i..<Suc (?i + length slots)]), w2)" by (rule rtranclp_trans)
  then show ?case by (intro exI [of _ w2]) (simp add: upt_conv_Cons del: upt_Suc)
qed auto

lemma offer_steps: "(slot_step observers)\<^sup>*\<^sup>* (done1 @ slots, w) (done1 @ map (slot_offer event) slots, w)"
proof (induction slots arbitrary: done1)
  case (Cons slot slots)
  have "slot_step observers (done1 @ slot # slots, w) (done1 @ slot_offer event slot # slots, w)"
    using slot_step.offer [of "length done1" "done1 @ slot # slots" observers w event] by (simp add: update_first)
  moreover have "(slot_step observers)\<^sup>*\<^sup>* (done1 @ slot_offer event slot # slots, w) (done1 @ map (slot_offer event) (slot # slots), w)"
    using Cons.IH [of "done1 @ [slot_offer event slot]"] by simp
  ultimately show ?case by (rule converse_rtranclp_into_rtranclp)
qed simp

theorem emit_slots:
  assumes "list_all slot_ok slots" and "map slot_busy slots = ob_busy os"
  shows "\<exists>event slots1 w1. (slot_step observers)\<^sup>*\<^sup>* (slots, w) (slots1, w1) \<and>
    slots1 = map (slot_offer event) (free_slots (oe_ended e) slots) \<and>
    map slot_busy slots1 = ob_busy (emit operation key err e os) \<and>
    ob_started (emit operation key err e os) = ob_started os @
      map (\<lambda>j. (j, event)) (filter (\<lambda>j. sl_active (free_slots (oe_ended e) slots ! j) = 0) [0..<length slots])"
proof -
  let ?event = "\<lparr>ev_At = oe_now e, ev_Operation = operation, ev_Outcome = classifyOutcome err,
     ev_KeyHash = hex_EncodeToString (take 16 (sha256_Sum256 (key_String key)))\<rparr>"
  let ?free = "free_slots (oe_ended e) slots"
  have ok: "list_all slot_ok ?free" using assms(1) by (auto simp: free_slots_def list_all_length slot_ok_def new_slot_def)
  have len: "length (ob_busy os) = length slots" "length ?free = length slots"
    by (simp_all add: assms(2) [symmetric] free_slots_def)
  obtain w1 where "(slot_step observers)\<^sup>*\<^sup>* (slots, w) (?free, w1)"
    using free_slots_steps [of "[]" slots observers w "oe_ended e"] assms(1) by (auto simp: free_slots_def)
  then have steps: "(slot_step observers)\<^sup>*\<^sup>* (slots, w) (map (slot_offer ?event) ?free, w1)"
    using offer_steps [of observers "[]" ?free w1 ?event] by simp
  have busy: "slot_busy (slot_offer ?event slot)" if "slot_ok slot" for slot
    using that by (auto simp: slot_busy_def slot_offer_def slot_ok_def le_Suc_eq)
  have taken: "map slot_busy (map (slot_offer ?event) ?free) = replicate (length slots) True"
    using busy ok len by (intro nth_equalityI) (auto simp: list_all_length)
  have free: "filter (\<lambda>j. sl_active (?free ! j) = 0) [0..<length slots] =
    filter (\<lambda>j. \<not> end_callbacks (oe_ended e) (ob_busy os) ! j) [0..<length slots]"
  proof (rule filter_cong [OF refl])
    fix j assume j: "j \<in> set [0..<length slots]"
    then have "end_callbacks (oe_ended e) (ob_busy os) ! j = slot_busy (?free ! j)"
      using len by (simp add: assms(2) [symmetric] free_slots_busy [symmetric])
    moreover have "slot_ok (?free ! j)" using ok j len by (simp add: list_all_length)
    ultimately show "(sl_active (?free ! j) = 0) = (\<not> end_callbacks (oe_ended e) (ob_busy os) ! j)"
      by (auto simp: slot_busy_def slot_ok_def le_Suc_eq)
  qed
  obtain flags started where off: "offer_event 0 ?event (end_callbacks (oe_ended e) (ob_busy os)) = (flags, started)" by fastforce
  have "length (end_callbacks (oe_ended e) (ob_busy os)) = length slots" using len by (simp add: end_callbacks_def)
  with offer_event_spec [OF off] have "flags = replicate (length slots) True"
    "started = map (\<lambda>j. (j, ?event)) (filter (\<lambda>j. sl_active (?free ! j) = 0) [0..<length slots])" by (simp_all add: free)
  with steps taken off show ?thesis by (intro exI [of _ ?event]) (auto simp: emit_def)
qed

text \<open>A panicking observer: its slot is free again and takes the next event.\<close>

definition ex_event :: Event where
  "ex_event = \<lparr>ev_At = 10, ev_Operation = OperationAcquire, ev_Outcome = OutcomeSuccess, ev_KeyHash = ''00''\<rparr>"

definition ex_observer :: "nat Observer" where
  "ex_observer event calls = (Panicked, calls + 1)"

theorem observers_bounded_witness:
  "(slot_step [ex_observer])\<^sup>*\<^sup>* (replicate 1 new_slot, 0) ([slot_offer ex_event new_slot], 0) \<and>
   (\<exists>slots1 w1. (slot_step [ex_observer])\<^sup>*\<^sup>* ([slot_offer ex_event new_slot], 0) (slots1, w1) \<and>
      sl_goroutines (slot_offer ex_event (slots1 ! 0)) = [(ex_event, False)])"
proof -
  have "(slot_step [ex_observer])\<^sup>*\<^sup>* (replicate 1 new_slot, 0) ([slot_offer ex_event new_slot], 0)"
    using offer_steps [of "[ex_observer]" "[]" "[new_slot]" 0 ex_event] by simp
  with observers_bounded [OF this, of 0 ex_event] show ?thesis by simp
qed

end
