(* ===== verification/Lease_Conformance.thy ===== *)
theory Lease_Conformance
  imports Memory_Store Postgres_Safety Valkey_Safety
begin

text \<open>
  \<^verbatim>\<open>leasetest\<close>: the manual clock and the shared assertion suite for backends. The suite is a
  function of the backend, the environments of its calls in order (after the fourth call
  the fixture's expiry transition has happened), the name of the test, the order in which
  the two forged records are visited, and the backend's state; its result is the message of
  the first assertion that fails.
\<close>

section \<open>The manual clock\<close>

record Clock =
  clock_now :: instant

definition NewClock :: "instant \<Rightarrow> Clock" where "NewClock now = \<lparr>clock_now = now\<rparr>"
definition Clock_Now :: "Clock \<Rightarrow> instant" where "Clock_Now clock = clock_now clock"
definition Clock_Advance :: "duration \<Rightarrow> Clock \<Rightarrow> Clock" where
  "Clock_Advance d clock = clock\<lparr>clock_now := time_Add (clock_now clock) d\<rparr>"

section \<open>Assertions\<close>

definition expect_record :: "string \<Rightarrow> Record result \<times> 's \<Rightarrow> (Record \<Rightarrow> 's \<Rightarrow> string option) \<Rightarrow> string option" where
  "expect_record msg p k = (case p of (Inl err, s) \<Rightarrow> Some msg | (Inr r, s) \<Rightarrow> k r s)"

definition expect_error :: "string \<Rightarrow> sentinel \<Rightarrow> Record result \<times> 's \<Rightarrow> ('s \<Rightarrow> string option) \<Rightarrow> string option" where
  "expect_error msg x p k =
     (case p of (Inl err, s) \<Rightarrow> if errors_Is err (Sentinel x) then k s else Some msg | (Inr r, s) \<Rightarrow> Some msg)"

definition expect_done :: "string \<Rightarrow> gerror option \<times> 's \<Rightarrow> ('s \<Rightarrow> string option) \<Rightarrow> string option" where
  "expect_done msg p k = (case p of (Some err, s) \<Rightarrow> Some msg | (None, s) \<Rightarrow> k s)"

definition expect_refused :: "string \<Rightarrow> sentinel \<Rightarrow> gerror option \<times> 's \<Rightarrow> ('s \<Rightarrow> string option) \<Rightarrow> string option" where
  "expect_refused msg x p k = (case p of (err, s) \<Rightarrow> if err_is err (Sentinel x) then k s else Some msg)"

lemmas expect_defs = expect_record_def expect_error_def expect_done_def expect_refused_def

section \<open>The suite\<close>

definition conformance_key :: "string \<Rightarrow> Key result" where
  "conformance_key name = NewKey ''conformance'' name"

text \<open>A forged record is refused by every operation, and the successor stays valid.\<close>

definition check_forged ::
  "('e, 's) Backend \<Rightarrow> (nat \<Rightarrow> 'e) \<Rightarrow> nat \<Rightarrow> Record \<Rightarrow> string \<times> Record \<Rightarrow> 's \<Rightarrow> ('s \<Rightarrow> string option) \<Rightarrow> string option" where
  "check_forged B e i second nf s k =
     (case nf of (name, forged) \<Rightarrow>
        expect_error (''Renew('' @ name @ '' mismatch)'') ErrStaleOwner (be_Renew B (e i) forged Second s) (\<lambda>s.
        expect_error (''Validate('' @ name @ '' mismatch)'') ErrStaleOwner (be_Validate B (e (i + 1)) forged s) (\<lambda>s.
        expect_refused (''Release('' @ name @ '' mismatch)'') ErrStaleOwner (be_Release B (e (i + 2)) forged s) (\<lambda>s.
        expect_record (''Validate(successor after '' @ name @ '' mismatch)'') (be_Validate B (e (i + 3)) second s) (\<lambda>_ s.
        k s)))))"

definition RunBackendConformance ::
  "('e, 's) Backend \<Rightarrow> (nat \<Rightarrow> 'e) \<Rightarrow> string \<Rightarrow> bool \<Rightarrow> 's \<Rightarrow> string option" where
  "RunBackendConformance B e name owner_first s =
     (case conformance_key name of
        Inl err \<Rightarrow> Some ''NewKey()''
      | Inr key \<Rightarrow>
          expect_record ''TryAcquire(first)'' (be_TryAcquire B (e 0) key ''owner-a'' Minute s) (\<lambda>first s.
          expect_error ''TryAcquire(contended)'' ErrContended (be_TryAcquire B (e 1) key ''owner-b'' Second s) (\<lambda>s.
          expect_record ''Renew()'' (be_Renew B (e 2) first (100 * Millisecond) s) (\<lambda>renewed s.
          expect_record ''Validate()'' (be_Validate B (e 3) renewed s) (\<lambda>_ s.
          expect_record ''TryAcquire(successor)'' (be_TryAcquire B (e 4) key ''owner-b'' Second s) (\<lambda>second s.
          if rec_Token second \<le> rec_Token first then Some ''successor token''
          else
            let wrongOwner = (''owner only'', second\<lparr>rec_Owner := ''owner-forged''\<rparr>);
                wrongToken = (''token only'', second\<lparr>rec_Token := rec_Token first\<rparr>)
            in check_forged B e 5 second (if owner_first then wrongOwner else wrongToken) s (\<lambda>s.
               check_forged B e 9 second (if owner_first then wrongToken else wrongOwner) s (\<lambda>s.
               expect_error ''Renew(stale)'' ErrStaleOwner (be_Renew B (e 13) first Second s) (\<lambda>s.
               expect_refused ''Release(stale)'' ErrStaleOwner (be_Release B (e 14) first s) (\<lambda>s.
               expect_record ''Validate(successor)'' (be_Validate B (e 15) second s) (\<lambda>_ s.
               expect_done ''Release(successor)'' (be_Release B (e 16) second s) (\<lambda>s.
               expect_done ''Release(idempotent)'' (be_Release B (e 17) second s) (\<lambda>s. None)))))))))))))"

section \<open>Every backend with progress passes\<close>

text \<open>
  When the suite's calls happen: in order, the renewed lease of 100 milliseconds is
  validated before it ends and is over when the successor acquires, and the calls on the
  successor's lease of one second finish within it.
\<close>

definition suite_schedule ::
  "('e \<Rightarrow> instant) \<Rightarrow> ('e \<Rightarrow> instant) \<Rightarrow> ('e \<Rightarrow> duration \<Rightarrow> instant) \<Rightarrow> ('e \<Rightarrow> duration \<Rightarrow> instant) \<Rightarrow>
   (nat \<Rightarrow> 'e) \<Rightarrow> bool" where
  "suite_schedule begins ends lasts gone e \<longleftrightarrow>
     (\<forall>i < 17. ends (e i) \<le> begins (e (Suc i))) \<and>
     ends (e 2) < lasts (e 0) Minute \<and> ends (e 3) < lasts (e 2) (100 * Millisecond) \<and>
     gone (e 2) (100 * Millisecond) \<le> begins (e 4) \<and> ends (e 16) < lasts (e 4) Second"

definition suite_inputs :: "(string \<Rightarrow> duration \<Rightarrow> bool) \<Rightarrow> bool" where
  "suite_inputs ok \<longleftrightarrow> list_all (\<lambda>ow. list_all (ok ow) [Minute, Second, 100 * Millisecond, Millisecond])
     [''owner-a'', ''owner-b'', ''owner-forged'']"

context lease_progress
begin

lemma acquired:
  assumes "calm e" "invar s" "be_TryAcquire B e k ow ttl s = (Inr r, s')"
  shows "invar s'" "rec_Key r = k" "rec_Owner r = ow" "fence s (ident k) < unat (rec_Token r)"
    "fence s' (ident k) = unat (rec_Token r)"
  using acquire_got [OF calm_ok [OF assms(1)] assms(2), of k ow ttl r s']
    invar_call [OF calm_ok [OF assms(1)] assms(2), of "CallAcquire k ow ttl" "Got r" s'] assms(3) by auto

lemma forged_refused:
  assumes "\<And>i. calm (e i)" "invar s" and held: "live s (ends (e (i + 3))) (ident (rec_Key second)) = Some (rec_Owner second, rec_Token second)"
    and sett: "settled s (begins (e (i + 3))) (ident (rec_Key second))"
    and order: "\<forall>j < 3. ends (e (i + j)) \<le> begins (e (Suc (i + j)))"
    and forged: "rec_Key forged = rec_Key second" "(rec_Owner forged, rec_Token forged) \<noteq> (rec_Owner second, rec_Token second)"
    and inputs: "input_ok (rec_Key second) (rec_Owner forged) (rec_Token forged) Second"
      "input_ok (rec_Key second) (rec_Owner forged) (rec_Token forged) Millisecond"
      "input_ok (rec_Key second) (rec_Owner second) (rec_Token second) Millisecond"
  shows "check_forged B e i second (name, forged) s k = k s"
proof -
  have be: "begins (e j) \<le> ends (e j)" for j using begins_ends calm_ok assms(1) by blast
  have "ends (e i) \<le> begins (e (i + 1))" "ends (e (i + 1)) \<le> begins (e (i + 2))" "ends (e (i + 2)) \<le> begins (e (i + 3))"
    using order [rule_format, of 0] order [rule_format, of 1] order [rule_format, of 2] by (simp_all add: eval_nat_numeral)
  with be [of i] be [of "i + 1"] be [of "i + 2"] be [of "i + 3"]
  have le: "begins (e i) \<le> ends (e (i + 3))" "begins (e (i + 1)) \<le> ends (e (i + 3))" "ends (e (i + 2)) \<le> ends (e (i + 3))"
    by linarith+
  note at = live_expires [OF assms(2) held]
  have lost: "live s (begins (e j)) (ident (rec_Key forged)) \<noteq> Some (rec_Owner forged, rec_Token forged)"
    if "begins (e j) \<le> ends (e (i + 3))" for j using at [OF that] forged by auto
  obtain err1 where "be_Renew B (e i) forged Second s = (Inl err1, s)" "errors_Is err1 (Sentinel ErrStaleOwner)"
    using renew_lost [of "e i" s forged Second] assms(1,2) inputs lost [OF le(1)] forged(1) by auto
  moreover obtain err2 where "be_Validate B (e (i + 1)) forged s = (Inl err2, s)" "errors_Is err2 (Sentinel ErrStaleOwner)"
    using validate_lost [of "e (i + 1)" s forged] assms(1,2) inputs lost [OF le(2)] forged(1) by auto
  moreover obtain err3 where "be_Release B (e (i + 2)) forged s = (Some err3, s)" "errors_Is err3 (Sentinel ErrStaleOwner)"
    using release_lost [of "e (i + 2)" s forged "(rec_Owner second, rec_Token second)"] assms(1,2) inputs at [OF le(3)] forged by auto
  moreover obtain r where "be_Validate B (e (i + 3)) second s = (Inr r, s)"
    using validate_live [of "e (i + 3)" s second] assms(1,2) inputs held sett by auto
  ultimately show ?thesis by (simp add: check_forged_def expect_defs)
qed

lemma suite_input:
  assumes "suite_inputs (\<lambda>ow ttl. input_ok key ow 1 ttl)"
    and "ow \<in> {''owner-a'', ''owner-b'', ''owner-forged''}" and "ttl \<in> {Minute, Second, 100 * Millisecond, Millisecond}"
  shows "input_ok key ow 1 ttl"
    and "invar s \<Longrightarrow> 0 < unat tok \<Longrightarrow> unat tok \<le> fence s (ident key) \<Longrightarrow> input_ok key ow tok ttl"
  using assms input_token [of s key ow ttl tok] by (auto simp: suite_inputs_def)

lemma suite_order:
  assumes calm: "\<And>i. calm (e i)" and sched: "suite_schedule begins ends lasts gone e"
  shows "i < j \<Longrightarrow> j \<le> 17 \<Longrightarrow> ends (e i) \<le> begins (e j)"
    and "i \<le> j \<Longrightarrow> j \<le> 17 \<Longrightarrow> ends (e i) \<le> ends (e j)"
    and "i \<le> j \<Longrightarrow> j \<le> 17 \<Longrightarrow> begins (e i) \<le> ends (e j)"
proof -
  have be: "begins (e j) \<le> ends (e j)" for j using begins_ends calm_ok calm by blast
  show less: "ends (e i) \<le> begins (e j)" if "i < j" "j \<le> 17" for i j
    using that
  proof (induction j)
    case (Suc j)
    have "ends (e j) \<le> begins (e (Suc j))" using sched Suc.prems by (simp add: suite_schedule_def)
    with Suc be [of j] show ?case by (cases "i = j") auto
  qed simp
  show "ends (e i) \<le> ends (e j)" if "i \<le> j" "j \<le> 17"
    using less [of i j] be [of j] that by (cases "i = j") auto
  then show "begins (e i) \<le> ends (e j)" if "i \<le> j" "j \<le> 17"
    using be [of i] that by fastforce
qed

text \<open>The first owner: acquired, contended, renewed and validated.\<close>

lemma suite_first:
  assumes calm: "\<And>i. calm (e i)" and sched: "suite_schedule begins ends lasts gone e" and inv: "invar s"
    and inputs: "suite_inputs (\<lambda>ow ttl. input_ok key ow 1 ttl)"
    and room: "room 3 s key" and vacant: "live s (begins (e 0)) (ident key) = None"
  obtains r1 s1 err s2 r2 s3 r3 where
    "be_TryAcquire B (e 0) key ''owner-a'' Minute s = (Inr r1, s1)"
    "be_TryAcquire B (e 1) key ''owner-b'' Second s1 = (Inl err, s2)" "errors_Is err (Sentinel ErrContended)"
    "be_Renew B (e 2) r1 (100 * Millisecond) s2 = (Inr r2, s3)" "be_Validate B (e 3) r2 s3 = (Inr r3, s3)"
    "invar s3" "room 1 s3 key" "live s3 (begins (e 4)) (ident key) = None"
    "rec_Key r1 = key" "rec_Owner r1 = ''owner-a''" "0 < unat (rec_Token r1)" "unat (rec_Token r1) \<le> fence s3 (ident key)"
proof -
  let ?i = "ident key"
  note order = suite_order [OF calm sched] and input = suite_input [OF inputs]
  obtain r1 s1 where acq1: "be_TryAcquire B (e 0) key ''owner-a'' Minute s = (Inr r1, s1)" and st1: "room 2 s1 key"
    "settled s1 (ends (e 0)) ?i" "\<And>t. t < lasts (e 0) Minute \<Longrightarrow> live s1 t ?i = Some (''owner-a'', rec_Token r1)"
    using acquire_vacant [OF calm inv input(1), of "''owner-a''" Minute 2 0] room vacant by (auto simp: eval_nat_numeral)
  note r1 = acquired [OF calm inv acq1]
  have t2: "ends (e 2) < lasts (e 0) Minute" "ends (e 1) < lasts (e 0) Minute"
    using sched order(2) [of 1 2] by (simp_all add: suite_schedule_def)
  obtain err s2 where acq2: "be_TryAcquire B (e 1) key ''owner-b'' Second s1 = (Inl err, s2)" "errors_Is err (Sentinel ErrContended)"
    and st2: "room 1 s2 key" "\<And>t i. live s2 t i = live s1 t i" "\<And>t i. settled s2 t i = settled s1 t i"
    using acquire_held [OF calm r1(1) input(1), of "''owner-b''" Second 1 1] st1(1,3) t2 by (auto simp: eval_nat_numeral)
  have call2: "backend_call B (e 1) (CallAcquire key ''owner-b'' Second) s1 = (Failed err, s2)" using acq2 by simp
  note s2 = invar_call [OF calm_ok [OF calm] r1(1) call2] fence_mono [OF calm_ok [OF calm] r1(1) call2, of ?i]
  have tok1: "0 < unat (rec_Token r1)" "unat (rec_Token r1) \<le> fence s2 ?i" using r1(4,5) s2(2) by simp_all
  obtain r2 s3 where ren: "be_Renew B (e 2) r1 (100 * Millisecond) s2 = (Inr r2, s3)" and st3: "settled s3 (ends (e 2)) ?i" "room 1 s3 key"
    "\<And>t. t < lasts (e 2) (100 * Millisecond) \<Longrightarrow> live s3 t ?i = Some (''owner-a'', rec_Token r1)"
    "\<And>t. gone (e 2) (100 * Millisecond) \<le> t \<Longrightarrow> live s3 t ?i = None"
    using renew_live [OF calm s2(1), of r1 "100 * Millisecond" 2] input(2) [OF _ _ s2(1) tok1] r1(2,3) t2 st2 st1(3)
      settled_mono [OF st1(2) order(1) [of 0 2]] by auto
  have call3: "backend_call B (e 2) (CallRenew r1 (100 * Millisecond)) s2 = (Got r2, s3)" using ren by simp
  note s3 = invar_call [OF calm_ok [OF calm] s2(1) call3] fence_mono [OF calm_ok [OF calm] s2(1) call3, of ?i]
    renew_got [OF calm_ok [OF calm] s2(1) call3]
  have t3: "ends (e 3) < lasts (e 2) (100 * Millisecond)" "gone (e 2) (100 * Millisecond) \<le> begins (e 4)"
    using sched by (simp_all add: suite_schedule_def)
  obtain r3 where val: "be_Validate B (e 3) r2 s3 = (Inr r3, s3)"
    using validate_live [OF calm s3(1), of r2 3] input(2) [OF _ _ s2(1) tok1] s3(3) r1(2,3) st3(3) t3(1)
      settled_mono [OF st3(1) order(1) [of 2 3]] by auto
  show thesis using that [OF acq1 acq2 ren val s3(1) st3(2) st3(4) [OF t3(2)] r1(2,3) tok1(1)] tok1(2) s3(2) by simp
qed

text \<open>The successor, protected from forged and from stale records.\<close>

lemma suite_successor:
  assumes calm: "\<And>i. calm (e i)" and sched: "suite_schedule begins ends lasts gone e" and inv: "invar s"
    and inputs: "suite_inputs (\<lambda>ow ttl. input_ok key ow 1 ttl)"
    and room: "room 1 s key" and vacant: "live s (begins (e 4)) (ident key) = None"
    and first: "rec_Key r1 = key" "rec_Owner r1 = ''owner-a''" "0 < unat (rec_Token r1)" "unat (rec_Token r1) \<le> fence s (ident key)"
  obtains r4 s4 where "be_TryAcquire B (e 4) key ''owner-b'' Second s = (Inr r4, s4)" "invar s4" "rec_Key r4 = key"
    "rec_Owner r4 = ''owner-b''" "unat (rec_Token r1) < unat (rec_Token r4)"
    "\<And>ow ttl. ow \<in> {''owner-a'', ''owner-b'', ''owner-forged''} \<Longrightarrow> ttl \<in> {Minute, Second, 100 * Millisecond, Millisecond} \<Longrightarrow>
       input_ok key ow (rec_Token r4) ttl \<and> input_ok key ow (rec_Token r1) ttl"
    "\<And>t. t \<le> ends (e 16) \<Longrightarrow> live s4 t (ident key) = Some (''owner-b'', rec_Token r4)"
    "\<And>j. 4 < j \<Longrightarrow> j \<le> 17 \<Longrightarrow> settled s4 (begins (e j)) (ident key)"
proof -
  let ?i = "ident key"
  note order = suite_order [OF calm sched] and input = suite_input [OF inputs]
  obtain r4 s4 where acq4: "be_TryAcquire B (e 4) key ''owner-b'' Second s = (Inr r4, s4)"
    and st4: "settled s4 (ends (e 4)) ?i" "\<And>t. t < lasts (e 4) Second \<Longrightarrow> live s4 t ?i = Some (''owner-b'', rec_Token r4)"
    using acquire_vacant [OF calm inv input(1), of "''owner-b''" Second 0 4] room vacant by auto
  note r4 = acquired [OF calm inv acq4]
  have newer: "unat (rec_Token r1) < unat (rec_Token r4)" using r4(4) first(4) by simp
  have last: "ends (e 16) < lasts (e 4) Second" using sched by (simp add: suite_schedule_def)
  show thesis
  proof (rule that [OF acq4 r4(1,2,3) newer], goal_cases)
    case (1 ow ttl)
    then show ?case using input(2) [OF 1 r4(1)] newer first(3) r4(5) by simp
  next
    case (2 t)
    then show ?case using st4(2) [of t] last by simp
  next
    case (3 j)
    then show ?case using settled_mono [OF st4(1) order(1)] by simp
  qed
qed

lemma passes:
  assumes calm: "\<And>i. calm (e i)" and sched: "suite_schedule begins ends lasts gone e" and inv: "invar s"
    and key: "conformance_key name = Inr key" and inputs: "suite_inputs (\<lambda>ow ttl. input_ok key ow 1 ttl)"
    and room: "room 3 s key" and vacant: "live s (begins (e 0)) (ident key) = None"
  shows "RunBackendConformance B e name owner_first s = None"
proof (rule suite_first [OF calm sched inv inputs room vacant])
  fix r1 s1 err s2 r2 s3 r3
  assume f: "be_TryAcquire B (e 0) key ''owner-a'' Minute s = (Inr r1, s1)"
    "be_TryAcquire B (e 1) key ''owner-b'' Second s1 = (Inl err, s2)" "errors_Is err (Sentinel ErrContended)"
    "be_Renew B (e 2) r1 (100 * Millisecond) s2 = (Inr r2, s3)" "be_Validate B (e 3) r2 s3 = (Inr r3, s3)"
    "invar s3" "room 1 s3 key" "live s3 (begins (e 4)) (ident key) = None"
    and r1: "rec_Key r1 = key" "rec_Owner r1 = ''owner-a''" "0 < unat (rec_Token r1)" "unat (rec_Token r1) \<le> fence s3 (ident key)"
  note order = suite_order [OF calm sched]
  obtain r4 s4 where acq4: "be_TryAcquire B (e 4) key ''owner-b'' Second s3 = (Inr r4, s4)" and inv4: "invar s4"
    and r4: "rec_Key r4 = key" "rec_Owner r4 = ''owner-b''" and newer: "unat (rec_Token r1) < unat (rec_Token r4)"
    and ok: "\<And>ow ttl. ow \<in> {''owner-a'', ''owner-b'', ''owner-forged''} \<Longrightarrow> ttl \<in> {Minute, Second, 100 * Millisecond, Millisecond} \<Longrightarrow>
       input_ok key ow (rec_Token r4) ttl \<and> input_ok key ow (rec_Token r1) ttl"
    and held: "\<And>t. t \<le> ends (e 16) \<Longrightarrow> live s4 t (ident key) = Some (''owner-b'', rec_Token r4)"
    and sett: "\<And>j. 4 < j \<Longrightarrow> j \<le> 17 \<Longrightarrow> settled s4 (begins (e j)) (ident key)"
    by (rule suite_successor [OF calm sched f(6) inputs f(7,8) r1]) blast
  have token: "\<not> rec_Token r4 \<le> rec_Token r1" using newer by (simp add: word_le_nat_alt)
  have forged: "check_forged B e i r4 (m, g) s4 k = k s4"
    if "i = 5 \<or> i = 9" "g = r4\<lparr>rec_Owner := ''owner-forged''\<rparr> \<or> g = r4\<lparr>rec_Token := rec_Token r1\<rparr>" for i m g k
    by (rule forged_refused [OF calm inv4])
      (use that r4 newer ok held sett order(1,2) in \<open>auto simp: less_Suc_eq eval_nat_numeral\<close>)
  obtain err5 where "be_Renew B (e 13) r1 Second s4 = (Inl err5, s4)" "errors_Is err5 (Sentinel ErrStaleOwner)"
    using renew_lost [OF calm inv4, of r1 Second 13] ok r1(1,2) held [of "begins (e 13)"] order(3) [of 13 16] by auto
  moreover obtain err6 where "be_Release B (e 14) r1 s4 = (Some err6, s4)" "errors_Is err6 (Sentinel ErrStaleOwner)"
    using release_lost [OF calm inv4, of r1 14] ok r1(1,2) held [of "ends (e 14)"] order(2) [of 14 16] by auto
  moreover obtain r7 where "be_Validate B (e 15) r4 s4 = (Inr r7, s4)"
    using validate_live [OF calm inv4, of r4 15] ok r4 held [of "ends (e 15)"] order(2) [of 15 16] sett [of 15] by auto
  moreover obtain s5 where rel: "be_Release B (e 16) r4 s4 = (None, s5)"
    using release_live [OF calm inv4, of r4 16] ok r4 held [of "ends (e 16)"] by auto
  moreover have "be_Release B (e 17) r4 s5 = (None, s5)"
    using release_again [OF calm calm _ inv4 rel] order(1) [of 16 17] by simp
  ultimately show ?thesis
    using key f(1-5) acq4 token forged by (simp add: RunBackendConformance_def expect_defs Let_def)
qed

end

section \<open>The memory store passes\<close>

text \<open>The fixture of the memory tests: a manual clock that the expiry transition advances.\<close>

definition memory_fixture :: "Clock \<Rightarrow> nat \<Rightarrow> mem_env" where
  "memory_fixture clock i =
     \<lparr>mem_now = Clock_Now (if i < 4 then clock else Clock_Advance (110 * Millisecond) clock), mem_ctx = None\<rparr>"

text \<open>
  The memory store passes the conformance suite, from any start of the clock, with any
  capacity, under any name of the test that gives a valid key, and in both orders of the
  forged records.
\<close>

theorem memory_conformance:
  assumes "memory_New c maxKeys = Inr s" and "conformance_key name = Inr key"
  shows "RunBackendConformance memory_backend (memory_fixture (NewClock now)) name owner_first s = None"
proof -
  have key: "key_String key \<noteq> ''''" using assms(2) by (auto simp: conformance_key_def NewKey_def Let_def split: if_splits)
  have s: "s = \<lparr>mem_maxKeys = maxKeys, mem_entries = Mapping.empty\<rparr>" "maxKeys \<noteq> 0"
    using assms(1) by (auto simp: memory_New_def split: if_splits)
  have fence: "\<not> (2 :: Token) \<le> 1" by (simp add: word_le_nat_alt)
  show ?thesis
    unfolding RunBackendConformance_def assms(2) sum.case check_forged_def Let_def
    by (simp add: expect_defs s key fence memory_ops memory_validate_def memory_validateIdentity_def Let_def sameOwner_def
        memory_fixture_def NewClock_def Clock_Now_def Clock_Advance_def time_Add_def zero_entry_def zero_Record_def word_sle_eq)
qed

theorem memory_conformance_witness:
  "RunBackendConformance memory_backend (memory_fixture (NewClock 1000)) ''suite'' True ex_store = None"
proof -
  have "conformance_key ''suite'' = Inr \<lparr>key_value = ''conformance/suite''\<rparr>" by code_simp
  from memory_conformance [OF ex_store_New this] show ?thesis .
qed

section \<open>The remote stores pass\<close>

lemma conformance_key_nonempty: "conformance_key name = Inr key \<Longrightarrow> key_String key \<noteq> ''''"
  by (auto simp: conformance_key_def NewKey_def Let_def split: if_splits)

lemma suite_inputs_pg: "key_String key \<noteq> '''' \<Longrightarrow> suite_inputs (\<lambda>ow ttl. pg_input key ow 1 ttl)"
proof -
  have "pg_text ''owner-a'' \<and> pg_text ''owner-b'' \<and> pg_text ''owner-forged''" by code_simp
  then show "key_String key \<noteq> '''' \<Longrightarrow> ?thesis"
    by (simp add: suite_inputs_def pg_input_def pg_validate_def word_sless_alt word_less_nat_alt)
qed

text \<open>
  The PostgreSQL store passes the conformance suite, from any well-formed tables in which
  the test's key is vacant and its fence is not exhausted, for every latency of the
  statements that meets the suite's schedule: the renewed lease of 100 milliseconds is
  validated before it ends, and the last sixteen calls finish within the successor's second.
\<close>

theorem pg_conformance:
  assumes "pg_invar db" and "\<forall>i. pg_calm (e i)"
    and "suite_schedule (\<lambda>e. pg_instant (pg_begin e)) (\<lambda>e. pg_instant (pg_end e)) pg_lasts pg_gone e"
    and "conformance_key name = Inr key" and "pg_fence db (pg_digest key) + 3 < 2 ^ 63"
    and "pg_live db (pg_instant (pg_begin (e 0))) (pg_digest key) = None"
  shows "RunBackendConformance pg_backend e name owner_first db = None"
proof (rule pgp.passes [OF _ assms(3,1,4) suite_inputs_pg [OF conformance_key_nonempty [OF assms(4)]] _ assms(6)])
  show "pg_calm (e i)" for i using assms(2) by simp
  show "pg_room 3 db key" using assms(5) by (simp add: pg_room_def)
qed

definition ex_pg_calls :: "nat \<Rightarrow> pg_env" where
  "ex_pg_calls i = ex_penv (if i < 4 then int i * 1000 else 200000 + int i * 1000) None"

theorem pg_conformance_witness:
  "RunBackendConformance pg_backend ex_pg_calls ''suite'' False \<lparr>lease_fences = Map.empty, lease_records = Map.empty\<rparr> = None"
proof -
  have key: "conformance_key ''suite'' = Inr \<lparr>key_value = ''conformance/suite''\<rparr>" by code_simp
  show ?thesis
  proof (rule pg_conformance [OF _ _ _ key])
    show "\<forall>i. pg_calm (ex_pg_calls i)" by (simp add: ex_pg_calls_def pg_calm_def)
    show "suite_schedule (\<lambda>e. pg_instant (pg_begin e)) (\<lambda>e. pg_instant (pg_end e)) pg_lasts pg_gone ex_pg_calls"
      by (simp add: suite_schedule_def ex_pg_calls_def pg_instant_def pg_lasts_def pg_gone_def interval_ms_def duration_Milliseconds_def)
  qed (simp_all add: pg_invar_def pg_fence_def pg_live_def)
qed

text \<open>
  C36: The Valkey store passes the conformance suite on every server with the documented
  behaviour, from any well-formed state in which the test's key is vacant and its counter is
  not exhausted, for all server times that meet the suite's schedule.
\<close>

theorem valkey_conformance:
  assumes "valkey_server S hash_at count_at" and "valkey_invar hash_at count_at prefix v" and "\<forall>i. valkey_calm (e i)"
    and "suite_schedule (\<lambda>e. valkey_instant (vk_now e)) (\<lambda>e. valkey_instant (vk_now e)) valkey_lasts valkey_gone e"
    and "conformance_key name = Inr key" and "valkey_fence count_at prefix v (key_digest key) + 3 < 2 ^ 63"
    and "valkey_live hash_at prefix v (valkey_instant (vk_now (e 0))) (key_digest key) = None"
  shows "RunBackendConformance (valkey_backend S prefix) e name owner_first v = None"
proof (rule lease_progress.passes [OF valkey_lease.progress_contract [OF valkey_lease.intro [OF assms(1)]] _ assms(4,2,5) _ _ assms(7)])
  show "valkey_calm (e i)" for i using assms(3) by simp
  show "suite_inputs (\<lambda>ow ttl. valkey_input key ow 1 ttl)"
    using conformance_key_nonempty [OF assms(5)]
    by (simp add: suite_inputs_def valkey_input_def valkey_validate_def word_sless_alt)
  show "valkey_room count_at prefix 3 v key" using assms(6) by (simp add: valkey_room_def)
qed

definition ex_vk_calls :: "nat \<Rightarrow> vk_env" where
  "ex_vk_calls i = ex_exchange (if i < 4 then i else 200 + min i 20)"

theorem valkey_conformance_witness:
  "RunBackendConformance (valkey_backend ref_valkey ''app'') ex_vk_calls ''suite'' True ex_space = None"
proof -
  have key: "conformance_key ''suite'' = Inr \<lparr>key_value = ''conformance/suite''\<rparr>" by code_simp
  show ?thesis
  proof (rule valkey_conformance [OF refvk.valkey_server_axioms ex_space_invar _ _ key])
    show "\<forall>i. valkey_calm (ex_vk_calls i)" by (simp add: ex_vk_calls_def valkey_calm_def ex_exchange_def valkey_env_ok_def min_def)
  qed (simp_all add: suite_schedule_def ex_vk_calls_def ex_exchange_def valkey_instant_def valkey_lasts_def valkey_gone_def
      time_UnixMilli_def ex_space_def valkey_fence_def valkey_live_def live_hash_def)
qed

end
