(* ===== verification/Protected_Write.thy ===== *)
theory Protected_Write
  imports Postgres_Safety Valkey_Safety Memory_Store
begin

text \<open>
  \<^verbatim>\<open>examples/protectedwrite\<close>: a resource that stores the highest fence it has seen together
  with its value, and what it gives in combination with the fences of a backend.
\<close>

section \<open>The resource\<close>

record resource =
  res_fence :: Token
  res_value :: string

definition resource_write :: "Token \<Rightarrow> string \<Rightarrow> resource \<Rightarrow> gerror option \<times> resource" where
  "resource_write fence value0 r =
     (if fence \<le> res_fence r then (Some (Sentinel ErrStaleOwner), r)
      else (None, r\<lparr>res_fence := fence, res_value := value0\<rparr>))"

text \<open>Writes in the order the resource serves them.\<close>

fun resource_run :: "(Token \<times> string) list \<Rightarrow> resource \<Rightarrow> (gerror option \<times> Token \<times> string) list \<times> resource" where
  "resource_run [] r = ([], r)"
| "resource_run ((fence, value0) # ws) r =
     (case resource_write fence value0 r of
        (err, r1) \<Rightarrow> (case resource_run ws r1 of (tr, r2) \<Rightarrow> ((err, fence, value0) # tr, r2)))"

text \<open>The example program: a successor writes, then a predecessor tries to.\<close>

definition protectedwrite_main :: "string option" where
  "protectedwrite_main =
     (case resource_write 2 ''successor'' \<lparr>res_fence = 0, res_value = ''''\<rparr> of
        (Some err, r) \<Rightarrow> None
      | (None, r) \<Rightarrow>
          (case resource_write 1 ''stale predecessor'' r of
             (err, r1) \<Rightarrow> if err_is err (Sentinel ErrStaleOwner) then Some (res_value r1) else None))"

lemma protectedwrite_prints: "protectedwrite_main = Some ''successor''"
  by (simp add: protectedwrite_main_def resource_write_def)

section \<open>Fenced writes\<close>

lemma resource_write_fence: "resource_write fence value0 r = (err, r1) \<Longrightarrow> res_fence r \<le> res_fence r1 \<and> fence \<le> res_fence r1"
  by (auto simp: resource_write_def split: if_splits)

lemma resource_run_append:
  "resource_run (ws @ ws') r = (fst (resource_run ws r) @ fst (resource_run ws' (snd (resource_run ws r))),
     snd (resource_run ws' (snd (resource_run ws r))))"
  by (induction ws r rule: resource_run.induct) (auto split: prod.splits)

lemma resource_run_fence: "res_fence r \<le> res_fence (snd (resource_run ws r))"
proof (induction ws r rule: resource_run.induct)
  case (2 fence value0 ws r)
  obtain err r1 where w: "resource_write fence value0 r = (err, r1)" by fastforce
  then show ?case using 2 [OF w [symmetric]] resource_write_fence [OF w]
    by (cases "resource_run ws r1") (auto simp: w)
qed simp

text \<open>Once a fence has been tried, every smaller one is refused for ever.\<close>

lemma older_write_refused:
  assumes "old < new"
  shows "resource_write old value0 (snd (resource_run (ws @ (new, value1) # ws') r)) =
    (Some (Sentinel ErrStaleOwner), snd (resource_run (ws @ (new, value1) # ws') r))"
proof -
  let ?r1 = "snd (resource_run ws r)"
  obtain err r2 where w: "resource_write new value1 ?r1 = (err, r2)" by fastforce
  have "new \<le> res_fence r2" using resource_write_fence [OF w] by simp
  also have "res_fence r2 \<le> res_fence (snd (resource_run (ws @ (new, value1) # ws') r))"
    using resource_run_fence [of r2 ws'] w by (simp add: resource_run_append prod.case_eq_if)
  finally show ?thesis using assms by (simp add: resource_write_def)
qed

lemma acquired_tokens_word: "x \<in> set (acquired_tokens P tr) \<Longrightarrow> unat (of_nat x :: Token) = x"
proof (induction P tr rule: acquired_tokens.induct)
  case (2 P e k ow ttl r tr)
  then show ?case by (auto split: if_splits)
qed auto

lemma acquired_tokens_order:
  assumes "sorted_wrt (<) (f # acquired_tokens P tr)" "i < j" "j < length (acquired_tokens P tr)"
  shows "(of_nat (acquired_tokens P tr ! i) :: Token) < of_nat (acquired_tokens P tr ! j)"
proof -
  have "acquired_tokens P tr ! i < acquired_tokens P tr ! j"
    using assms by (simp add: sorted_wrt_nth_less)
  then show ?thesis
    using acquired_tokens_word [of "acquired_tokens P tr ! i" P tr] acquired_tokens_word [of "acquired_tokens P tr ! j" P tr] assms(2,3)
    by (simp add: word_less_nat_alt)
qed

text \<open>
  C4: Fenced writes over PostgreSQL. In any run of the store, with any interleaving of
  clients, snapshots and lost replies, take two acquisitions of one digest, the second
  after the first. In any sequence of writes to the protected resource, once the successor
  has written with its fence, the predecessor's writes are refused and change nothing, even
  when the predecessor does not know that it lost the lease.
\<close>

theorem pg_fenced_writes:
  assumes "pg_invar db" and "backend_run pg_backend cs db = (tr, db')" and "list_all (\<lambda>(e, c). pg_env_ok e) cs"
    and "i < j" and "j < length (acquired_tokens (\<lambda>k. pg_digest k = d) tr)"
  shows "resource_write (of_nat (acquired_tokens (\<lambda>k. pg_digest k = d) tr ! i)) stale
      (snd (resource_run (ws @ (of_nat (acquired_tokens (\<lambda>k. pg_digest k = d) tr ! j), value0) # ws') r)) =
    (Some (Sentinel ErrStaleOwner),
     snd (resource_run (ws @ (of_nat (acquired_tokens (\<lambda>k. pg_digest k = d) tr ! j), value0) # ws') r))"
proof (rule older_write_refused, rule acquired_tokens_order [OF _ assms(4,5)])
  show "sorted_wrt (<) (pg_fence db d # acquired_tokens (\<lambda>k. pg_digest k = d) tr)"
    using pgs.run_tokens_increase [OF assms(2,1), of d] assms(3) by (simp add: list_all_iff)
qed

section \<open>Witness\<close>

definition ex_tables3 :: pg_tables where
  "ex_tables3 = \<lparr>lease_fences = [pg_digest ex_pkey \<mapsto> 3], lease_records = [pg_digest ex_pkey \<mapsto>
     \<lparr>row_owner = ''y'', row_token = 3, row_acquired_at = 6000000, row_expires_at = 11000000, row_active = True,
       row_updated_at = 6000000\<rparr>]\<rparr>"

lemma ex_acquired_again:
  "pg_TryAcquire (ex_penv 6000000 None) ex_pkey ''y'' (5 * Second) ex_tables1 = (Inr (ex_precord ''y'' 3 6000000 11000000), ex_tables3)"
  using ex_valid(1) ex_text
  by (simp add: pg_TryAcquire_def query_row_def acquireSQL_def next_fence_def max_bigint_def Let_def row_check_def
      recordFromValues_def ex_tables1_def ex_tables3_def ex_row_def ex_precord_def duration_Milliseconds_def interval_ms_def)

lemma ex_two_owners:
  "backend_run pg_backend [(ex_penv 1000 None, CallAcquire ex_pkey ''y'' (5 * Second)),
     (ex_penv 6000000 None, CallAcquire ex_pkey ''y'' (5 * Second))] ex_tables =
   ([(ex_penv 1000 None, CallAcquire ex_pkey ''y'' (5 * Second), Got (ex_precord ''y'' 2 1000 5001000)),
     (ex_penv 6000000 None, CallAcquire ex_pkey ''y'' (5 * Second), Got (ex_precord ''y'' 3 6000000 11000000))], ex_tables3)"
  using ex_acquired ex_acquired_again by simp

theorem pg_fenced_writes_witness:
  "resource_write 2 ''late'' (snd (resource_run [(2, ''one''), (3, ''two'')] \<lparr>res_fence = 0, res_value = ''''\<rparr>)) =
     (Some (Sentinel ErrStaleOwner), snd (resource_run [(2, ''one''), (3, ''two'')] \<lparr>res_fence = 0, res_value = ''''\<rparr>))"
  using pg_fenced_writes [OF ex_tables_invar ex_two_owners, of 0 1 "pg_digest ex_pkey" "''late''" "[(2, ''one'')]" "''two''" "[]"
      "\<lparr>res_fence = 0, res_value = ''''\<rparr>"]
  by (simp add: ex_precord_def)

end
