(* ===== verification/Client_Progress.thy ===== *)
theory Client_Progress
  imports Client_Admission Postgres_Safety Valkey_Safety
begin

text \<open>
  What a client can rely on. Handles are well typed: whatever happens to a handle, what it
  sends is accepted by the input checks of every backend. And over a backend with
  progress, \<^verbatim>\<open>Client.Acquire\<close> takes over a lease whose holder has gone, at the first attempt
  after it ended.
\<close>

section \<open>The type of a handle\<close>

definition typed_record :: "Key \<Rightarrow> string \<Rightarrow> Record \<Rightarrow> bool" where
  "typed_record key owner r \<longleftrightarrow> validAcquisition key owner r \<and> owner \<noteq> '''' \<and> length owner \<le> 128"

definition typed_handle :: "Key \<Rightarrow> string \<Rightarrow> Policy \<Rightarrow> Handle \<times> flight list \<Rightarrow> bool" where
  "typed_handle key owner policy = (\<lambda>(h, fl). typed_record key owner (h_record h) \<and> h_policy h = policy \<and>
     list_all (\<lambda>f. typed_record key owner (flight_record f)) fl)"

lemma typed_same: "typed_record key owner a \<Longrightarrow> sameAcquisition a b \<Longrightarrow> typed_record key owner b"
  by (auto simp: typed_record_def validAcquisition_def sameAcquisition_def)

lemma flight_finish_record:
  assumes "flight_finish f c resp h = (err, h1)" "answers f resp"
  shows "h_policy h1 = h_policy h \<and> (h_record h1 = h_record h \<or> sameAcquisition (flight_record f) (h_record h1))"
proof -
  have fin: "h_policy h1 = h_policy h \<and> (h_record h1 = h_record h \<or> sameAcquisition r (h_record h1))"
    if "check_response r mismatch res = (next0, err')" "finishActiveOperation c next0 err' dl wdl h = (err, h1)"
    for r mismatch res next0 err' dl wdl
    using that by (auto simp: check_response_None elim!: finishActiveOperation_cases)
  show ?thesis
  proof (cases f)
    case (FRenew r started wallStarted)
    then show ?thesis using assms fin
      by (cases resp) (auto simp: renew_finish_def Let_def split: prod.splits)
  next
    case (FValidate r)
    then show ?thesis using assms fin by (cases resp) (auto simp: validate_finish_def split: prod.splits)
  next
    case (FRelease r)
    then show ?thesis using assms
      by (cases resp) (auto simp: release_finish_def Let_def split: option.splits)
  qed
qed

lemma typed_step:
  assumes "handle_step x y" "typed_handle key owner policy x"
  shows "typed_handle key owner policy y"
  using assms
proof (cases rule: handle_step.cases)
  case (poll h fl c)
  then show ?thesis using assms(2) by (simp add: typed_handle_def handle_State_def Let_def)
next
  case (start rq c c1 h f h1 fl)
  then show ?thesis using assms(2) request_begin_Inr [OF start(3)] by (simp add: typed_handle_def)
next
  case (refuse rq c c1 h err h1 fl)
  then show ?thesis using assms(2) request_begin_Inl [OF refuse(3)] by (auto simp: typed_handle_def)
next
  case (complete f fl resp c h err h1)
  have "typed_record key owner (flight_record f)" "typed_record key owner (h_record h)"
    using assms(2) complete(1,3) by (simp_all add: typed_handle_def list_all_iff)
  then show ?thesis
    using assms(2) complete(1,2) flight_finish_record [OF complete(5,4)] typed_same
    by (auto simp: typed_handle_def list_all_iff dest: notin_set_remove1)
next
  case (manage c used cap h err h1 used1 fl)
  then show ?thesis using assms(2) StartManaged_effect [OF manage(3)] by (auto simp: typed_handle_def)
next
  case unmanage
  then show ?thesis using assms(2) by (simp add: typed_handle_def)
qed

lemma typed_steps:
  "handle_step\<^sup>*\<^sup>* x y \<Longrightarrow> typed_handle key owner policy x \<Longrightarrow> typed_handle key owner policy y"
  by (induction rule: rtranclp_induct) (auto dest: typed_step)


section \<open>Taking over\<close>

text \<open>An attempt after which the loop may go on: the wait is not over, and the sleep ends normally before the deadline.\<close>

definition may_retry :: "Policy \<Rightarrow> instant \<Rightarrow> 'e attempt \<Rightarrow> bool" where
  "may_retry policy deadline a \<longleftrightarrow>
     \<not> waitDeadlineReached (at_ctxErr a) (wait_error policy (at_ctxErr a) (at_waitErr a)) \<and>
     time_Add (at_now a) (Retry policy + boundedJitter (at_jitter a) (Jitter policy)) < deadline \<and> at_sleep a = None"

lemma acquire_loop_again:
  assumes "be_TryAcquire B (at_env (env n)) key owner (TTL policy) s = (Inl err, s1)" "errors_Is err (Sentinel ErrContended)"
    and "may_retry policy deadline (env n)" "Wait policy \<noteq> 0" "n \<noteq> policy_MaxAttempts policy"
  shows "acquire_loop B key owner policy deadline env n s = acquire_loop B key owner policy deadline env (n + 1) s1"
  using assms by (subst acquire_loop.simps) (simp add: may_retry_def isContention_def errorIs_def Let_def)

lemma acquire_loop_got:
  assumes "be_TryAcquire B (at_env (env n)) key owner (TTL policy) s = (Inr r, s1)" "validAcquisition key owner r"
  shows "acquire_loop B key owner policy deadline env n s =
    (Inr (newHandleAt policy r (clk_now (at_clocks (env n))) (clk_wall (at_clocks (env n)))), s1)"
  using assms by (subst acquire_loop.simps) (simp add: Let_def)

context lease_progress
begin

lemma calm_acquired:
  assumes "calm e" "invar s" "be_TryAcquire B e k ow ttl s = (Inr r, s')"
  shows "invar s'" "validAcquisition k ow r" "fence s (ident k) < unat (rec_Token r)" "rec_Token r \<noteq> 0"
proof -
  have call: "backend_call B e (CallAcquire k ow ttl) s = (Got r, s')" using assms(3) by simp
  note got = acquire_got [OF calm_ok [OF assms(1)] assms(2) call]
  show "invar s'" by (rule invar_call [OF calm_ok [OF assms(1)] assms(2) call])
  show "fence s (ident k) < unat (rec_Token r)" using got by simp
  then show nz: "rec_Token r \<noteq> 0" by auto
  show "validAcquisition k ow r" using got nz by (simp add: validAcquisition_def)
qed

text \<open>Attempts \<open>i\<close> to \<open>m - 1\<close> find the key held, attempt \<open>m\<close> finds it vacant.\<close>

lemma loop_takes_over:
  assumes "i + d = m" and "unat (policy_MaxAttempts policy) < 2 ^ 32" "m \<le> unat (policy_MaxAttempts policy)" "Wait policy \<noteq> 0 \<or> d = 0"
    and "invar s" "room (Suc d) s key" "input_ok key owner 1 (TTL policy)" and calm: "\<And>n. calm (at_env (env n))"
    and held: "\<And>j. i \<le> j \<Longrightarrow> j < m \<Longrightarrow> live s (ends (at_env (env (of_nat j)))) (ident key) \<noteq> None \<and> may_retry policy deadline (env (of_nat j))"
    and vacant: "live s (begins (at_env (env (of_nat m)))) (ident key) = None"
  shows "\<exists>r s'. acquire_loop B key owner policy deadline env (of_nat i) s =
      (Inr (newHandleAt policy r (clk_now (at_clocks (env (of_nat m)))) (clk_wall (at_clocks (env (of_nat m))))), s') \<and>
    validAcquisition key owner r \<and> fence s (ident key) < unat (rec_Token r) \<and>
    (\<forall>t < lasts (at_env (env (of_nat m))) (TTL policy). live s' t (ident key) = Some (owner, rec_Token r))"
  using assms(1,4-6) held vacant
proof (induction d arbitrary: i s)
  case 0
  then have im: "i = m" by simp
  obtain r s' where acq: "be_TryAcquire B (at_env (env (of_nat m))) key owner (TTL policy) s = (Inr r, s')"
    "\<forall>t < lasts (at_env (env (of_nat m))) (TTL policy). live s' t (ident key) = Some (owner, rec_Token r)"
    using acquire_vacant [OF calm 0(3) assms(7) 0(4) 0(6)] by blast
  from calm_acquired [OF calm 0(3) acq(1)] acquire_loop_got [of B env "of_nat m" key owner policy s r s' deadline] acq im
  show ?case by blast
next
  case (Suc d)
  have i: "live s (ends (at_env (env (of_nat i)))) (ident key) \<noteq> None" "may_retry policy deadline (env (of_nat i))"
    using Suc.prems(5) [of i] Suc.prems(1) by auto
  obtain err s1 where acq: "be_TryAcquire B (at_env (env (of_nat i))) key owner (TTL policy) s = (Inl err, s1)"
    "errors_Is err (Sentinel ErrContended)" and st: "room (Suc d) s1 key" "\<And>t i. live s1 t i = live s t i"
    using acquire_held [OF calm Suc.prems(3) assms(7) Suc.prems(4) i(1)] by blast
  have call: "backend_call B (at_env (env (of_nat i))) (CallAcquire key owner (TTL policy)) s = (Failed err, s1)" using acq by simp
  have "unat (word_of_nat i :: uint32) = i" using assms(2,3) Suc.prems(1) by (simp add: unsigned_of_nat take_bit_nat_eq_self)
  then have "of_nat i \<noteq> policy_MaxAttempts policy" using assms(3) Suc.prems(1) by auto
  then have "acquire_loop B key owner policy deadline env (of_nat i) s =
      acquire_loop B key owner policy deadline env (of_nat (Suc i)) s1"
    using acquire_loop_again [of B env "of_nat i" key owner policy s err s1 deadline] acq i(2) Suc.prems(2) by (simp add: add.commute)
  moreover have "fence s (ident key) \<le> fence s1 (ident key)" by (rule fence_mono [OF calm_ok [OF calm] Suc.prems(3) call])
  moreover note Suc.IH [of "Suc i" s1, OF _ _ invar_call [OF calm_ok [OF calm] Suc.prems(3) call] st(1)] Suc.prems(1,2,5,6)
  ultimately show ?case using st(2) by fastforce
qed

lemma client_takes_over:
  assumes "ctx = Some None" "cl_waiters cl < cl_maxWaiters cl" "owner \<noteq> ''''" "length owner \<le> 128"
    and "1 \<le> m" "m \<le> unat (policy_MaxAttempts policy)" "Wait policy \<noteq> 0 \<or> m = 1"
    and "invar s" "room m s key" "input_ok key owner 1 (TTL policy)" and calm: "\<And>n. calm (at_env (env n))"
    and held: "\<And>j. 1 \<le> j \<Longrightarrow> j < m \<Longrightarrow> live s (ends (at_env (env (of_nat j)))) (ident key) \<noteq> None \<and>
      may_retry policy (time_Add started (Wait policy)) (env (of_nat j))"
    and vacant: "live s (begins (at_env (env (of_nat m)))) (ident key) = None"
  shows "\<exists>h s'. client_Acquire B cl ctx (Inr owner) started env key policy s = (Inr h, s') \<and>
    h_state h = StateActive \<and> rec_Owner (h_record h) = owner \<and> fence s (ident key) < unat (rec_Token (h_record h)) \<and>
    (\<forall>t < lasts (at_env (env (of_nat m))) (TTL policy). live s' t (ident key) = Some (owner, rec_Token (h_record h)))"
proof -
  have "unat (policy_MaxAttempts policy) < 2 ^ 32" using unsigned_less [of "policy_MaxAttempts policy"] by simp
  from loop_takes_over [of 1 "m - 1" m policy s key owner env "time_Add started (Wait policy)", OF _ this assms(6) _ assms(8) _ assms(10) calm held vacant] assms(5,7,9)
  obtain r s' where "acquire_loop B key owner policy (time_Add started (Wait policy)) env 1 s =
      (Inr (newHandleAt policy r (clk_now (at_clocks (env (of_nat m)))) (clk_wall (at_clocks (env (of_nat m))))), s')"
    "validAcquisition key owner r" "fence s (ident key) < unat (rec_Token r)"
    "\<forall>t < lasts (at_env (env (of_nat m))) (TTL policy). live s' t (ident key) = Some (owner, rec_Token r)"
    by auto
  then show ?thesis
    using assms(1-4)
    by (simp add: client_Acquire_def acquisitionContextError_def valid_owner_def newHandleAt_def Let_def validAcquisition_def)
qed

end

text \<open>
  C9: A lease whose holder has gone is taken over. Over PostgreSQL, with delivered statements
  that overlap no other: when the attempts before the \<open>m\<close>-th find the key held, each with
  time left to retry, and the lease has ended when the \<open>m\<close>-th begins, \<^verbatim>\<open>Client.Acquire\<close> returns
  an active handle with a fence above every earlier one, and the database names its owner
  for the whole lifetime asked for.
\<close>

theorem pg_client_takes_over:
  assumes "pg_invar db" and "cl_waiters cl < cl_maxWaiters cl" and "pg_input key owner 1 (TTL policy)"
    and "1 \<le> m" and "m \<le> unat (policy_MaxAttempts policy)" and "Wait policy \<noteq> 0 \<or> m = 1"
    and "pg_fence db (pg_digest key) + m < 2 ^ 63" and "\<forall>n. pg_calm (at_env (env n))"
    and "\<forall>j. 1 \<le> j \<and> j < m \<longrightarrow> pg_live db (pg_instant (pg_end (at_env (env (of_nat j))))) (pg_digest key) \<noteq> None \<and>
      may_retry policy (time_Add started (Wait policy)) (env (of_nat j))"
    and "pg_live db (pg_instant (pg_begin (at_env (env (of_nat m))))) (pg_digest key) = None"
  shows "\<exists>h db'. client_Acquire pg_backend cl (Some None) (Inr owner) started env key policy db = (Inr h, db') \<and>
    h_state h = StateActive \<and> rec_Owner (h_record h) = owner \<and> pg_fence db (pg_digest key) < unat (rec_Token (h_record h)) \<and>
    (\<forall>t < pg_lasts (at_env (env (of_nat m))) (TTL policy).
       pg_live db' t (pg_digest key) = Some (owner, rec_Token (h_record h)))"
proof -
  have "owner \<noteq> ''''" "length owner \<le> 128"
    using assms(3) by (auto simp: pg_input_def pg_validate_def split: if_splits)
  moreover have "pg_room m db key" using assms(7) by (simp add: pg_room_def)
  ultimately show ?thesis
    using pgp.client_takes_over [of "Some None" cl owner m policy db key env started] assms by blast
qed

section \<open>Witnesses\<close>

lemma ex_typed_acquired:
  "client_Acquire memory_backend ex_client (Some None) (Inr ''y'') 0 ex_attempt ex_key ex_policy ex_store =
     (Inr (newHandleAt ex_policy (ex_record ''y'' 1 100000000 5100000000) 100000000 100000000),
      snd (memory_TryAcquire (ex_env 100000000) ex_key ''y'' (5 * Second) ex_store))"
  by code_simp


definition ex_takeover :: "uint32 \<Rightarrow> pg_env attempt" where
  "ex_takeover n = \<lparr>at_clocks = ex_clocks 0, at_env = ex_penv (if n = 1 then 2000 else 6000000) None,
     at_ctxErr = None, at_waitErr = None, at_jitter = 0, at_now = 0, at_sleep = None,
     at_ctxErr2 = None, at_waitErr2 = None\<rparr>"

theorem pg_client_takes_over_witness:
  "\<exists>h db'. client_Acquire pg_backend ex_client (Some None) (Inr ''z'') 0 ex_takeover ex_pkey ex_wait_policy ex_tables1 = (Inr h, db') \<and>
     2 < unat (rec_Token (h_record h)) \<and> pg_live db' 10000000000 (pg_digest ex_pkey) = Some (''z'', rec_Token (h_record h))"
proof -
  have utf: "pg_text ''z''" by code_simp
  have input: "pg_input ex_pkey ''z'' 1 (TTL ex_wait_policy)"
    using utf by (simp add: pg_input_def pg_validate_def ex_pkey_def ex_wait_policy_def word_sless_alt word_less_nat_alt)
  have inv: "pg_invar ex_tables1" by (simp add: pg_invar_def ex_tables1_def ex_row_def row_check_def max_bigint_def)
  have live: "pg_live ex_tables1 t (pg_digest ex_pkey) = (if t < 5001000000 then Some (''y'', 2) else None)" for t
    by (simp add: pg_live_def row_live_def ex_tables1_def ex_row_def pg_instant_def)
  have fence: "pg_fence ex_tables1 (pg_digest ex_pkey) = 2" by (simp add: pg_fence_def ex_tables1_def)
  have lasts: "pg_lasts (ex_penv 6000000 None) (TTL ex_wait_policy) = 11000000000"
    by (simp add: pg_lasts_def pg_instant_def interval_ms_def duration_Milliseconds_def ex_wait_policy_def)
  have "\<exists>h db'. client_Acquire pg_backend ex_client (Some None) (Inr ''z'') 0 ex_takeover ex_pkey ex_wait_policy ex_tables1 = (Inr h, db') \<and>
      h_state h = StateActive \<and> rec_Owner (h_record h) = ''z'' \<and> pg_fence ex_tables1 (pg_digest ex_pkey) < unat (rec_Token (h_record h)) \<and>
      (\<forall>t < pg_lasts (at_env (ex_takeover (of_nat 2))) (TTL ex_wait_policy). pg_live db' t (pg_digest ex_pkey) = Some (''z'', rec_Token (h_record h)))"
  proof (rule pg_client_takes_over [OF inv _ input])
    show "\<forall>j. 1 \<le> j \<and> j < 2 \<longrightarrow> pg_live ex_tables1 (pg_instant (pg_end (at_env (ex_takeover (of_nat j))))) (pg_digest ex_pkey) \<noteq> None \<and>
        may_retry ex_wait_policy (time_Add 0 (Wait ex_wait_policy)) (ex_takeover (of_nat j))"
    proof (intro allI impI)
      fix j :: nat
      assume "1 \<le> j \<and> j < 2"
      then have "j = 1" by simp
      then show "pg_live ex_tables1 (pg_instant (pg_end (at_env (ex_takeover (of_nat j))))) (pg_digest ex_pkey) \<noteq> None \<and>
          may_retry ex_wait_policy (time_Add 0 (Wait ex_wait_policy)) (ex_takeover (of_nat j))"
        by (simp add: live ex_takeover_def pg_instant_def may_retry_def waitDeadlineReached_def wait_error_def ex_wait_policy_def ex_policy_def
            boundedJitter_def duration_min_def duration_max_def time_Add_def)
    qed
  qed (simp_all add: ex_client_def ex_wait_policy_def ex_takeover_def pg_calm_def fence live pg_instant_def)
  then show ?thesis by (auto simp: fence lasts ex_takeover_def)
qed

end
