(* ===== verification/Example_Programs.thy ===== *)
theory Example_Programs
  imports Client_Progress Lease_Managed
begin

text \<open>
  \<^verbatim>\<open>examples/postgres/main.go\<close> and \<^verbatim>\<open>examples/valkey/main.go\<close>: the two connection examples as whole
  programs over the store models. Connecting is the driver's code, so its error is an
  argument, and so are the owner the client generates, its clock readings and the two
  exchanges with the server. A process is what it logged, whether its deferred close ran,
  and its exit status.
\<close>

section \<open>Processes\<close>

record process =
  pr_log :: "string list"
  pr_closed :: bool
  pr_exit :: nat

text \<open>\<^verbatim>\<open>log.Fatal\<close> exits with status 1 and runs no deferred call.\<close>

definition log_Fatal :: "gerror \<Rightarrow> process" where
  "log_Fatal err = \<lparr>pr_log = [error_text err], pr_closed = False, pr_exit = 1\<rparr>"

text \<open>A call on a nil client panics: the deferred close runs, the status is 2.\<close>

definition nil_panic :: process where
  "nil_panic = \<lparr>pr_log = [], pr_closed = True, pr_exit = 2\<rparr>"

text \<open>What a constructor returns whose error is ignored: on an error, the zero value.\<close>

definition ignore_error :: "'a \<Rightarrow> 'a result \<Rightarrow> 'a" where
  "ignore_error zero res = (case res of Inl err \<Rightarrow> zero | Inr x \<Rightarrow> x)"

definition zero_Policy :: Policy where
  "zero_Policy = \<lparr>TTL = 0, Wait = 0, Retry = 0, Jitter = 0, RenewEvery = 0, SafetyMargin = 0,
     policy_MaxAttempts = 0, OperationTimeout = 0, policy_FailureBehavior = 0\<rparr>"

definition example_options :: PolicyOptions where
  "example_options = \<lparr>opt_TTL = 30 * Second, opt_Wait = 0, opt_Retry = 100 * Millisecond, opt_Jitter = 0, opt_RenewEvery = 0,
     opt_SafetyMargin = 0, opt_MaxAttempts = 1, opt_OperationTimeout = 0, opt_FailureBehavior = 0\<rparr>"

section \<open>The programs\<close>

definition postgres_main ::
  "gerror option \<Rightarrow> 8 word list \<Rightarrow> instant \<Rightarrow> pg_env \<Rightarrow> pg_env \<Rightarrow> pg_tables \<Rightarrow> process \<times> pg_tables" where
  "postgres_main connectErr rand wall e e_release db =
     (case connectErr of
        Some err \<Rightarrow> (log_Fatal err, db)
      | None \<Rightarrow>
          (case pg_New True of
             Inl err \<Rightarrow> (log_Fatal err, db)
           | Inr backend \<Rightarrow>
               (case NewClient rand True zero_ClientOptions of
                  Inl err \<Rightarrow> (nil_panic, db)
                | Inr leases \<Rightarrow>
                    let key = ignore_error \<lparr>key_value = ''''\<rparr> (NewKey ''examples'' ''postgres'');
                        policy = ignore_error zero_Policy (NewPolicy example_options);
                        c = \<lparr>clk_now = clock_Now wall (cl_clock leases), clk_wall = wall\<rparr>
                    in (case client_TryAcquire pg_backend (Some None) (NewOwner (cl_owners leases)) c e key policy db of
                          (Inl err, db1) \<Rightarrow> (log_Fatal err, db1)
                        | (Inr handle, db1) \<Rightarrow>
                            (case handle_Release pg_backend e_release handle db1 of
                               (releaseErr, handle1, db2) \<Rightarrow>
                                 (\<lparr>pr_log = ''acquired fenced lease'' #
                                    (case releaseErr of None \<Rightarrow> [] | Some err \<Rightarrow> [''release outcome: '' @ error_text err]),
                                   pr_closed = True, pr_exit = 0\<rparr>, db2))))))"

definition valkey_main ::
  "'v valkey \<Rightarrow> gerror option \<Rightarrow> 8 word list \<Rightarrow> instant \<Rightarrow> vk_env \<Rightarrow> vk_env \<Rightarrow> 'v \<Rightarrow> process \<times> 'v" where
  "valkey_main S connectErr rand wall e e_release v =
     (case connectErr of
        Some err \<Rightarrow> (log_Fatal err, v)
      | None \<Rightarrow>
          (case valkey_New True ''example-leases'' of
             Inl err \<Rightarrow> (log_Fatal err, v)
           | Inr prefix \<Rightarrow>
               (case NewClient rand True zero_ClientOptions of
                  Inl err \<Rightarrow> (nil_panic, v)
                | Inr leases \<Rightarrow>
                    let key = ignore_error \<lparr>key_value = ''''\<rparr> (NewKey ''examples'' ''valkey'');
                        policy = ignore_error zero_Policy (NewPolicy example_options);
                        c = \<lparr>clk_now = clock_Now wall (cl_clock leases), clk_wall = wall\<rparr>
                    in (case client_TryAcquire (valkey_backend S prefix) (Some None) (NewOwner (cl_owners leases)) c e key policy v of
                          (Inl err, v1) \<Rightarrow> (log_Fatal err, v1)
                        | (Inr handle, v1) \<Rightarrow>
                            (case handle_Release (valkey_backend S prefix) e_release handle v1 of
                               (releaseErr, handle1, v2) \<Rightarrow>
                                 (\<lparr>pr_log = (''acquired fence '' @ strconv_FormatUint (handle_Token handle)) #
                                    (case releaseErr of None \<Rightarrow> [] | Some err \<Rightarrow> [''release outcome: '' @ error_text err]),
                                   pr_closed = True, pr_exit = 0\<rparr>, v2))))))"

section \<open>Acquiring and releasing\<close>

text \<open>The constructors whose errors the programs ignore do not fail.\<close>

lemma example_policy: "NewPolicy example_options = Inr \<lparr>TTL = 30 * Second, Wait = 0, Retry = 100 * Millisecond, Jitter = 0,
    RenewEvery = 0, SafetyMargin = 0, policy_MaxAttempts = 1, OperationTimeout = 30 * Second, policy_FailureBehavior = FailureFailClosed\<rparr>"
  by code_simp

lemma example_keys:
  "NewKey ''examples'' ''postgres'' = Inr \<lparr>key_value = ''examples/postgres''\<rparr>"
  "NewKey ''examples'' ''valkey'' = Inr \<lparr>key_value = ''examples/valkey''\<rparr>"
  "valkey_New True ''example-leases'' = Inr ''example-leases''" "pg_New True = Inr ()"
  by code_simp+

text \<open>A vacant key is acquired, released before the lease ends, and free again.\<close>

context lease_progress
begin

lemma acquire_release:
  assumes "calm e" "calm e'" "invar s" "input_ok key owner 1 (TTL policy)" "input_ok key owner 1 Millisecond" "room 1 s key"
    and "live s (begins e) (ident key) = None" "ends e' < lasts e (TTL policy)" "owner \<noteq> ''''" "length owner \<le> 128"
  shows "\<exists>h s1 h2 s2. client_TryAcquire B (Some None) (Inr owner) c e key policy s = (Inr h, s1) \<and>
    handle_Release B e' h s1 = (None, h2, s2) \<and> fence s (ident key) < unat (handle_Token h) \<and>
    fence s2 (ident key) = unat (handle_Token h) \<and> (\<forall>t. live s2 t (ident key) = None)"
proof -
  obtain r s1 where acq: "be_TryAcquire B e key owner (TTL policy) s = (Inr r, s1)"
    and held: "\<And>t. t < lasts e (TTL policy) \<Longrightarrow> live s1 t (ident key) = Some (owner, rec_Token r)"
    using acquire_vacant [OF assms(1,3,4), of 0] assms(6,7) by auto
  have call: "backend_call B e (CallAcquire key owner (TTL policy)) s = (Got r, s1)" using acq by simp
  note got = acquire_got [OF calm_ok [OF assms(1)] assms(3) call] and r = calm_acquired [OF assms(1,3) acq]
  have now: "live s1 (ends e') (ident (rec_Key r)) = Some (rec_Owner r, rec_Token r)" using held assms(8) got by simp
  have "input_ok (rec_Key r) (rec_Owner r) (rec_Token r) Millisecond"
    using input_token [OF r(1), of key owner Millisecond "rec_Token r"] assms(5) got by auto
  from release_live [OF assms(2) r(1) this now] obtain s2 where rel: "be_Release B e' r s1 = (None, s2)" by blast
  have call2: "backend_call B e' (CallRelease r) s1 = (Done, s2)" using rel by simp
  from simulates [OF calm_ok [OF assms(2)] r(1) call2]
  have "fence s2 (ident key) = unat (rec_Token r) \<and> (\<forall>t. live s2 t (ident key) = None)"
  proof (rule spec_releaseE, goal_cases)
    case 1
    then have "(\<lambda>t. live s2 t (ident (rec_Key r))) = (\<lambda>t. live s1 t (ident (rec_Key r)))" by simp
    then have "live s2 (ends e') (ident (rec_Key r)) = Some (rec_Owner r, rec_Token r)" using now by metis
    then show ?case using release_done [OF calm_ok [OF assms(2)] r(1) call2 order.refl] by simp
  next
    case (2 L F)
    then have "(\<lambda>t. live s2 t (ident (rec_Key r))) = (\<lambda>_. None)" "fence s2 (ident (rec_Key r)) = fence s1 (ident (rec_Key r))" by simp_all
    then show ?case using got by metis
  qed
  moreover have "client_TryAcquire B (Some None) (Inr owner) c e key policy s = (Inr (newHandleAt policy r (clk_now c) (clk_wall c)), s1)"
    using acq r(2) assms(9,10) by (simp add: client_TryAcquire_def acquisitionContextError_def valid_owner_def)
  moreover obtain h2 where "handle_Release B e' (newHandleAt policy r (clk_now c) (clk_wall c)) s1 = (None, h2, s2)"
    using rel by (auto simp: handle_Release_def release_begin_def release_finish_def newHandleAt_def Let_def)
  ultimately show ?thesis using r(3) by (simp add: handle_Token_def newHandleAt_def Let_def)
qed

text \<open>A key that is held throughout the attempt is refused, and stays as it is.\<close>

lemma acquire_refused:
  assumes "calm e" "invar s" "input_ok key owner 1 (TTL policy)" "room 1 s key" "live s (ends e) (ident key) \<noteq> None"
    and "owner \<noteq> ''''" "length owner \<le> 128"
  shows "\<exists>err s1. client_TryAcquire B (Some None) (Inr owner) c e key policy s = (Inl err, s1) \<and>
    errors_Is err (Sentinel ErrContended) \<and> (\<forall>t i. live s1 t i = live s t i)"
  using acquire_held [OF assms(1-3), of 0] assms(4-7)
  by (auto simp: client_TryAcquire_def acquisitionContextError_def valid_owner_def)

end

text \<open>The default owner source gives an owner that both stores accept.\<close>

lemma valid_utf8_ascii: "\<forall>b \<in> set bs. b < 0x80 \<Longrightarrow> valid_utf8 bs"
  by (induction bs) simp_all

lemma default_owner:
  assumes "24 \<le> length rand"
  obtains owner where "NewOwner (cl_owners (default_client rand)) = Inr owner" "pg_text owner" "owner \<noteq> ''''" "length owner \<le> 128"
proof -
  let ?owner = "RawURLEncoding (take 24 rand)"
  have "\<forall>c \<in> set base64_alphabet. of_char c < (0x80 :: nat) \<and> c \<noteq> CHR 0x00" by code_simp
  then have ascii: "of_char c < (0x80 :: nat)" "c \<noteq> CHR 0x00" if "c \<in> set ?owner" for c
    using that subsetD [OF RawURLEncoding_chars] by blast+
  have "valid_utf8 (bytes_of ?owner)"
    by (rule valid_utf8_ascii) (use ascii(1) in \<open>simp add: bytes_of_def\<close>)
  then have "pg_text ?owner" unfolding pg_text_def utf8_ValidString_def using ascii(2) by blast
  moreover have len: "length ?owner = 32" using RawURLEncoding_length [of "take 24 rand" 8] assms by simp
  moreover have "?owner \<noteq> []" using len by (metis list.size(3) zero_neq_numeral)
  moreover have "NewOwner (cl_owners (default_client rand)) = Inr ?owner"
    using assms by (simp add: default_client_def randomOwners_NewOwner_def io_ReadFull_def)
  ultimately show ?thesis by (intro that [of ?owner]) simp_all
qed

text \<open>
  The PostgreSQL example does what it says. Connected to a database with the schema,
  given delivered statements and 24 random bytes, it finds its key vacant, acquires it with a
  new fence, logs that, releases it before the thirty seconds are over, closes its pool and exits with status 0,
  leaving the key free and the fence stored. If the key is held, it exits with status 1 and a message, and the lease
  of the holder stays as it is.
\<close>

theorem postgres_main_runs:
  assumes "pg_invar db" and "pg_calm e" and "pg_calm e_release" and "24 \<le> length rand"
    and "pg_fence db (pg_digest \<lparr>key_value = ''examples/postgres''\<rparr>) + 1 < 2 ^ 63"
  defines "d \<equiv> pg_digest \<lparr>key_value = ''examples/postgres''\<rparr>"
  shows "(pg_live db (pg_instant (pg_begin e)) d = None \<and> pg_instant (pg_end e_release) < pg_lasts e (30 * Second) \<longrightarrow>
      (\<exists>db'. postgres_main None rand wall e e_release db =
         (\<lparr>pr_log = [''acquired fenced lease''], pr_closed = True, pr_exit = 0\<rparr>, db') \<and>
       pg_fence db d < pg_fence db' d \<and> (\<forall>t. pg_live db' t d = None))) \<and>
    (pg_live db (pg_instant (pg_end e)) d \<noteq> None \<longrightarrow>
      (\<exists>p db'. postgres_main None rand wall e e_release db = (p, db') \<and> pr_exit p = 1 \<and> length (pr_log p) = 1 \<and>
       (\<forall>t. pg_live db' t d = pg_live db t d)))"
proof -
  obtain owner where owner: "NewOwner (cl_owners (default_client rand)) = Inr owner" "pg_text owner" "owner \<noteq> ''''" "length owner \<le> 128"
    using default_owner [OF assms(4)] .
  define c where "c = \<lparr>clk_now = clock_Now wall (cl_clock (default_client rand)), clk_wall = wall\<rparr>"
  let ?key = "\<lparr>key_value = ''examples/postgres''\<rparr>"
  let ?policy = "\<lparr>TTL = 30 * Second, Wait = 0, Retry = 100 * Millisecond, Jitter = 0, RenewEvery = 0, SafetyMargin = 0,
    policy_MaxAttempts = 1, OperationTimeout = 30 * Second, policy_FailureBehavior = FailureFailClosed\<rparr>"
  have input: "pg_input ?key owner 1 ttl" if "1000000 \<le> sint ttl" for ttl
    using that owner by (simp add: pg_input_def pg_validate_def word_sless_alt)
  have inputs: "pg_input ?key owner 1 (TTL ?policy)" "pg_input ?key owner 1 Millisecond" by (rule input, simp)+
  have room: "pg_room 1 db ?key" using assms(5) by (simp add: pg_room_def)
  have main: "postgres_main None rand wall e e_release db =
      (case client_TryAcquire pg_backend (Some None) (Inr owner) c e ?key ?policy db of
         (Inl err, db1) \<Rightarrow> (log_Fatal err, db1)
       | (Inr h, db1) \<Rightarrow> (case handle_Release pg_backend e_release h db1 of
           (releaseErr, h1, db2) \<Rightarrow> (\<lparr>pr_log = ''acquired fenced lease'' #
              (case releaseErr of None \<Rightarrow> [] | Some err \<Rightarrow> [''release outcome: '' @ error_text err]),
              pr_closed = True, pr_exit = 0\<rparr>, db2)))"
    by (simp only: postgres_main_def example_policy NewClient_zero example_keys ignore_error_def option.case sum.case Let_def owner(1) c_def)
  show ?thesis
  proof (intro conjI impI)
    assume vacant: "pg_live db (pg_instant (pg_begin e)) d = None \<and> pg_instant (pg_end e_release) < pg_lasts e (30 * Second)"
    obtain h db1 h2 db2 where "client_TryAcquire pg_backend (Some None) (Inr owner) c e ?key ?policy db = (Inr h, db1)"
      "handle_Release pg_backend e_release h db1 = (None, h2, db2)" "pg_fence db d < unat (handle_Token h)"
      "pg_fence db2 d = unat (handle_Token h)" "\<forall>t. pg_live db2 t d = None"
      using pgp.acquire_release [OF assms(2,3,1) inputs room, of c] vacant owner unfolding d_def by auto
    then show "\<exists>db'. postgres_main None rand wall e e_release db =
         (\<lparr>pr_log = [''acquired fenced lease''], pr_closed = True, pr_exit = 0\<rparr>, db') \<and>
       pg_fence db d < pg_fence db' d \<and> (\<forall>t. pg_live db' t d = None)"
      by (simp add: main)
  next
    assume "pg_live db (pg_instant (pg_end e)) d \<noteq> None"
    then obtain err db1 where "client_TryAcquire pg_backend (Some None) (Inr owner) c e ?key ?policy db = (Inl err, db1)"
      "\<And>t i. pg_live db1 t i = pg_live db t i"
      using pgp.acquire_refused [OF assms(2,1) inputs(1) room, of c] owner unfolding d_def by auto
    then show "\<exists>p db'. postgres_main None rand wall e e_release db = (p, db') \<and> pr_exit p = 1 \<and> length (pr_log p) = 1 \<and>
       (\<forall>t. pg_live db' t d = pg_live db t d)"
      by (simp add: main log_Fatal_def)
  qed
qed

text \<open>
  The Valkey example, on any server with the documented behaviour: if its key is vacant it
  acquires it, logs the new fence, which is the number the server's counter has reached,
  releases the lease, closes its client and exits with status 0, leaving the key free. If
  the key is held, it exits with status 1 and a message, and the lease of the holder stays as it is.
\<close>

theorem valkey_main_runs:
  assumes "valkey_server S hash_at count_at" and "valkey_invar hash_at count_at ''example-leases'' v"
    and "valkey_calm e" and "valkey_calm e_release" and "24 \<le> length rand"
    and "valkey_fence count_at ''example-leases'' v (key_digest \<lparr>key_value = ''examples/valkey''\<rparr>) + 1 < 2 ^ 63"
  defines "live \<equiv> \<lambda>v t. valkey_live hash_at ''example-leases'' v t (key_digest \<lparr>key_value = ''examples/valkey''\<rparr>)"
    and "fence \<equiv> \<lambda>v. valkey_fence count_at ''example-leases'' v (key_digest \<lparr>key_value = ''examples/valkey''\<rparr>)"
  shows "(live v (valkey_instant (vk_now e)) = None \<and> valkey_instant (vk_now e_release) < valkey_lasts e (30 * Second) \<longrightarrow>
      (\<exists>v'. valkey_main S None rand wall e e_release v =
         (\<lparr>pr_log = [''acquired fence '' @ digits10 (fence v')], pr_closed = True, pr_exit = 0\<rparr>, v') \<and>
       fence v < fence v' \<and> (\<forall>t. live v' t = None))) \<and>
    (live v (valkey_instant (vk_now e)) \<noteq> None \<longrightarrow>
      (\<exists>p v'. valkey_main S None rand wall e e_release v = (p, v') \<and> pr_exit p = 1 \<and> length (pr_log p) = 1 \<and>
       (\<forall>t. live v' t = live v t)))"
proof -
  obtain owner where owner: "NewOwner (cl_owners (default_client rand)) = Inr owner" "pg_text owner" "owner \<noteq> ''''" "length owner \<le> 128"
    using default_owner [OF assms(5)] .
  define c where "c = \<lparr>clk_now = clock_Now wall (cl_clock (default_client rand)), clk_wall = wall\<rparr>"
  let ?key = "\<lparr>key_value = ''examples/valkey''\<rparr>"
  let ?policy = "\<lparr>TTL = 30 * Second, Wait = 0, Retry = 100 * Millisecond, Jitter = 0, RenewEvery = 0, SafetyMargin = 0,
    policy_MaxAttempts = 1, OperationTimeout = 30 * Second, policy_FailureBehavior = FailureFailClosed\<rparr>"
  let ?B = "valkey_backend S ''example-leases''"
  note contract = valkey_lease.progress_contract [OF valkey_lease.intro [OF assms(1)], of "''example-leases''"]
  have input: "valkey_input ?key owner 1 ttl" if "1000000 \<le> sint ttl" for ttl
    using that owner by (simp add: valkey_input_def valkey_validate_def word_sless_alt)
  have inputs: "valkey_input ?key owner 1 (TTL ?policy)" "valkey_input ?key owner 1 Millisecond" by (rule input, simp)+
  have room: "valkey_room count_at ''example-leases'' 1 v ?key" using assms(6) by (simp add: valkey_room_def)
  have main: "valkey_main S None rand wall e e_release v =
      (case client_TryAcquire ?B (Some None) (Inr owner) c e ?key ?policy v of
         (Inl err, v1) \<Rightarrow> (log_Fatal err, v1)
       | (Inr h, v1) \<Rightarrow> (case handle_Release ?B e_release h v1 of
           (releaseErr, h1, v2) \<Rightarrow> (\<lparr>pr_log = (''acquired fence '' @ strconv_FormatUint (handle_Token h)) #
              (case releaseErr of None \<Rightarrow> [] | Some err \<Rightarrow> [''release outcome: '' @ error_text err]),
              pr_closed = True, pr_exit = 0\<rparr>, v2)))"
    by (simp only: valkey_main_def example_policy NewClient_zero example_keys ignore_error_def option.case sum.case Let_def owner(1) c_def)
  show ?thesis
  proof (intro conjI impI)
    assume "live v (valkey_instant (vk_now e)) = None \<and> valkey_instant (vk_now e_release) < valkey_lasts e (30 * Second)"
    then have vacant: "valkey_live hash_at ''example-leases'' v (valkey_instant (vk_now e)) (key_digest ?key) = None"
      "valkey_instant (vk_now e_release) < valkey_lasts e (TTL ?policy)" by (simp_all add: live_def)
    obtain h v1 h2 v2 where "client_TryAcquire ?B (Some None) (Inr owner) c e ?key ?policy v = (Inr h, v1)"
      "handle_Release ?B e_release h v1 = (None, h2, v2)" "fence v < unat (handle_Token h)"
      "fence v2 = unat (handle_Token h)" "\<forall>t. live v2 t = None"
      using lease_progress.acquire_release [OF contract, of e e_release v ?key owner ?policy c]
        assms(2-4) owner(3,4) inputs room vacant unfolding live_def fence_def by blast
    then show "\<exists>v'. valkey_main S None rand wall e e_release v =
         (\<lparr>pr_log = [''acquired fence '' @ digits10 (fence v')], pr_closed = True, pr_exit = 0\<rparr>, v') \<and>
       fence v < fence v' \<and> (\<forall>t. live v' t = None)"
      by (simp add: main strconv_FormatUint_def)
  next
    assume "live v (valkey_instant (vk_now e)) \<noteq> None"
    then have held: "valkey_live hash_at ''example-leases'' v (valkey_instant (vk_now e)) (key_digest ?key) \<noteq> None" by (simp add: live_def)
    obtain err v1 where "client_TryAcquire ?B (Some None) (Inr owner) c e ?key ?policy v = (Inl err, v1)"
      "\<forall>t. live v1 t = live v t"
      using lease_progress.acquire_refused [OF contract, of e v ?key owner ?policy c]
        assms(2-4) owner(3,4) inputs room held unfolding live_def by blast
    then show "\<exists>p v'. valkey_main S None rand wall e e_release v = (p, v') \<and> pr_exit p = 1 \<and> length (pr_log p) = 1 \<and>
       (\<forall>t. live v' t = live v t)"
      by (simp add: main log_Fatal_def)
  qed
qed

text \<open>Without enough random bytes both programs exit with status 1 before they reach the store.\<close>

lemma TryAcquire_without_owner:
  assumes "length rand < 24"
  shows "client_TryAcquire B (Some None) (NewOwner (cl_owners (default_client rand))) c e key policy s =
    (Inl (Wrap (Sentinel ErrBackendUnavailable) ''owner generation''), s)"
  using assms default_client_sources(2) [of rand] by (simp add: client_TryAcquire_def acquisitionContextError_def)

lemma main_without_owner:
  assumes "length rand < 24"
  shows "snd (postgres_main None rand wall e e_release db) = db" "pr_exit (fst (postgres_main None rand wall e e_release db)) = 1"
    "snd (valkey_main S None rand wall e' e_release' v) = v" "pr_exit (fst (valkey_main S None rand wall e' e_release' v)) = 1"
  by (simp_all add: TryAcquire_without_owner [OF assms] postgres_main_def valkey_main_def example_keys NewClient_zero Let_def log_Fatal_def)

section \<open>Witnesses\<close>

theorem postgres_main_runs_witness:
  "\<exists>db'. postgres_main None (replicate 24 7) 0 (ex_penv 1000 None) (ex_penv 2000 None) ex_tables =
     (\<lparr>pr_log = [''acquired fenced lease''], pr_closed = True, pr_exit = 0\<rparr>, db') \<and>
   (\<forall>t. pg_live db' t (pg_digest \<lparr>key_value = ''examples/postgres''\<rparr>) = None)"
proof -
  have "pg_invar ex_tables" by (simp add: pg_invar_def ex_tables_def max_bigint_def)
  moreover have "pg_calm (ex_penv t None)" for t by (simp add: pg_calm_def)
  moreover have "pg_fence ex_tables d + 1 < 2 ^ 63" "pg_live ex_tables t d = None" for d t
    by (simp_all add: pg_fence_def pg_live_def ex_tables_def)
  moreover have "pg_instant 2000 < pg_lasts (ex_penv 1000 None) (30 * Second)"
    by (simp add: pg_lasts_def pg_instant_def interval_ms_def duration_Milliseconds_def)
  ultimately show ?thesis
    using postgres_main_runs [of ex_tables "ex_penv 1000 None" "ex_penv 2000 None" "replicate 24 7" 0] by auto
qed

definition ex_fresh :: ref_space where
  "ex_fresh = \<lparr>space_hash = (\<lambda>_. None), space_count = (\<lambda>_. 0)\<rparr>"

theorem valkey_main_runs_witness:
  "\<exists>v'. valkey_main ref_valkey None (replicate 24 7) 0 (ex_exchange 1000) (ex_exchange 2000) ex_fresh =
     (\<lparr>pr_log = [''acquired fence '' @ digits10 (valkey_fence space_count ''example-leases'' v' (key_digest \<lparr>key_value = ''examples/valkey''\<rparr>))],
       pr_closed = True, pr_exit = 0\<rparr>, v')"
proof -
  have inv: "valkey_invar space_hash space_count ''example-leases'' ex_fresh" by (simp add: valkey_invar_def ex_fresh_def)
  have calm: "valkey_calm (ex_exchange 1000)" "valkey_calm (ex_exchange 2000)"
    by (simp_all add: valkey_calm_def ex_exchange_def valkey_env_ok_def)
  have "valkey_fence space_count ''example-leases'' ex_fresh d + 1 < 2 ^ 63" for d
    by (simp add: valkey_fence_def ex_fresh_def)
  moreover have "valkey_live space_hash ''example-leases'' ex_fresh t d = None" for t d
    by (simp add: valkey_live_def live_hash_def ex_fresh_def)
  moreover have "valkey_instant (vk_now (ex_exchange 2000)) < valkey_lasts (ex_exchange 1000) (30 * Second)"
    by (simp add: valkey_lasts_def ex_exchange_def valkey_instant_def time_UnixMilli_def)
  ultimately show ?thesis
    using valkey_main_runs [OF refvk.valkey_server_axioms inv calm, of "replicate 24 7" 0] by auto
qed

end
