(* ===== verification/Spec2Isabelle.thy ===== *)
theory Spec2Isabelle
  imports Acquire_Pool Shared_Stores Lease_Observation Lease_Conformance Protected_Write Example_Programs
begin

text \<open>
  Fenced leases: a verification development beside \<^verbatim>\<open>github.com/faustbrian/go-lease\<close>.

  \<^bold>\<open>The program.\<close> A lease gives one owner a key for a limited time, together with a fencing
  token (a fence) that grows with every acquisition. A \<^verbatim>\<open>Client\<close> acquires leases from a \<^verbatim>\<open>Backend\<close>
  (process memory, PostgreSQL or Valkey) and returns a \<^verbatim>\<open>Handle\<close>; the handle renews, validates
  and releases the lease and admits work only until a local deadline, which leaves a safety
  margin before the backend's expiry. \<^verbatim>\<open>Managed\<close> renews a handle in the background. The guard
  runs a callback while a lease is held; the queue and scheduler adapters build on it. The
  service manager accounts for the handles of a service and releases them at shutdown. An
  observing decorator reports backend calls. A protected resource compares fences.

  \<^bold>\<open>Theories and sources\<close> (all paths under \<^verbatim>\<open>src/\<close>).
  \<^item> \<^verbatim>\<open>Lease_Prelude\<close>: durations as signed 64-bit words, instants as integers in nanoseconds.
  \<^item> \<^verbatim>\<open>Lease_Errors\<close>: \<^verbatim>\<open>errors.go\<close>, \<^verbatim>\<open>internal/failure\<close>; error values are trees, \<^verbatim>\<open>errors.Is\<close> and
    \<^verbatim>\<open>errors.Join\<close> are functions on them.
  \<^item> \<^verbatim>\<open>Lease_Key\<close>, \<^verbatim>\<open>Lease_Policy\<close>, \<^verbatim>\<open>Lease_Record\<close>: \<^verbatim>\<open>key.go\<close>, \<^verbatim>\<open>policy.go\<close>, \<^verbatim>\<open>record.go\<close>.
  \<^item> \<^verbatim>\<open>Lease_Backend\<close>: \<^verbatim>\<open>backend.go\<close> as a record of four operations that pass the backend's state
    along, the abstract state machine of \<^verbatim>\<open>docs/state-machine.md\<close> (\<open>spec_step\<close>), and the contracts
    \<open>lease_safety\<close>, \<open>lease_backend\<close> and \<open>lease_progress\<close> (what a call that meets no obstacle gets)
    with everything that follows from them alone.
  \<^item> \<^verbatim>\<open>Memory_Store\<close>: \<^verbatim>\<open>memory/store.go\<close>. One call is one critical section of the mutex.
  \<^item> \<^verbatim>\<open>Sha256\<close>, \<^verbatim>\<open>Strconv\<close>: the parts of the Go library the stores call.
  \<^item> \<^verbatim>\<open>Valkey_Store\<close>, \<^verbatim>\<open>Valkey_Safety\<close>: \<^verbatim>\<open>valkey/store.go\<close>, \<^verbatim>\<open>valkey/scripts.go\<close>,
    \<^verbatim>\<open>valkey/native.go\<close>. The server is a parameter; the locales \<open>valkey_server\<close> and \<open>valkey_lease\<close>
    state its documented commands, and a reference server shows that they can be met.
  \<^item> \<^verbatim>\<open>Postgres_Store\<close>, \<^verbatim>\<open>Postgres_Safety\<close>: \<^verbatim>\<open>postgres/store.go\<close>, \<^verbatim>\<open>postgres/migration.go\<close>. A statement
    is a function of the tables it runs on, the older snapshot it reads from, and its clock
    readings; an update of a row changed meanwhile is rechecked as at read committed isolation.
  \<^item> \<^verbatim>\<open>Lease_Handle\<close>: \<^verbatim>\<open>handle.go\<close>. The sections under the mutex are functions; \<open>handle_step\<close>
    interleaves them with remote operations in flight.
  \<^item> \<^verbatim>\<open>Lease_Admission\<close>, \<^verbatim>\<open>Admission_Backends\<close>: one handle, its backend and other clients as a step
    relation on worlds, and the contract \<open>lease_timing\<close> on how long a grant lasts.
  \<^item> \<^verbatim>\<open>Lease_Client\<close>, \<^verbatim>\<open>Client_Admission\<close>, \<^verbatim>\<open>Client_Progress\<close>: \<^verbatim>\<open>client.go\<close>, its composition with
    handles, and what it achieves over a backend with progress. The four sources of a client
    are data: the default implementation or the answers of an injected one.
  \<^item> \<^verbatim>\<open>Lease_Cluster\<close>: any number of processes, each with a handle, a clock and requests in flight
    of its own, over one backend that outsiders use too (\<open>cluster_step\<close>).
  \<^item> \<^verbatim>\<open>Acquire_Pool\<close>: concurrent \<^verbatim>\<open>Acquire\<close> and \<^verbatim>\<open>TryAcquire\<close> calls of one client (\<^verbatim>\<open>client.go\<close>), one
    turn of the retry loop at a time, with the waiter slots they share (\<open>pool_step\<close>).
  \<^item> \<^verbatim>\<open>Lease_Managed\<close>: \<^verbatim>\<open>managed.go\<close>, as a function of its rounds and as a step relation.
  \<^item> \<^verbatim>\<open>Lease_Guard\<close>: \<^verbatim>\<open>internal/guard\<close>, \<^verbatim>\<open>adapters/queue\<close>, \<^verbatim>\<open>adapters/scheduler\<close>. The inner worker of
    the queue library is a record of its operations.
  \<^item> \<^verbatim>\<open>Service_Manager\<close>: \<^verbatim>\<open>adapters/service\<close>, with 32-bit counters and channels that panic when
    closed twice.
  \<^item> \<^verbatim>\<open>Shared_Stores\<close>: the guard and the service manager over stores that other clients use.
  \<^item> \<^verbatim>\<open>Lease_Observation\<close>: \<^verbatim>\<open>observation.go\<close>, the decorator as a backend on the flags of its
    observer slots, and the goroutines behind the flags as a step relation (\<open>slot_step\<close>).
  \<^item> \<^verbatim>\<open>Lease_Conformance\<close>: \<^verbatim>\<open>leasetest\<close>. \<^verbatim>\<open>Protected_Write\<close>: \<^verbatim>\<open>examples/protectedwrite\<close>.
    \<^verbatim>\<open>Example_Programs\<close>: \<^verbatim>\<open>examples/postgres\<close>, \<^verbatim>\<open>examples/valkey\<close>, each \<^verbatim>\<open>main\<close> as a function of the
    connection error, the random bytes, the wall clock and its two exchanges with the server.

  \<^bold>\<open>How the pieces fit.\<close> The stores are interpretations of the contracts: \<open>mem\<close>, \<open>pgs\<close> (any
  snapshots), \<open>pg\<close> (statements that do not overlap) and, for every server, \<open>valkey_lease.lease\<close>.
  From the contract follow, once, that fences increase, that a successor is protected from its
  predecessors and that a lease is exclusive until it expires. The timing contract adds that
  local admission implies remote ownership, and the client's theorem carries this from
  \<^verbatim>\<open>Client.Acquire\<close> to the database. In a cluster the same holds of every member at once, and
  since fences are never handed out twice, no two handles of a key admit work at the same
  moment. A client whose calls run concurrently is such a cluster (\<open>pool_refines\<close>), and a call
  that is not interrupted is the sequential function (\<open>client_Acquire_pool\<close>). The progress contract (\<open>memp\<close>, \<open>pgp\<close>,
  \<open>valkey_lease.progress\<close>) says what happens when nothing interferes: vacant keys are granted,
  held ones refused, owners renewed, validated and released; from it follow, once for all
  stores, that the conformance suite passes, that a client takes over an ended lease and that
  the example programs succeed. Clocks, contexts, randomness, lost requests and replies,
  and the order in which goroutines run are arguments or steps, never fixed.

  \<^bold>\<open>What the theorems show.\<close>
  \<^item> Mutual exclusion across processes: \<open>pg_mutual_exclusion\<close>, \<open>valkey_mutual_exclusion\<close>,
    \<open>memory_mutual_exclusion\<close>. Handles that have started a release are excluded, and
    \<open>release_window\<close> shows that they must be: such a handle reports active until the answer
    arrives, while the key may already be another's.
  \<^item> Admission: \<open>pg_client_admission\<close>, \<open>valkey_client_admission\<close>, \<open>pg_admission_safe\<close>, \<open>valkey_admission_safe\<close>,
    \<open>memory_admission_safe\<close>; with the resource, \<open>pg_fenced_writes\<close>.
  \<^item> Refinement of the documented state machine: \<open>pg_refines\<close>, \<open>valkey_refines\<close>, \<open>memory_refines\<close>,
    and of the decorated backend, \<open>observed_contract\<close>.
  \<^item> Per store: fences, successors, exclusion, progress on vacant keys, idempotent release,
    cleanup, capacity, cluster slots, guard comparisons, redacted errors; exact answers to
    owners and others (\<open>pg_owner_served\<close>, \<open>valkey_owner_served\<close>); the conformance suite
    (\<open>memory_conformance\<close>, \<open>pg_conformance\<close>, \<open>valkey_conformance\<close>).
  \<^item> Handles and renewal: \<open>handle_lifecycle\<close>, \<open>handle_typed\<close>, \<open>renew_finish_outcomes\<close>,
    \<open>managed_renewal_slots\<close>, \<open>managed_run_fails_closed\<close>.
  \<^item> Clients: the retry loop ends within \<^verbatim>\<open>MaxAttempts\<close> equal calls and reports its last call;
    an ended lease is taken over (\<open>pg_client_takes_over\<close>). Concurrent calls never hold more than
    \<^verbatim>\<open>MaxWaiters\<close> slots and give every slot back (\<open>acquire_waiters\<close>). The sources a client gets by
    default are usable (\<open>default_client_sources\<close>).
  \<^item> Guarded work: nothing is swallowed, the lease is given back, the run returns; a task of the
    queue runs only under its fence (\<open>worker_Run_fenced\<close>); over a shared store the key is not
    held afterwards (\<open>memory_guard_frees\<close>, \<open>pg_guard_frees\<close>, \<open>valkey_guard_frees\<close>); a panicking callback skips the
    release (\<open>guard_panic_calls\<close>).
  \<^item> Service manager: exact accounting, no double close, complete shutdown, and that the
    shutdown can always end (\<open>manager_shutdown_reaches\<close>); the whole \<^verbatim>\<open>Acquire\<close> as a path of these
    steps that leaks no lease (\<open>manager_Acquire_accounted\<close>); the calls of the cleanup
    (\<open>manager_cleanup_releases\<close>), and that over a shared store none of the manager's leases
    is left (\<open>pg_shutdown_frees\<close>, \<open>valkey_shutdown_frees\<close>).
  \<^item> Observation: the decorator is transparent; observers are bounded and isolated
    (\<open>observers_bounded\<close>), and the flags of a call are what the goroutines do (\<open>emit_slots\<close>).
  \<^item> Examples: \<open>postgres_main_runs\<close>, \<open>valkey_main_runs\<close>, \<open>main_without_owner\<close>.

  \<^bold>\<open>Bounds.\<close> There is no fuel: the retry loop is a total function by a measure on its 32-bit
  counter, and the renewal loop runs over a finite list of rounds, its result \<open>None\<close> meaning
  that it is still running; \<open>guard_Run_returns\<close> states when it is not. Instants are unbounded
  integers: Go's wall times do not overflow within the 24 hours a lease may last.

  \<^bold>\<open>Not modelled.\<close> \<^verbatim>\<open>doc.go\<close> is a comment without code. Injected implementations of \<^verbatim>\<open>Clock\<close>, \<^verbatim>\<open>Sleeper\<close>,
  \<^verbatim>\<open>OwnerSource\<close> and \<^verbatim>\<open>RetrySource\<close> are the caller's code: what a source returns is an argument
  of the operation that calls it. The network drivers are the fates of a request and their
  documented errors; opening a connection is an error or none. What an observer's callback, a
  guarded callback or an inner queue worker does is the caller's code and an argument. Log
  timestamps are left out.
\<close>

section \<open>From the client to the database\<close>

text \<open>
  C2: Acquisition over PostgreSQL, end to end. Let \<^verbatim>\<open>Client.Acquire\<close> return a handle, after any
  number of attempts between which other clients run any statements, with every clock
  reading taken before its call. Then the handle's fence is above every fence retained
  before; and from then on, under any interleaving of the handle's own operations with
  statements of other clients, lost and late replies included, whenever the handle reports
  active and no release was started, the database names its owner and fence.
\<close>

theorem pg_client_admission:
  assumes "pg_invar s0"
    and "\<forall>i. (\<forall>(e, c) \<in> set (fst (at_env (env i))). pg_env_ok e) \<and> pg_env_ok (snd (at_env (env i)))"
    and "client_Acquire (shared pg_backend) cl ctx newOwner started env key policy s0 = (Inr h, s1)"
    and "\<forall>i. clk_wall (at_clocks (env i)) + skew \<le> pg_instant (pg_begin (snd (at_env (env i))))"
    and "wf_Policy policy" and "1000000 + drift \<le> sint (SafetyMargin policy)"
  shows "\<exists>owner i. newOwner = Inr owner \<and> pg_fence s0 (pg_digest key) < unat (rec_Token (h_record h)) \<and>
    (\<forall>w b c. (world_step pg_backend pg_env_ok (\<lambda>e. pg_instant (pg_begin e)) (\<lambda>e. pg_instant (pg_end e)) pg_digest skew drift)\<^sup>*\<^sup>*
        (handle_world h s1 (pg_instant (pg_end (snd (at_env (env i)))))) w \<longrightarrow>
      w_time w \<le> b \<longrightarrow> reading skew drift b c \<longrightarrow> fst (handle_State c (w_handle w)) = StateActive \<longrightarrow> \<not> w_released w \<longrightarrow>
      pg_live (w_store w) b (pg_digest key) = Some (owner, rec_Token (h_record h)))"
  by (rule pgt.client_admission_safe [OF assms(1) _ assms(3-6)]) (use assms(2) in \<open>simp add: lease_safety.shared_ok_def [OF pgs.lease_safety_axioms]\<close>)

definition ex_pg_attempt :: "uint32 \<Rightarrow> ((pg_env \<times> call) list \<times> pg_env) attempt" where
  "ex_pg_attempt n = \<lparr>at_clocks = ex_clocks 1000000, at_env = ([], ex_penv 1000 None), at_ctxErr = None, at_waitErr = None,
     at_jitter = 0, at_now = 0, at_sleep = None, at_ctxErr2 = None, at_waitErr2 = None\<rparr>"

theorem pg_client_admission_witness:
  "pg_live ex_tables1 4000000000 (pg_digest ex_pkey) = Some (''y'', 2)"
proof -
  let ?h = "newHandleAt ex_policy (ex_precord ''y'' 2 1000 5001000) 1000000 1000000"
  have acq: "client_Acquire (shared pg_backend) ex_client (Some None) (Inr ''y'') 0 ex_pg_attempt ex_pkey ex_policy ex_tables =
      (Inr ?h, ex_tables1)"
    using ex_acquired
    by (subst client_Acquire_def, subst acquire_loop.simps)
      (simp add: acquisitionContextError_def valid_owner_def ex_client_def ex_pg_attempt_def shared_def validAcquisition_def
        ex_precord_def pg_instant_def ex_clocks_def Let_def)
  have active: "fst (handle_State (ex_clocks 4000000000) (w_handle (handle_world ?h ex_tables1 1000000))) = StateActive"
    by (simp add: handle_world_def handle_State_def expireLocked_def newHandleAt_def Let_def time_Add_def ex_clocks_def)
  have rec: "rec_Token (h_record ?h) = 2" by (simp add: newHandleAt_def Let_def ex_precord_def)
  have at: "w_time (handle_world ?h ex_tables1 1000000) = 1000000" "w_store (handle_world ?h ex_tables1 1000000) = ex_tables1"
    "\<not> w_released (handle_world ?h ex_tables1 1000000)" by (simp_all add: handle_world_def)
  from pg_client_admission [OF ex_tables_invar _ acq, of 0 0] obtain owner where
    owner: "Inr ''y'' = (Inr owner :: string result)" and all:
    "\<forall>w b c. (world_step pg_backend pg_env_ok (\<lambda>e. pg_instant (pg_begin e)) (\<lambda>e. pg_instant (pg_end e)) pg_digest 0 0)\<^sup>*\<^sup>*
        (handle_world ?h ex_tables1 1000000) w \<longrightarrow>
      w_time w \<le> b \<longrightarrow> reading 0 0 b c \<longrightarrow> fst (handle_State c (w_handle w)) = StateActive \<longrightarrow> \<not> w_released w \<longrightarrow>
      pg_live (w_store w) b (pg_digest ex_pkey) = Some (owner, rec_Token (h_record ?h))"
    by (auto simp: ex_pg_attempt_def ex_clocks_def pg_instant_def)
  have "reading 0 0 4000000000 (ex_clocks 4000000000)" by (simp add: reading_def ex_clocks_def)
  with all [rule_format, OF rtranclp.rtrancl_refl, of 4000000000 "ex_clocks 4000000000"] active at owner rec show ?thesis by simp
qed

text \<open>The same over Valkey, on any server with the documented behaviour.\<close>

theorem valkey_client_admission:
  assumes "valkey_server S hash_at count_at" and "valkey_invar hash_at count_at prefix s0"
    and "\<forall>i. (\<forall>(e, c) \<in> set (fst (at_env (env i))). valkey_env_ok e) \<and> valkey_env_ok (snd (at_env (env i)))"
    and "client_Acquire (shared (valkey_backend S prefix)) cl ctx newOwner started env key policy s0 = (Inr h, s1)"
    and "\<forall>i. clk_wall (at_clocks (env i)) + skew \<le> valkey_instant (vk_now (snd (at_env (env i))))"
    and "wf_Policy policy" and "2000000 + drift \<le> sint (SafetyMargin policy)"
  shows "\<exists>owner i. newOwner = Inr owner \<and> valkey_fence count_at prefix s0 (key_digest key) < unat (rec_Token (h_record h)) \<and>
    (\<forall>w b c. (world_step (valkey_backend S prefix) valkey_env_ok (\<lambda>e. valkey_instant (vk_now e)) (\<lambda>e. valkey_instant (vk_now e))
          key_digest skew drift)\<^sup>*\<^sup>* (handle_world h s1 (valkey_instant (vk_now (snd (at_env (env i)))))) w \<longrightarrow>
      w_time w \<le> b \<longrightarrow> reading skew drift b c \<longrightarrow> fst (handle_State c (w_handle w)) = StateActive \<longrightarrow> \<not> w_released w \<longrightarrow>
      valkey_live hash_at prefix (w_store w) b (key_digest key) = Some (owner, rec_Token (h_record h)))"
proof -
  note timing = valkey_lease.timing_contract [OF valkey_lease.intro [OF assms(1)], of prefix]
  show ?thesis
    by (rule lease_timing.client_admission_safe [OF timing assms(2) _ assms(4-7)])
      (use assms(3) in \<open>simp add: lease_safety.shared_ok_def [OF lease_timing.axioms(1) [OF timing]]\<close>)
qed

end
